(* ===== verification/Prelude.thy ===== *)
theory Prelude
  imports Main "HOL-Library.Word"
begin

text \<open>
  Shared vocabulary of the development: Go strings as byte strings, the functions of Go's
  package \<open>strings\<close> the sources call, error values, the machine integer \<open>uint\<close>, and the
  generic list lemmas the components share.

  A Go string is a sequence of bytes, and \<^typ>\<open>char\<close> is a byte, so a Go string is a
  \<^typ>\<open>string\<close>. A Go \<open>uint\<close> is 64 bits wide (the model fixes a 64-bit platform).
\<close>

type_synonym uint = "64 word"

named_theorems go_strings \<open>definitions of the string helpers\<close>
named_theorems go_errors \<open>definitions that build error values\<close>

subsection \<open>Bytes\<close>

abbreviation LF :: char where
  "LF \<equiv> CHR 0x0A"

abbreviation CR :: char where
  "CR \<equiv> CHR 0x0D"

abbreviation NUL :: char where
  "NUL \<equiv> CHR 0x00"

abbreviation SP :: char where
  "SP \<equiv> CHR 0x20"

abbreviation COLON :: char where
  "COLON \<equiv> CHR 0x3A"

text \<open>No line terminator occurs in a string: the value space of single-line fields.\<close>

definition no_eol :: "string \<Rightarrow> bool" where
  [go_strings]: "no_eol s \<longleftrightarrow> CR \<notin> set s \<and> LF \<notin> set s"

lemma no_eol_Nil [simp]: "no_eol []"
  by (simp add: no_eol_def)

lemma no_eol_Cons [simp]: "no_eol (c # s) \<longleftrightarrow> c \<noteq> CR \<and> c \<noteq> LF \<and> no_eol s"
  by (auto simp: no_eol_def)

lemma no_eol_append [simp]: "no_eol (s @ t) \<longleftrightarrow> no_eol s \<and> no_eol t"
  by (auto simp: no_eol_def)

subsection \<open>Package strings\<close>

text \<open>\<open>s[a:b]\<close> for indices the sources keep in range.\<close>

definition slice :: "'a list \<Rightarrow> nat \<Rightarrow> nat \<Rightarrow> 'a list" where
  [go_strings]: "slice s a b = take (b - a) (drop a s)"

definition ContainsAny :: "string \<Rightarrow> string \<Rightarrow> bool" where
  [go_strings]: "ContainsAny s chars \<longleftrightarrow> list_ex (\<lambda>c. c \<in> set chars) s"

definition ContainsByte :: "string \<Rightarrow> char \<Rightarrow> bool" where
  [go_strings]: "ContainsByte s c \<longleftrightarrow> c \<in> set s"

fun HasPrefix :: "string \<Rightarrow> string \<Rightarrow> bool" where
  "HasPrefix s [] = True"
| "HasPrefix [] (p # ps) = False"
| "HasPrefix (c # s) (p # ps) = (c = p \<and> HasPrefix s ps)"

definition TrimPrefix :: "string \<Rightarrow> string \<Rightarrow> string" where
  [go_strings]: "TrimPrefix s p = (if HasPrefix s p then drop (length p) s else s)"

text \<open>\<open>strings.Contains\<close>: is \<open>sub\<close> a substring?\<close>

fun Contains :: "string \<Rightarrow> string \<Rightarrow> bool" where
  "Contains [] sub = (sub = [])"
| "Contains (c # s) sub = (HasPrefix (c # s) sub \<or> Contains s sub)"

text \<open>\<open>strings.Cut(s, sep)\<close> for a separator of one byte: before, after, found.\<close>

fun Cut :: "string \<Rightarrow> char \<Rightarrow> string \<times> string \<times> bool" where
  "Cut [] sep = ([], [], False)"
| "Cut (c # s) sep =
     (if c = sep then ([], s, True)
      else (case Cut s sep of (before, after, found) \<Rightarrow> (c # before, after, found)))"

fun Join :: "string list \<Rightarrow> string \<Rightarrow> string" where
  "Join [] sep = []"
| "Join [x] sep = x"
| "Join (x # y # xs) sep = x @ sep @ Join (y # xs) sep"

lemma HasPrefix_append [simp]: "HasPrefix (p @ s) p"
  by (induction p) auto

lemma HasPrefix_iff: "HasPrefix s p \<longleftrightarrow> (\<exists>t. s = p @ t)"
  by (induction s p rule: HasPrefix.induct) auto

lemma TrimPrefix_append [simp]: "TrimPrefix (p @ s) p = s"
  by (simp add: TrimPrefix_def)

lemma Cut_append_sep [simp]: "sep \<notin> set s \<Longrightarrow> Cut (s @ sep # t) sep = (s, t, True)"
  by (induction s) auto

lemma Cut_not_found: "sep \<notin> set s \<Longrightarrow> Cut s sep = (s, [], False)"
  by (induction s) auto

lemma Contains_iff: "Contains s sub \<longleftrightarrow> (\<exists>a b. s = a @ sub @ b)"
proof (induction s)
  case Nil
  then show ?case by auto
next
  case (Cons c s)
  have "Contains (c # s) sub \<longleftrightarrow> (\<exists>b. c # s = sub @ b) \<or> (\<exists>a b. s = a @ sub @ b)"
    using Cons.IH by (simp add: HasPrefix_iff)
  also have "\<dots> \<longleftrightarrow> (\<exists>a b. c # s = a @ sub @ b)"
    by (metis append_Cons append_Nil list.inject neq_Nil_conv)
  finally show ?case .
qed

lemma Join_Cons: "xs \<noteq> [] \<Longrightarrow> Join (x # xs) sep = x @ sep @ Join xs sep"
  by (cases xs) auto

lemma Join_append:
  "xs \<noteq> [] \<Longrightarrow> ys \<noteq> [] \<Longrightarrow> Join (xs @ ys) sep = Join xs sep @ sep @ Join ys sep"
  by (induction xs rule: induct_list012) (auto simp: Join_Cons)

lemma ContainsAny_eol [simp]: "ContainsAny s [LF, CR] \<longleftrightarrow> \<not> no_eol s"
  by (auto simp: ContainsAny_def no_eol_def list_ex_iff)

subsection \<open>Errors\<close>

text \<open>
  Errors are values. A sentinel of the standard library is a constructor of its own;
  an error of the environment (a broken connection, a failing store) is \<open>EnvError\<close> with an
  arbitrary tag. \<open>Wrapf\<close> records a call \<open>errorfamily.Wrapf(err, family, code, format, args)\<close>
  (the arguments of the message, not its rendering), and
  \<open>Errorf\<close> a call \<open>fmt.Errorf("...: %w", err)\<close>; \<open>NewError\<close> is a call without \<open>%w\<close>: nothing is assumed of go-error-family but
  that wrapping an error gives an error from which the cause can be recovered.
\<close>

datatype family = Rejection | Transient

datatype errarg = ArgS string | ArgN nat

datatype goerr =
    EOF
  | ErrUnexpectedEOF
  | ErrShortWrite
  | ErrTooLong
  | ErrNoProgress
  | ErrAdvanceTooFar
  | ErrSyntax
  | ErrRange
  | ContextCanceled
  | ErrNotExist
  | NewRejection string
  | NewError string
  | EnvError nat
  | Errorf string goerr
  | Wrapf goerr family string "errarg list"

fun cause :: "goerr \<Rightarrow> goerr" where
  "cause (Errorf m e) = cause e"
| "cause (Wrapf e f c args) = cause e"
| "cause e = e"

text \<open>\<open>errors.Is(err, target)\<close> walks the chain of wrapped errors.\<close>

fun errorsIs :: "goerr \<Rightarrow> goerr \<Rightarrow> bool" where
  "errorsIs (Errorf m e) t = (Errorf m e = t \<or> errorsIs e t)"
| "errorsIs (Wrapf e f c args) t = (Wrapf e f c args = t \<or> errorsIs e t)"
| "errorsIs e t = (e = t)"

text \<open>A call that may panic: the model keeps the panic as a value.\<close>

datatype 'a outcome = Ret 'a | Panic string

subsection \<open>Lists\<close>

lemma last_appended:
  "xs \<noteq> [] \<Longrightarrow> last (x # xs) = last xs"
  by simp

lemma take_prefix_split: "length p \<le> n \<Longrightarrow> take n (p @ q) = p @ take (n - length p) q"
  by simp

end
