(* ===== verification/Lines.thy ===== *)
theory Lines
  imports Prelude
begin

text \<open>
  Line splitting and keyed lines of \<open>event.go\<close>: \<open>forEachLine\<close>, \<open>splitLines\<close>, \<open>JoinLines\<close>
  and \<open>KeyedLines\<close>, and the reference definition \<open>eol_split\<close> of the standard's end-of-line
  rule (CRLF, LF or CR end a line), which both the writer and the reader are proved against.
\<close>

subsection \<open>Operations\<close>

text \<open>
  \<open>forEachLine(s, yield)\<close>. The loop keeps the start of the current line and the scan
  position; the callback is a state transformer on whatever it updates.
\<close>

function forEachLine_loop ::
    "string \<Rightarrow> (string \<Rightarrow> 'b \<Rightarrow> 'b) \<Rightarrow> nat \<Rightarrow> nat \<Rightarrow> 'b \<Rightarrow> 'b" where
  "forEachLine_loop s yield start i acc =
     (if i < length s then
        (if s ! i = CR then
           let acc' = yield (slice s start i) acc;
               i1 = i + 1;
               i2 = (if i1 < length s \<and> s ! i1 = LF then i1 + 1 else i1)
           in forEachLine_loop s yield i2 i2 acc'
         else if s ! i = LF then
           forEachLine_loop s yield (i + 1) (i + 1) (yield (slice s start i) acc)
         else forEachLine_loop s yield start (i + 1) acc)
      else if start < length s then yield (drop start s) acc
      else acc)"
  by pat_completeness auto
termination
  by (relation "measure (\<lambda>(s, y, start, i, acc). length s - i)") (auto simp: Let_def split: if_splits)

declare forEachLine_loop.simps [simp del]

definition forEachLine :: "string \<Rightarrow> (string \<Rightarrow> 'b \<Rightarrow> 'b) \<Rightarrow> 'b \<Rightarrow> 'b" where
  "forEachLine s yield acc =
     (if s = [] then yield [] acc else forEachLine_loop s yield 0 0 acc)"

definition splitLines :: "string \<Rightarrow> string list" where
  "splitLines s =
     (if \<not> ContainsAny s [LF, CR] then [s]
      else forEachLine s (\<lambda>line lines. lines @ [line]) [])"

definition JoinLines :: "string list \<Rightarrow> string" where
  "JoinLines lines = Join lines [LF]"

text \<open>The builder loop of \<open>KeyedLines\<close>: a separator before every line but the first.\<close>

fun keyedLoop :: "string \<Rightarrow> nat \<Rightarrow> string list \<Rightarrow> string \<Rightarrow> string" where
  "keyedLoop key i [] b = b"
| "keyedLoop key i (line # lines) b =
     keyedLoop key (i + 1) lines ((if i > 0 then b @ [LF] else b) @ key @ [SP] @ line)"

definition KeyedLines :: "string \<Rightarrow> string \<Rightarrow> string" where
  "KeyedLines key value =
     (if value = [] then [] else keyedLoop key 0 (splitLines value) [])"

subsection \<open>The reference: the standard's end-of-line rule\<close>

text \<open>
  The terminated lines of a string and the unterminated rest, by recursion on the string.
\<close>

fun skip_LF :: "string \<Rightarrow> string" where
  "skip_LF [] = []"
| "skip_LF (c # s) = (if c = LF then s else c # s)"

lemma length_skip_LF: "length (skip_LF s) \<le> length s"
  by (cases s) auto

function eol_split :: "string \<Rightarrow> string list \<times> string" where
  "eol_split [] = ([], [])"
| "eol_split (c # s) =
     (if c = CR then (let (ls, p) = eol_split (skip_LF s) in ([] # ls, p))
      else if c = LF then (let (ls, p) = eol_split s in ([] # ls, p))
      else (case eol_split s of
              ([], p) \<Rightarrow> ([], c # p)
            | (l # ls, p) \<Rightarrow> ((c # l) # ls, p)))"
  by pat_completeness auto
termination
  by (relation "measure length") (auto simp: le_imp_less_Suc length_skip_LF)

definition terminated :: "string \<Rightarrow> string list" where
  "terminated s = fst (eol_split s)"

definition pending :: "string \<Rightarrow> string" where
  "pending s = snd (eol_split s)"

text \<open>All lines at the end of the input: the pending rest counts when it is not empty.\<close>

definition lines_at_eof :: "string \<Rightarrow> string list" where
  "lines_at_eof s = terminated s @ (if pending s = [] then [] else [pending s])"

lemma terminated_pending_simps [simp]:
  "terminated [] = []"
  "pending [] = []"
  "terminated (CR # s) = [] # terminated (skip_LF s)"
  "pending (CR # s) = pending (skip_LF s)"
  "terminated (LF # s) = [] # terminated s"
  "pending (LF # s) = pending s"
  by (simp_all add: terminated_def pending_def split: prod.split)

lemma terminated_Cons_other:
  "c \<noteq> CR \<Longrightarrow> c \<noteq> LF \<Longrightarrow>
   terminated (c # s) = (case terminated s of [] \<Rightarrow> [] | l # ls \<Rightarrow> (c # l) # ls)"
  by (auto simp: terminated_def split: prod.split list.split)

lemma pending_Cons_other:
  "c \<noteq> CR \<Longrightarrow> c \<noteq> LF \<Longrightarrow> pending (c # s) = (if terminated s = [] then c # pending s else pending s)"
  by (auto simp: terminated_def pending_def split: prod.split list.split)

declare eol_split.simps(2) [simp del]

lemma lines_at_eof_simps [simp]:
  "lines_at_eof [] = []"
  "lines_at_eof (CR # s) = [] # lines_at_eof (skip_LF s)"
  "lines_at_eof (LF # s) = [] # lines_at_eof s"
  by (simp_all add: lines_at_eof_def)

text \<open>Splitting off a first line that holds no terminator.\<close>

lemma no_eol_terminated [simp]: "no_eol l \<Longrightarrow> terminated l = []"
  by (induction l) (auto simp: terminated_Cons_other)

lemma no_eol_pending [simp]: "no_eol l \<Longrightarrow> pending l = l"
  by (induction l) (auto simp: pending_Cons_other)

lemma terminated_line_LF: "no_eol l \<Longrightarrow> terminated (l @ LF # s) = l # terminated s"
  by (induction l) (auto simp: terminated_Cons_other)

lemma pending_line_LF: "no_eol l \<Longrightarrow> pending (l @ LF # s) = pending s"
  by (induction l) (auto simp: pending_Cons_other terminated_line_LF)

lemma terminated_line_CR: "no_eol l \<Longrightarrow> terminated (l @ CR # s) = l # terminated (skip_LF s)"
  by (induction l) (auto simp: terminated_Cons_other)

lemma pending_line_CR: "no_eol l \<Longrightarrow> pending (l @ CR # s) = pending (skip_LF s)"
  by (induction l) (auto simp: pending_Cons_other terminated_line_CR)

lemmas line_simps = terminated_line_LF pending_line_LF terminated_line_CR pending_line_CR

lemma lines_at_eof_LF: "no_eol l \<Longrightarrow> lines_at_eof (l @ LF # s) = l # lines_at_eof s"
  by (simp add: lines_at_eof_def line_simps)

lemma lines_at_eof_CR: "no_eol l \<Longrightarrow> lines_at_eof (l @ CR # s) = l # lines_at_eof (skip_LF s)"
  by (simp add: lines_at_eof_def line_simps)

lemma lines_at_eof_no_eol: "no_eol l \<Longrightarrow> l \<noteq> [] \<Longrightarrow> lines_at_eof l = [l]"
  by (simp add: lines_at_eof_def)

text \<open>Every string is a first line and what follows it: the case split of all later proofs.\<close>

lemma first_line_cases:
  obtains (none) "no_eol s"
  | (lf) l r where "no_eol l" "s = l @ LF # r"
  | (cr) l r where "no_eol l" "s = l @ CR # r"
proof (induction s arbitrary: thesis)
  case Nil
  then show ?case by simp
next
  case (Cons c s)
  show ?case
  proof (cases "c = CR \<or> c = LF")
    case True
    then show ?thesis using Cons.prems(2) [of "[]" s] Cons.prems(3) [of "[]" s] by auto
  next
    case False
    show ?thesis
    proof (rule Cons.IH)
      assume "no_eol s"
      then show thesis using False Cons.prems(1) by simp
    next
      fix l r assume "no_eol l" "s = l @ LF # r"
      then show thesis using False Cons.prems(2) [of "c # l" r] by simp
    next
      fix l r assume "no_eol l" "s = l @ CR # r"
      then show thesis using False Cons.prems(3) [of "c # l" r] by simp
    qed
  qed
qed

lemma terminated_length: "l \<in> set (terminated s) \<Longrightarrow> length l < length s"
proof (induction s rule: length_induct)
  case (1 s)
  show ?case
  proof (cases s rule: first_line_cases)
    case none
    then show ?thesis using 1(2) by simp
  next
    case (lf a r)
    then show ?thesis using 1 by (force simp: line_simps)
  next
    case (cr a r)
    have "length (skip_LF r) < length s" "length (skip_LF r) \<le> length r"
      using cr length_skip_LF [of r] by simp_all
    then show ?thesis using 1 cr by (force simp: line_simps)
  qed
qed

lemma eol_split_no_eol: "(\<forall>l \<in> set (terminated s). no_eol l) \<and> no_eol (pending s)"
proof (induction s rule: length_induct)
  case (1 s)
  show ?case
  proof (cases s rule: first_line_cases)
    case none
    then show ?thesis by simp
  next
    case (lf l r)
    then show ?thesis using 1 [rule_format, of r] by (simp add: line_simps)
  next
    case (cr l r)
    have "length (skip_LF r) < length s"
      using cr length_skip_LF [of r] by simp
    then show ?thesis using 1 [rule_format, of "skip_LF r"] cr by (simp add: line_simps)
  qed
qed

lemma lines_at_eof_no_eol_each: "l \<in> set (lines_at_eof s) \<Longrightarrow> no_eol l"
  using eol_split_no_eol [of s] by (auto simp: lines_at_eof_def split: if_splits)

subsection \<open>forEachLine against the reference\<close>

lemma forEachLine_loop_skip:
  assumes "start \<le> i" "i + length l \<le> length s" "no_eol l" "take (length l) (drop i s) = l"
  shows "forEachLine_loop s yield start i acc = forEachLine_loop s yield start (i + length l) acc"
  using assms
proof (induction l arbitrary: i)
  case Nil
  then show ?case by simp
next
  case (Cons c l)
  then have i: "i < length s" and c: "s ! i = c"
    by (auto simp: take_Suc_conv_app_nth Cons_nth_drop_Suc [symmetric])
  have tl: "take (length l) (drop (Suc i) s) = l"
    using Cons.prems(4) i by (simp add: Cons_nth_drop_Suc [symmetric])
  have "forEachLine_loop s yield start i acc = forEachLine_loop s yield start (i + 1) acc"
    using i c Cons.prems(3) by (subst forEachLine_loop.simps) simp
  also have "\<dots> = forEachLine_loop s yield start (i + 1 + length l) acc"
    using Cons.prems tl by (intro Cons.IH) auto
  finally show ?case by simp
qed

lemma drop_at_first_line:
  assumes "i \<le> length s" "drop i s = l @ t"
  shows "i + length l \<le> length s" "take (length l) (drop i s) = l"
    "slice s i (i + length l) = l" "drop (i + length l) s = t"
proof -
  from assms have "length s - i = length l + length t"
    by (metis length_append length_drop)
  with assms(1) show "i + length l \<le> length s" by simp
  show "take (length l) (drop i s) = l" "slice s i (i + length l) = l"
    by (simp_all add: assms(2) slice_def)
  have "drop (i + length l) s = drop (length l) (drop i s)"
    by (simp add: add.commute)
  then show "drop (i + length l) s = t" by (simp add: assms(2))
qed

lemma drop_Cons_at:
  "drop j s = c # t \<Longrightarrow> j < length s \<and> s ! j = c \<and> drop (Suc j) s = t"
  by (metis Cons_nth_drop_Suc drop_eq_Nil2 leI list.distinct(1) list.inject)

lemma forEachLine_loop_lines:
  "i \<le> length s \<Longrightarrow>
   forEachLine_loop s yield i i acc = fold yield (lines_at_eof (drop i s)) acc"
proof (induction "length s - i" arbitrary: i acc rule: less_induct)
  case less
  note skip = forEachLine_loop_skip [of i i]
  show ?case
  proof (cases "drop i s" rule: first_line_cases)
    case none
    have "forEachLine_loop s yield i i acc = forEachLine_loop s yield i (length s) acc"
      using skip [of "drop i s" s] none less.prems by simp
    also have "\<dots> = (if i < length s then yield (drop i s) acc else acc)"
      by (subst forEachLine_loop.simps) simp
    also have "\<dots> = fold yield (lines_at_eof (drop i s)) acc"
      using none by (auto simp: lines_at_eof_no_eol)
    finally show ?thesis .
  next
    case (lf l r)
    note d = drop_at_first_line [OF less.prems lf(2)]
    let ?j = "i + length l"
    note j = drop_Cons_at [OF d(4)]
    have "forEachLine_loop s yield i i acc = forEachLine_loop s yield i ?j acc"
      using skip [of l s] d lf(1) by simp
    also have "\<dots> = forEachLine_loop s yield (Suc ?j) (Suc ?j) (yield l acc)"
      using j d(3) by (subst forEachLine_loop.simps) simp
    also have "\<dots> = fold yield (lines_at_eof r) (yield l acc)"
      using less.hyps [of "Suc ?j"] j less.prems by (simp add: diff_less_mono2)
    finally show ?thesis using lf by (simp add: lines_at_eof_LF)
  next
    case (cr l r)
    note d = drop_at_first_line [OF less.prems cr(2)]
    let ?j = "i + length l"
    note j = drop_Cons_at [OF d(4)]
    define k where "k = (if Suc ?j < length s \<and> s ! Suc ?j = LF then Suc (Suc ?j) else Suc ?j)"
    have k: "k \<le> length s" "?j < k" "drop k s = skip_LF r"
      using j by (cases r; auto simp: k_def dest: drop_Cons_at)+
    have "forEachLine_loop s yield i i acc = forEachLine_loop s yield i ?j acc"
      using skip [of l s] d cr(1) by simp
    also have "\<dots> = forEachLine_loop s yield k k (yield l acc)"
      using j d(3) by (subst forEachLine_loop.simps) (simp add: k_def)
    also have "\<dots> = fold yield (lines_at_eof (skip_LF r)) (yield l acc)"
      using less.hyps [of k] k j by (simp add: diff_less_mono2)
    finally show ?thesis using cr by (simp add: lines_at_eof_CR)
  qed
qed

text \<open>
  The lines \<open>forEachLine\<close> yields, in order: one empty line for the empty string, otherwise
  the lines of the standard's rule.
\<close>

definition data_lines :: "string \<Rightarrow> string list" where
  "data_lines s = (if s = [] then [[]] else lines_at_eof s)"

lemma forEachLine_fold: "forEachLine s yield acc = fold yield (data_lines s) acc"
  using forEachLine_loop_lines [of 0 s yield acc] by (simp add: forEachLine_def data_lines_def)

lemma fold_snoc: "fold (\<lambda>x xs. xs @ [f x]) ys zs = zs @ map f ys"
  by (induction ys arbitrary: zs) auto

lemma splitLines_data_lines: "splitLines s = data_lines s"
  by (auto simp: splitLines_def forEachLine_fold data_lines_def lines_at_eof_no_eol
      fold_snoc [where f = "\<lambda>x. x", simplified])

lemma data_lines_nonempty [simp]: "data_lines s \<noteq> []"
  by (cases s rule: first_line_cases)
    (auto simp: data_lines_def lines_at_eof_no_eol lines_at_eof_LF lines_at_eof_CR)

lemma data_lines_no_eol: "l \<in> set (data_lines s) \<Longrightarrow> no_eol l"
  by (auto simp: data_lines_def dest: lines_at_eof_no_eol_each split: if_splits)

subsection \<open>Joining and keying lines\<close>

lemma lines_at_eof_Join:
  "\<forall>l \<in> set ls. no_eol l \<Longrightarrow> ls \<noteq> [] \<Longrightarrow> last ls \<noteq> [] \<Longrightarrow> lines_at_eof (Join ls [LF]) = ls"
  by (induction ls rule: induct_list012)
    (auto simp: lines_at_eof_no_eol lines_at_eof_LF)

lemma lines_at_eof_eq_Nil [simp]: "lines_at_eof s = [] \<longleftrightarrow> s = []"
  by (cases s rule: first_line_cases) (auto simp: lines_at_eof_def line_simps)

text \<open>Rejoined lines are the text itself when it uses LF only and does not end with one.\<close>

lemma Join_lines_at_eof:
  "CR \<notin> set s \<Longrightarrow> s \<noteq> [] \<Longrightarrow> last s \<noteq> LF \<Longrightarrow> Join (lines_at_eof s) [LF] = s"
proof (induction s rule: length_induct)
  case (1 s)
  show ?case
  proof (cases s rule: first_line_cases)
    case none
    then show ?thesis using 1(3) by (simp add: lines_at_eof_no_eol)
  next
    case (lf l r)
    then have "r \<noteq> []" using 1(4) by auto
    then show ?thesis using 1 lf by (simp add: lines_at_eof_LF Join_Cons)
  next
    case (cr l r)
    then show ?thesis using 1(2) by simp
  qed
qed

lemma Join_data_lines:
  "CR \<notin> set s \<Longrightarrow> s = [] \<or> last s \<noteq> LF \<Longrightarrow> Join (data_lines s) [LF] = s"
  by (auto simp: data_lines_def Join_lines_at_eof)

lemma Join_eq_Nil_iff: "sep \<noteq> [] \<Longrightarrow> Join ls sep = [] \<longleftrightarrow> ls = [] \<or> ls = [[]]"
  by (induction ls rule: induct_list012) auto

lemma keyedLoop_Join:
  "keyedLoop key i ls b =
     (if ls = [] then b
      else (if i > 0 then b @ [LF] else b) @ Join (map (\<lambda>l. key @ SP # l) ls) [LF])"
  by (induction ls arbitrary: i b) (auto simp: Join_Cons)

lemma KeyedLines_Join:
  "value \<noteq> [] \<Longrightarrow>
   KeyedLines key value = JoinLines (map (\<lambda>l. key @ SP # l) (data_lines value))"
  by (simp add: KeyedLines_def keyedLoop_Join splitLines_data_lines JoinLines_def)

text \<open>
  \<open>forEachLine\<close> calls its callback once per line, in order, with exactly the lines of
  the standard's end-of-line rule (CRLF, LF and CR each end a line, a trailing terminator
  gives no final empty line), and once with the empty line for the empty string; \<open>splitLines\<close>
  collects the same lines, on its fast path too; and no yielded line holds a CR or LF.
\<close>

lemma forEachLine_yields_lines:
  "forEachLine s yield acc = fold yield (if s = [] then [[]] else lines_at_eof s) acc \<and>
   splitLines s = (if s = [] then [[]] else lines_at_eof s) \<and>
   list_all no_eol (splitLines s)"
  using data_lines_no_eol [of _ s]
  by (auto simp: forEachLine_fold splitLines_data_lines list_all_iff data_lines_def)

text \<open>
  \<open>splitLines\<close> inverts \<open>JoinLines\<close>: lines without terminators come back unchanged when
  the last one is not empty.
\<close>

lemma splitLines_JoinLines:
  assumes "list_all no_eol ls" and "ls \<noteq> []" and "last ls \<noteq> []"
  shows "splitLines (JoinLines ls) = ls"
proof -
  have "JoinLines ls \<noteq> []"
    using assms by (auto simp: JoinLines_def Join_eq_Nil_iff)
  then show ?thesis
    using assms lines_at_eof_Join [of ls]
    by (simp add: splitLines_data_lines data_lines_def JoinLines_def list_all_iff)
qed

text \<open>
  A trailing empty line is lost between \<open>JoinLines\<close> and the lines \<open>WriteEvent\<close> emits: the
  join ends in a terminator, which opens no further line.
\<close>

lemma JoinLines_drops_trailing_empty:
  assumes "list_all no_eol ls" and "ls \<noteq> []"
  shows "splitLines (JoinLines (ls @ [[]])) = ls"
proof -
  have "lines_at_eof (Join (ls @ [[]]) [LF]) = ls"
    using assms by (induction ls rule: induct_list012) (auto simp: lines_at_eof_LF)
  moreover have "Join (ls @ [[]]) [LF] \<noteq> []"
    using assms(2) by (simp add: Join_eq_Nil_iff)
  ultimately show ?thesis
    by (simp add: splitLines_data_lines data_lines_def JoinLines_def)
qed

text \<open>
  \<open>KeyedLines\<close> prefixes every line of the value: splitting its result (as \<open>WriteEvent\<close>
  does) gives exactly the lines of the value, each behind the key and one space, for a key
  without terminators; the empty value gives the empty string.
\<close>

lemma KeyedLines_prefixes_every_line:
  assumes "no_eol key"
  shows "KeyedLines key [] = [] \<and>
    (value \<noteq> [] \<longrightarrow>
       splitLines (KeyedLines key value) = map (\<lambda>l. key @ SP # l) (splitLines value))"
proof -
  let ?ls = "map (\<lambda>l. key @ SP # l) (data_lines value)"
  have "list_all no_eol ?ls"
    using assms data_lines_no_eol by (auto simp: list_all_iff)
  moreover have "last ?ls \<noteq> []" by (simp add: last_map)
  ultimately have "lines_at_eof (Join ?ls [LF]) = ?ls" "Join ?ls [LF] \<noteq> []"
    using lines_at_eof_Join [of ?ls] by (auto simp: list_all_iff Join_eq_Nil_iff Cons_eq_map_conv)
  then show ?thesis
    by (simp add: KeyedLines_Join splitLines_data_lines JoinLines_def data_lines_def [of "Join _ _"])
      (simp add: KeyedLines_def)
qed

end
