(* ===== verification/Strconv.thy ===== *)
theory Strconv
  imports Prelude
begin

text \<open>
  The decimal conversions of Go's package \<open>strconv\<close> the sources use: \<open>FormatUint\<close>,
  \<open>FormatInt\<close>, \<open>ParseUint(s, 10, 64)\<close> with its 64-bit accumulator and overflow tests, and
  \<open>Atoi\<close>. Parsing is proved to accept exactly the digit strings whose value fits 64 bits,
  and to invert formatting.
\<close>

subsection \<open>Formatting\<close>

definition digit_char :: "nat \<Rightarrow> char" where
  "digit_char d = char_of (48 + d)"

fun formatDecimal :: "nat \<Rightarrow> string" where
  "formatDecimal n =
     (if n < 10 then [digit_char n] else formatDecimal (n div 10) @ [digit_char (n mod 10)])"

declare formatDecimal.simps [simp del]

definition FormatUint :: "uint \<Rightarrow> string" where
  "FormatUint n = formatDecimal (unat n)"

definition FormatInt :: "int \<Rightarrow> string" where
  "FormatInt i = (if i < 0 then CHR ''-'' # formatDecimal (nat (- i)) else formatDecimal (nat i))"

subsection \<open>Parsing\<close>

definition isDigit :: "char \<Rightarrow> bool" where
  "isDigit c \<longleftrightarrow> 48 \<le> (of_char c :: nat) \<and> (of_char c :: nat) \<le> 57"

definition digit_value :: "char \<Rightarrow> nat" where
  "digit_value c = of_char c - 48"

text \<open>\<open>cutoff\<close> is \<open>maxUint64/base + 1\<close>: from there on, multiplying by the base overflows.\<close>

definition parse_cutoff :: uint where
  "parse_cutoff = 1844674407370955162"

fun parseUint_loop :: "uint \<Rightarrow> string \<Rightarrow> goerr + uint" where
  "parseUint_loop n [] = Inr n"
| "parseUint_loop n (c # s) =
     (if \<not> isDigit c then Inl ErrSyntax
      else if parse_cutoff \<le> n then Inl ErrRange
      else let n1 = n * 10; n2 = n1 + of_nat (digit_value c)
           in if n2 < n1 then Inl ErrRange else parseUint_loop n2 s)"

definition ParseUint :: "string \<Rightarrow> goerr + uint" where
  "ParseUint s = (if s = [] then Inl ErrSyntax else parseUint_loop 0 s)"

text \<open>\<open>Atoi\<close>: an optional sign, then digits, in the range of a signed 64-bit integer.\<close>

definition Atoi :: "string \<Rightarrow> goerr + int" where
  "Atoi s =
     (let neg = HasPrefix s ''-'';
          digits = (if neg \<or> HasPrefix s ''+'' then tl s else s)
      in case ParseUint digits of
           Inl e \<Rightarrow> Inl e
         | Inr un \<Rightarrow>
             (if \<not> neg \<and> 2 ^ 63 \<le> uint un then Inl ErrRange
              else if neg \<and> 2 ^ 63 < uint un then Inl ErrRange
              else Inr (if neg then - uint un else uint un)))"

subsection \<open>The value of a digit string\<close>

definition decimal_from :: "nat \<Rightarrow> string \<Rightarrow> nat" where
  "decimal_from a s = fold (\<lambda>c v. 10 * v + digit_value c) s a"

abbreviation decimal :: "string \<Rightarrow> nat" where
  "decimal s \<equiv> decimal_from 0 s"

lemma decimal_from_simps [simp]:
  "decimal_from a [] = a"
  "decimal_from a (c # s) = decimal_from (10 * a + digit_value c) s"
  "decimal_from a (s @ t) = decimal_from (decimal_from a s) t"
  by (simp_all add: decimal_from_def)

lemma decimal_from_ge: "a \<le> decimal_from a s"
proof (induction s arbitrary: a)
  case Nil
  then show ?case by simp
next
  case (Cons c s)
  have "a \<le> 10 * a + digit_value c" by simp
  also have "\<dots> \<le> decimal_from (10 * a + digit_value c) s" by (rule Cons.IH)
  finally show ?case by simp
qed

lemma digit_value_less: "isDigit c \<Longrightarrow> digit_value c < 10"
  by (auto simp: isDigit_def digit_value_def)

lemma digit_char_props:
  assumes "d < 10"
  shows "isDigit (digit_char d)" "digit_value (digit_char d) = d"
  using assms by (simp_all add: isDigit_def digit_value_def digit_char_def)

lemma formatDecimal_digits: "list_all isDigit (formatDecimal n)"
  by (induction n rule: formatDecimal.induct)
    (subst formatDecimal.simps, auto simp: digit_char_props)

lemma formatDecimal_nonempty [simp]: "formatDecimal n \<noteq> []"
  by (subst formatDecimal.simps) simp

lemma decimal_formatDecimal [simp]: "decimal (formatDecimal n) = n"
proof (induction n rule: formatDecimal.induct)
  case (1 n)
  then show ?case
    by (cases "n < 10") (simp_all add: formatDecimal.simps [of n] digit_char_props)
qed

subsection \<open>ParseUint\<close>

lemma unat_step:
  fixes n :: uint
  assumes "n < parse_cutoff" and "d < 10"
  shows "unat (n * 10) = 10 * unat n"
    and "n * 10 + of_nat d < n * 10 \<longleftrightarrow> 2 ^ 64 \<le> 10 * unat n + d"
    and "10 * unat n + d < 2 ^ 64 \<Longrightarrow> unat (n * 10 + of_nat d) = 10 * unat n + d"
proof -
  have b: "unat n < 1844674407370955162"
    using assms(1) by (simp add: parse_cutoff_def word_less_nat_alt)
  then show m: "unat (n * 10) = 10 * unat n"
    by (simp add: unat_word_ariths)
  have d: "unat (of_nat d :: uint) = d"
    using assms(2) by (simp add: unat_of_nat)
  have s: "unat (n * 10 + of_nat d) = (10 * unat n + d) mod 2 ^ 64"
    by (subst unat_word_ariths) (simp add: m d)
  show "n * 10 + of_nat d < n * 10 \<longleftrightarrow> 2 ^ 64 \<le> 10 * unat n + d"
  proof (cases "2 ^ 64 \<le> 10 * unat n + d")
    case True
    have "10 * unat n + d < 2 * 2 ^ 64" using b assms(2) by simp
    then have "(10 * unat n + d) mod 2 ^ 64 = 10 * unat n + d - 2 ^ 64"
      using True by (simp add: le_mod_geq)
    then show ?thesis
      using True assms(2) b by (simp add: word_less_nat_alt s m)
  next
    case False
    then show ?thesis by (simp add: word_less_nat_alt s m)
  qed
  show "10 * unat n + d < 2 ^ 64 \<Longrightarrow> unat (n * 10 + of_nat d) = 10 * unat n + d"
    by (simp add: s)
qed

lemma parseUint_loop_Inr:
  "parseUint_loop n s = Inr v \<longleftrightarrow>
     list_all isDigit s \<and> decimal_from (unat n) s < 2 ^ 64 \<and> unat v = decimal_from (unat n) s"
proof (induction s arbitrary: n)
  case Nil
  show ?case using unsigned_less [of v] by (auto simp: word_unat_eq_iff)
next
  case (Cons c s)
  let ?d = "digit_value c"
  have ge: "10 * unat n + ?d \<le> decimal_from (10 * unat n + ?d) s" by (rule decimal_from_ge)
  show ?case
  proof (cases "isDigit c")
    case False
    then show ?thesis by simp
  next
    case True
    then have d: "?d < 10" by (rule digit_value_less)
    show ?thesis
    proof (cases "n < parse_cutoff")
      case False
      then have "2 ^ 64 \<le> 10 * unat n + ?d"
        by (simp add: parse_cutoff_def word_less_nat_alt not_less word_le_nat_alt)
      then have "2 ^ 64 \<le> decimal_from (10 * unat n + ?d) s" using ge by linarith
      with False True show ?thesis by (auto simp: Let_def)
    next
      case lt: True
      note u = unat_step [OF lt d]
      have unf: "parseUint_loop n (c # s) =
          (if n * 10 + of_nat ?d < n * 10 then Inl ErrRange
           else parseUint_loop (n * 10 + of_nat ?d) s)"
        using True lt by (auto simp: Let_def not_le)
      show ?thesis
      proof (cases "2 ^ 64 \<le> 10 * unat n + ?d")
        case ov: True
        then have "2 ^ 64 \<le> decimal_from (10 * unat n + ?d) s" using ge by linarith
        with ov True show ?thesis unfolding unf using u(2) by auto
      next
        case ok: False
        then have "unat (n * 10 + of_nat ?d) = 10 * unat n + ?d" using u(3) by simp
        with ok True show ?thesis unfolding unf using u(2) Cons.IH by simp
      qed
    qed
  qed
qed

lemma ParseUint_Inr:
  "ParseUint s = Inr v \<longleftrightarrow>
     s \<noteq> [] \<and> list_all isDigit s \<and> decimal s < 2 ^ 64 \<and> unat v = decimal s"
  using parseUint_loop_Inr [of 0 s v] by (simp add: ParseUint_def)

lemma ParseUint_FormatUint [simp]: "ParseUint (FormatUint n) = Inr n"
  using unsigned_less [of n] by (simp add: ParseUint_Inr FormatUint_def formatDecimal_digits)

lemma FormatUint_nonempty [simp]: "FormatUint n \<noteq> []"
  by (simp add: FormatUint_def)

lemma isDigit_no_eol: "list_all isDigit s \<Longrightarrow> no_eol s"
  by (induction s) (auto simp: isDigit_def)

lemma FormatUint_no_eol [simp]: "no_eol (FormatUint n)"
  by (simp add: FormatUint_def isDigit_no_eol formatDecimal_digits)

subsection \<open>Atoi\<close>

lemma formatDecimal_no_sign:
  "\<not> HasPrefix (formatDecimal n) ''-''" "\<not> HasPrefix (formatDecimal n) ''+''"
  using formatDecimal_digits [of n] formatDecimal_nonempty [of n]
  by (cases "formatDecimal n"; auto simp: isDigit_def)+

lemma ParseUint_formatDecimal: "n < 2 ^ 64 \<Longrightarrow> ParseUint (formatDecimal n) = Inr (of_nat n)"
  by (simp add: ParseUint_Inr formatDecimal_digits unat_of_nat)

lemma Atoi_FormatInt:
  assumes "0 \<le> i" and "i < 2 ^ 63"
  shows "Atoi (FormatInt i) = Inr i"
proof -
  have n: "nat i < 2 ^ 64" using assms by simp
  then have "unat (of_nat (nat i) :: uint) = nat i" by (simp add: unat_of_nat)
  then have "uint (of_nat (nat i) :: uint) = i" using assms(1) by (metis int_nat_eq uint_nat)
  with ParseUint_formatDecimal [OF n] obtain w where
    w: "ParseUint (formatDecimal (nat i)) = Inr w" "uint w = i" by blast
  have "FormatInt i = formatDecimal (nat i)" using assms(1) by (simp add: FormatInt_def)
  then show ?thesis
    using w assms(2) by (simp add: Atoi_def formatDecimal_no_sign Let_def)
qed

end
