(* ===== verification/Events.thy ===== *)
theory Events
  imports Lines Strconv
begin

text \<open>
  The wire format of \<open>event.go\<close>: event identifiers, the \<open>Event\<close> struct, its debug string,
  and the writers \<open>WriteEvent\<close>, \<open>WriteHeartbeat\<close>, \<open>WriteRetry\<close> and \<open>WriteKeyedLines\<close> on an
  \<open>io.Writer\<close> that may fail or accept only a part of what it is given.
\<close>

subsection \<open>Event identifiers\<close>

text \<open>
  \<open>EventID\<close> is an instance of go-branded-id's \<open>ID\<close>, a package outside the repository. It is
  a parameter of the model: the record of the functions the sources call. What they rely on
  is \<open>brandid_ok\<close>: \<open>Get\<close> returns the value given to \<open>NewID\<close>, and \<open>IsZero\<close> tells whether
  that value is the empty string, the value of a zero \<open>ID\<close>.
\<close>

record 'i brandid =
  NewID :: "string \<Rightarrow> 'i"
  GetID :: "'i \<Rightarrow> string"
  IsZero :: "'i \<Rightarrow> bool"
  zeroID :: 'i

definition brandid_ok :: "'i brandid \<Rightarrow> bool" where
  "brandid_ok B \<longleftrightarrow>
     (\<forall>s. GetID B (NewID B s) = s) \<and> (\<forall>i. IsZero B i = (GetID B i = [])) \<and>
     GetID B (zeroID B) = []"

definition NewEventID :: "'i brandid \<Rightarrow> string \<Rightarrow> 'i" where
  "NewEventID B s = NewID B s"

definition errEventIDInvalid :: goerr where
  "errEventIDInvalid = NewRejection ''sse.event_id_invalid''"

definition ParseEventID :: "'i brandid \<Rightarrow> string \<Rightarrow> goerr + 'i" where
  "ParseEventID B s =
     (if ContainsAny s [LF, CR, NUL]
      then Inl (Wrapf errEventIDInvalid Rejection ''sse.event_id_invalid'' [ArgS s])
      else Inr (NewEventID B s))"

definition MustParseEventID :: "'i brandid \<Rightarrow> string \<Rightarrow> 'i outcome" where
  "MustParseEventID B s =
     (case ParseEventID B s of
        Inl err \<Rightarrow> Panic ''sse.event_id_invalid''
      | Inr i \<Rightarrow> Ret i)"

subsection \<open>Events\<close>

record 'i Event =
  ev_Event :: string
  ev_Data :: string
  ev_ID :: 'i
  ev_Retry :: uint

text \<open>\<open>Event.String\<close>, with the builder's length test before every separator.\<close>

definition Event_String :: "'i brandid \<Rightarrow> 'i Event \<Rightarrow> string" where
  "Event_String B e =
     (let b = ''{'';
          b = (if ev_Event e \<noteq> [] then b @ ''event:'' @ ev_Event e else b);
          b = (if \<not> IsZero B (ev_ID e)
               then (if length b > 1 then b @ '' '' else b) @ ''id:'' @ GetID B (ev_ID e) else b);
          b = (if ev_Retry e > 0
               then (if length b > 1 then b @ '' '' else b) @ ''retry:'' @ FormatUint (ev_Retry e)
               else b);
          b = (if ev_Data e \<noteq> []
               then (if length b > 1 then b @ '' '' else b) @ ''data:'' @ ev_Data e else b)
      in b @ ''}'')"

subsection \<open>Writers\<close>

text \<open>
  An \<open>io.Writer\<close>: the bytes it has accepted, and a script of the outcomes of its coming
  \<open>Write\<close> calls, each the number of bytes accepted and an error. Past the end of the script
  every write is accepted. Quantifying over scripts covers every writer that keeps the
  \<open>io.Writer\<close> contract \<open>0 <= n <= len(p)\<close>.
\<close>

record writer =
  wire :: string
  outcomes :: "(nat \<times> goerr option) list"

definition Write :: "writer \<Rightarrow> string \<Rightarrow> nat \<times> goerr option \<times> writer" where
  "Write w buf =
     (case outcomes w of
        [] \<Rightarrow> (length buf, None, w\<lparr>wire := wire w @ buf\<rparr>)
      | (n, e) # os \<Rightarrow>
          (let m = min n (length buf)
           in (m, e, w\<lparr>wire := wire w @ take m buf, outcomes := os\<rparr>)))"

text \<open>The callback \<open>WriteEvent\<close> gives \<open>forEachLine\<close>: append one data line, count it.\<close>

definition appendDataLine :: "string \<Rightarrow> string \<times> nat \<Rightarrow> string \<times> nat" where
  "appendDataLine line = (\<lambda>(buf, dataLines). (buf @ ''data: '' @ line @ [LF], dataLines + 1))"

text \<open>The buffer \<open>WriteEvent\<close> fills, and the number of data lines in it.\<close>

definition eventBuffer :: "'i brandid \<Rightarrow> 'i Event \<Rightarrow> string \<times> nat" where
  "eventBuffer B evt =
     (let buf = [];
          buf = (if ev_Event evt \<noteq> [] then buf @ ''event: '' @ ev_Event evt @ [LF] else buf);
          (buf, dataLines) = forEachLine (ev_Data evt) appendDataLine (buf, 0);
          buf = (if \<not> IsZero B (ev_ID evt) then buf @ ''id: '' @ GetID B (ev_ID evt) @ [LF]
                 else buf);
          buf = (if ev_Retry evt > 0 then buf @ ''retry: '' @ FormatUint (ev_Retry evt) @ [LF]
                 else buf)
      in (buf @ [LF], dataLines))"

definition WriteEvent :: "'i brandid \<Rightarrow> writer \<Rightarrow> 'i Event \<Rightarrow> goerr option \<times> writer" where
  "WriteEvent B w evt =
     (let (buf, dataLines) = eventBuffer B evt;
          (n, err, w') = Write w buf
      in case err of
           Some e \<Rightarrow>
             (Some (Wrapf e Transient ''sse.write_failed''
                [ArgS (ev_Event evt), ArgN (length (ev_Data evt)), ArgN dataLines]), w')
         | None \<Rightarrow>
             (if n \<noteq> length buf
              then (Some (Wrapf ErrShortWrite Transient ''sse.write_short''
                     [ArgS (ev_Event evt), ArgN n, ArgN (length buf)]), w')
              else (None, w')))"

definition heartbeatFrame :: string where
  "heartbeatFrame = '': heartbeat'' @ [LF, LF]"

definition WriteHeartbeat :: "writer \<Rightarrow> goerr option \<times> writer" where
  "WriteHeartbeat w = (let (n, err, w) = Write w heartbeatFrame in (err, w))"

definition WriteRetry :: "writer \<Rightarrow> uint \<Rightarrow> goerr option \<times> writer" where
  "WriteRetry w ms =
     (let (n, err, w) = Write w (''retry: '' @ FormatUint ms @ [LF, LF]) in (err, w))"

definition WriteKeyedLines ::
    "'i brandid \<Rightarrow> writer \<Rightarrow> string \<Rightarrow> string \<Rightarrow> string \<Rightarrow> goerr option \<times> writer" where
  "WriteKeyedLines B w eventType key value =
     WriteEvent B w \<lparr>ev_Event = eventType, ev_Data = KeyedLines key value,
       ev_ID = zeroID B, ev_Retry = 0\<rparr>"

subsection \<open>The frame of an event\<close>

text \<open>
  The reference for the bytes of one event: a list of field lines, each a name, a colon, a
  space and a value, ended by a blank line.
\<close>

definition field_line :: "string \<Rightarrow> string \<Rightarrow> string" where
  "field_line name value = name @ COLON # SP # value"

definition event_lines :: "'i brandid \<Rightarrow> 'i Event \<Rightarrow> string list" where
  "event_lines B e =
     (if ev_Event e = [] then [] else [field_line ''event'' (ev_Event e)]) @
     map (field_line ''data'') (data_lines (ev_Data e)) @
     (if GetID B (ev_ID e) = [] then [] else [field_line ''id'' (GetID B (ev_ID e))]) @
     (if ev_Retry e = 0 then [] else [field_line ''retry'' (FormatUint (ev_Retry e))])"

definition frame_of_lines :: "string list \<Rightarrow> string" where
  "frame_of_lines ls = concat (map (\<lambda>l. l @ [LF]) ls) @ [LF]"

definition event_frame :: "'i brandid \<Rightarrow> 'i Event \<Rightarrow> string" where
  "event_frame B e = frame_of_lines (event_lines B e)"

lemma frame_of_lines_Cons: "frame_of_lines (l # ls) = l @ LF # frame_of_lines ls"
  by (simp add: frame_of_lines_def)

lemma frame_of_lines_Nil: "frame_of_lines [] = [LF]"
  by (simp add: frame_of_lines_def)

lemma fold_appendDataLine:
  "fold appendDataLine ls (b, k) =
     (b @ concat (map (\<lambda>l. field_line ''data'' l @ [LF]) ls), k + length ls)"
  by (induction ls arbitrary: b k) (simp_all add: field_line_def appendDataLine_def)

lemma brandid_okD:
  assumes "brandid_ok B"
  shows "GetID B (NewID B s) = s" "IsZero B i = (GetID B i = [])" "GetID B (zeroID B) = []"
  using assms by (simp_all add: brandid_ok_def)

lemma eventBuffer_frame:
  assumes "brandid_ok B"
  shows "eventBuffer B evt = (event_frame B evt, length (data_lines (ev_Data evt)))"
  using assms
  by (simp add: eventBuffer_def forEachLine_fold fold_appendDataLine brandid_okD Let_def
      event_frame_def frame_of_lines_def event_lines_def field_line_def comp_def
      word_greater_zero_iff)

lemma Write_cases:
  obtains (ok) "outcomes w = []" "Write w buf = (length buf, None, w\<lparr>wire := wire w @ buf\<rparr>)"
  | (scripted) n e os where "outcomes w = (n, e) # os"
      "Write w buf = (min n (length buf), e,
         w\<lparr>wire := wire w @ take n buf, outcomes := os\<rparr>)"
  by (cases "outcomes w") (auto simp: Write_def Let_def min_def)

text \<open>
  C32. \<open>WriteEvent\<close> issues one \<open>Write\<close> with the whole frame of the event and never sends a byte
  twice. A writer that accepts everything gets exactly the frame and the call succeeds. A
  writer that fails leaves the accepted prefix on the wire, and the error wraps its cause
  under code \<open>sse.write_failed\<close>. A writer that accepts only a part without an error is
  reported as an error wrapping \<open>io.ErrShortWrite\<close>.
\<close>

theorem WriteEvent_one_write:
  assumes "brandid_ok B" and "WriteEvent B w evt = (err, w')"
  shows "(outcomes w = [] \<longrightarrow>
            err = None \<and> w' = w\<lparr>wire := wire w @ event_frame B evt\<rparr>) \<and>
         (\<forall>n e os. outcomes w = (n, e) # os \<longrightarrow>
            w' = \<lparr>wire = wire w @ take n (event_frame B evt), outcomes = os\<rparr> \<and>
            (case e of
               Some c \<Rightarrow> (\<exists>args. err = Some (Wrapf c Transient ''sse.write_failed'' args))
             | None \<Rightarrow>
                 if n < length (event_frame B evt)
                 then \<exists>args. err = Some (Wrapf ErrShortWrite Transient ''sse.write_short'' args)
                 else err = None))"
proof (cases rule: Write_cases [of w "event_frame B evt"])
  case ok
  then show ?thesis
    using assms by (simp add: WriteEvent_def eventBuffer_frame)
next
  case (scripted n e os)
  then show ?thesis
    using assms
    by (auto simp: WriteEvent_def eventBuffer_frame min_def not_le not_less
        split: option.splits if_splits)
qed

text \<open>The instance of go-branded-id the witnesses use: an identifier is its string.\<close>

definition string_id :: "string brandid" where
  "string_id = \<lparr>NewID = (\<lambda>s. s), GetID = (\<lambda>s. s), IsZero = (\<lambda>s. s = []), zeroID = []\<rparr>"

lemma string_id_ok [simp]: "brandid_ok string_id"
  by (simp add: brandid_ok_def string_id_def)

lemma string_id_simps [simp]:
  "NewID string_id s = s" "GetID string_id s = s" "IsZero string_id s = (s = [])"
  "zeroID string_id = []"
  by (simp_all add: string_id_def)

abbreviation sample_event :: "string Event" where
  "sample_event \<equiv> \<lparr>ev_Event = ''tick'', ev_Data = ''a'' @ [CR, LF] @ ''b'', ev_ID = ''7'', ev_Retry = 3000\<rparr>"

lemma sample_data_lines: "data_lines (''a'' @ [CR, LF] @ ''b'') = [''a'', ''b'']"
  by (simp add: data_lines_def lines_at_eof_def terminated_def pending_def eol_split.simps)

lemma format_3000: "FormatUint 3000 = ''3000''"
  by code_simp

lemma sample_lines:
  "event_lines string_id sample_event = [''event: tick'', ''data: a'', ''data: b'', ''id: 7'', ''retry: 3000'']"
  using sample_data_lines format_3000 by (simp add: event_lines_def field_line_def)

theorem WriteEvent_one_write_witness:
  "\<exists>args. fst (WriteEvent string_id \<lparr>wire = ''x'', outcomes = [(4, None)]\<rparr> sample_event) =
     Some (Wrapf ErrShortWrite Transient ''sse.write_short'' args) \<and>
   snd (WriteEvent string_id \<lparr>wire = ''x'', outcomes = [(4, None)]\<rparr> sample_event) =
     \<lparr>wire = ''xeven'', outcomes = []\<rparr>"
proof -
  let ?w = "\<lparr>wire = ''x'', outcomes = [(4, None)]\<rparr>"
  have f: "event_frame string_id sample_event = ''event: tick'' @ [LF] @ ''data: a'' @ [LF] @
      ''data: b'' @ [LF] @ ''id: 7'' @ [LF] @ ''retry: 3000'' @ [LF, LF]"
    using sample_lines by (simp add: event_frame_def frame_of_lines_def)
  show ?thesis
    using WriteEvent_one_write [of string_id ?w sample_event
        "fst (WriteEvent string_id ?w sample_event)" "snd (WriteEvent string_id ?w sample_event)"]
    unfolding f by auto
qed

subsection \<open>Identifiers and debug strings\<close>

lemma ContainsAny_event_id: "ContainsAny s [LF, CR, NUL] \<longleftrightarrow> \<not> (no_eol s \<and> NUL \<notin> set s)"
  by (auto simp: ContainsAny_def no_eol_def list_ex_iff)

text \<open>
  \<open>ParseEventID\<close> accepts exactly the strings without NUL, LF and CR, returns an
  identifier whose \<open>Get\<close> is the input, and otherwise an error that matches
  \<open>errEventIDInvalid\<close>; \<open>MustParseEventID\<close> panics on exactly the rejected inputs.
\<close>

lemma ParseEventID_accepts:
  assumes "brandid_ok B"
  shows "(case ParseEventID B s of
            Inr i \<Rightarrow> no_eol s \<and> NUL \<notin> set s \<and> GetID B i = s \<and> MustParseEventID B s = Ret i
          | Inl err \<Rightarrow> \<not> (no_eol s \<and> NUL \<notin> set s) \<and> errorsIs err errEventIDInvalid \<and>
              (\<exists>m. MustParseEventID B s = Panic m))"
  using assms
  by (simp add: ParseEventID_def MustParseEventID_def NewEventID_def ContainsAny_event_id
      errEventIDInvalid_def brandid_okD split: sum.split)

text \<open>
  \<open>Event.String\<close> renders the fields that are set, in the order event, id, retry, data,
  separated by single spaces and enclosed in braces.
\<close>

lemma Event_String_fields:
  assumes "brandid_ok B"
  shows "Event_String B e =
     ''{'' @ Join
       ((if ev_Event e = [] then [] else [''event:'' @ ev_Event e]) @
        (if GetID B (ev_ID e) = [] then [] else [''id:'' @ GetID B (ev_ID e)]) @
        (if ev_Retry e = 0 then [] else [''retry:'' @ FormatUint (ev_Retry e)]) @
        (if ev_Data e = [] then [] else [''data:'' @ ev_Data e])) '' '' @ ''}''"
  using assms by (simp add: Event_String_def Let_def brandid_okD word_greater_zero_iff)

end
