(* ===== verification/Streams.thy ===== *)
theory Streams
  imports Events
begin

text \<open>
  \<open>stream.go\<close>: one connection to one client. The response writer of net/http (headers, status,
  the bytes accepted, what has been flushed, and that a finished response must not be used any
  more), the \<open>Stream\<close> with its mutex-protected operations, and the heartbeat loop running beside
  the handler.
\<close>

subsection \<open>Requests and responses\<close>

type_synonym header = "string \<Rightarrow> string option"

record request =
  rq_header :: header

definition headerGet :: "header \<Rightarrow> string \<Rightarrow> string" where
  "headerGet h key = (case h key of None \<Rightarrow> [] | Some v \<Rightarrow> v)"

text \<open>
  \<open>rw_flusher\<close> tells whether the writer implements \<open>Flush\<close>, \<open>rw_flushed\<close> how many bytes have
  been flushed, \<open>rw_finished\<close> that the handler has returned: using the writer then panics.
\<close>

record respWriter =
  rw_header :: header
  rw_status :: "nat option"
  rw_w :: writer
  rw_flusher :: bool
  rw_flushed :: nat
  rw_finished :: bool

definition headerSet :: "string \<Rightarrow> string \<Rightarrow> respWriter \<Rightarrow> respWriter" where
  "headerSet key v rw = rw\<lparr>rw_header := (rw_header rw)(key := Some v)\<rparr>"

text \<open>\<open>WriteHeader\<close>: only the first status counts.\<close>

definition writeHeader :: "nat \<Rightarrow> respWriter \<Rightarrow> respWriter" where
  "writeHeader code rw = (if rw_status rw = None then rw\<lparr>rw_status := Some code\<rparr> else rw)"

definition flush :: "respWriter \<Rightarrow> unit outcome \<times> respWriter" where
  "flush rw =
     (if rw_finished rw then (Panic ''flush after the handler returned'', rw)
      else (Ret (), rw\<lparr>rw_flushed := length (wire (rw_w rw))\<rparr>))"

text \<open>Running one of the writing functions of \<open>event.go\<close> on the response.\<close>

definition onWriter ::
    "(writer \<Rightarrow> goerr option \<times> writer) \<Rightarrow> respWriter \<Rightarrow> goerr option outcome \<times> respWriter" where
  "onWriter f rw =
     (if rw_finished rw then (Panic ''write after the handler returned'', rw)
      else (case f (rw_w rw) of (err, w) \<Rightarrow> (Ret err, rw\<lparr>rw_w := w\<rparr>)))"

subsection \<open>Streams\<close>

definition ContentType :: string where
  "ContentType = ''text/event-stream''"

definition EventConnected :: string where
  "EventConnected = ''connected''"

definition SetHeaders :: "respWriter \<Rightarrow> respWriter" where
  "SetHeaders rw =
     headerSet ''Connection'' ''keep-alive''
       (headerSet ''Cache-Control'' ''no-cache''
         (headerSet ''Content-Type'' ContentType rw))"

text \<open>
  A stream shares its response writer and request with the handler. A callback is a tag;
  \<open>st_fired\<close> records the ones that have run.
\<close>

record Stream =
  st_w :: respWriter
  st_r :: request
  st_fw :: bool
  st_onDisconnect :: "nat list"
  st_closed :: bool
  st_fired :: "nat list"

definition NewStream :: "respWriter \<Rightarrow> request \<Rightarrow> Stream" where
  "NewStream w r =
     (let w = writeHeader 200 (SetHeaders w)
      in \<lparr>st_w = w, st_r = r, st_fw = rw_flusher w, st_onDisconnect = [], st_closed = False,
          st_fired = []\<rparr>)"

definition streamFlush :: "Stream \<Rightarrow> unit outcome \<times> Stream" where
  "streamFlush s =
     (if st_fw s then (case flush (st_w s) of (r, w) \<Rightarrow> (r, s\<lparr>st_w := w\<rparr>)) else (Ret (), s))"

definition Send :: "'i brandid \<Rightarrow> Stream \<Rightarrow> 'i Event \<Rightarrow> goerr option outcome \<times> Stream" where
  "Send B s event =
     (case onWriter (\<lambda>w. WriteEvent B w event) (st_w s) of
        (Panic m, w) \<Rightarrow> (Panic m, s\<lparr>st_w := w\<rparr>)
      | (Ret (Some err), w) \<Rightarrow>
          (Ret (Some (Wrapf err Transient ''sse.send_failed'' [ArgS (ev_Event event)])), s\<lparr>st_w := w\<rparr>)
      | (Ret None, w) \<Rightarrow>
          (case streamFlush (s\<lparr>st_w := w\<rparr>) of
             (Panic m, s) \<Rightarrow> (Panic m, s)
           | (Ret _, s) \<Rightarrow> (Ret None, s)))"

definition plainEvent :: "'i brandid \<Rightarrow> string \<Rightarrow> string \<Rightarrow> 'i Event" where
  "plainEvent B eventName data =
     \<lparr>ev_Event = eventName, ev_Data = data, ev_ID = zeroID B, ev_Retry = 0\<rparr>"

definition SendData :: "'i brandid \<Rightarrow> Stream \<Rightarrow> string \<Rightarrow> string \<Rightarrow> goerr option outcome \<times> Stream" where
  "SendData B s eventName data = Send B s (plainEvent B eventName data)"

text \<open>\<open>encoding/json\<close> is a parameter: the payload of a value, or an error.\<close>

definition SendJSON ::
    "'i brandid \<Rightarrow> ('v \<Rightarrow> goerr + string) \<Rightarrow> Stream \<Rightarrow> string \<Rightarrow> 'v \<Rightarrow> goerr option outcome \<times> Stream" where
  "SendJSON B marshal s eventName v =
     (case marshal v of
        Inl err \<Rightarrow> (Ret (Some (Wrapf err Rejection ''sse.json_marshal_failed'' [ArgS eventName])), s)
      | Inr payload \<Rightarrow> Send B s (plainEvent B eventName payload))"

definition SendLines :: "'i brandid \<Rightarrow> Stream \<Rightarrow> string \<Rightarrow> string list \<Rightarrow> goerr option outcome \<times> Stream" where
  "SendLines B s eventName lines = Send B s (plainEvent B eventName (JoinLines lines))"

definition SendKeyed ::
    "'i brandid \<Rightarrow> Stream \<Rightarrow> string \<Rightarrow> string \<Rightarrow> string \<Rightarrow> goerr option outcome \<times> Stream" where
  "SendKeyed B s eventName key value = Send B s (plainEvent B eventName (KeyedLines key value))"

definition OnDisconnect :: "nat \<Rightarrow> Stream \<Rightarrow> Stream" where
  "OnDisconnect fn s = s\<lparr>st_onDisconnect := st_onDisconnect s @ [fn]\<rparr>"

definition Stream_Close :: "Stream \<Rightarrow> goerr option outcome \<times> Stream" where
  "Stream_Close s =
     (case streamFlush (s\<lparr>st_closed := True\<rparr>) of
        (Panic m, s) \<Rightarrow> (Panic m, s)
      | (Ret _, s) \<Rightarrow>
          (let callbacks = st_onDisconnect s; s = s\<lparr>st_onDisconnect := []\<rparr>
           in (Ret None, foldl (\<lambda>s fn. s\<lparr>st_fired := st_fired s @ [fn]\<rparr>) s callbacks)))"

definition LastEventIDFromRequest :: "'i brandid \<Rightarrow> request \<Rightarrow> 'i" where
  "LastEventIDFromRequest B r =
     (case ParseEventID B (headerGet (rq_header r) ''Last-Event-ID'') of
        Inl err \<Rightarrow> zeroID B
      | Inr i \<Rightarrow> i)"

definition LastEventID :: "'i brandid \<Rightarrow> Stream \<Rightarrow> 'i" where
  "LastEventID B s = LastEventIDFromRequest B (st_r s)"

subsection \<open>Heartbeat\<close>

text \<open>The tick branch: the result tells whether the loop goes on.\<close>

definition heartbeatTick :: "Stream \<Rightarrow> bool outcome \<times> Stream" where
  "heartbeatTick s =
     (if st_closed s then (Ret False, s)
      else (case onWriter WriteHeartbeat (st_w s) of
          (Panic m, w) \<Rightarrow> (Panic m, s\<lparr>st_w := w\<rparr>)
        | (Ret (Some err), w) \<Rightarrow> (Ret False, s\<lparr>st_w := w\<rparr>)
        | (Ret None, w) \<Rightarrow>
            (case streamFlush (s\<lparr>st_w := w\<rparr>) of
               (Panic m, s) \<Rightarrow> (Panic m, s)
             | (Ret _, s) \<Rightarrow> (Ret True, s))))"

text \<open>
  What the handler's goroutine does while the heartbeat waits: sends, registrations, \<open>Close\<close>,
  and the server finishing the response once the handler has returned. The handler closes
  the stream before it returns (a deferred call), and does not use it afterwards.
\<close>

datatype 'i stream_op = StSend "'i Event" | StOnDisconnect nat | StClose | StFinish

fun run_stream_op :: "'i brandid \<Rightarrow> 'i stream_op \<Rightarrow> Stream \<Rightarrow> Stream" where
  "run_stream_op B (StSend e) s = (if rw_finished (st_w s) then s else snd (Send B s e))"
| "run_stream_op B (StOnDisconnect fn) s = OnDisconnect fn s"
| "run_stream_op B StClose s = (if rw_finished (st_w s) then s else snd (Stream_Close s))"
| "run_stream_op B StFinish s =
     (if st_closed s then s\<lparr>st_w := (st_w s)\<lparr>rw_finished := True\<rparr>\<rparr> else s)"

text \<open>
  The loop: \<open>env k\<close> is what the handler does during the \<open>k\<close>-th wait, and whether the select
  then takes the branch of the context.
\<close>

partial_function (option) Heartbeat ::
    "'i brandid \<Rightarrow> (nat \<Rightarrow> 'i stream_op list \<times> bool) \<Rightarrow> nat \<Rightarrow> Stream \<Rightarrow> (unit outcome \<times> Stream) option" where
  "Heartbeat B env k s =
     (case env k of
        (ops, ctxDone) \<Rightarrow>
          (if ctxDone then Some (Ret (), fold (run_stream_op B) ops s)
           else (case heartbeatTick (fold (run_stream_op B) ops s) of
              (Panic m, s1) \<Rightarrow> Some (Panic m, s1)
            | (Ret again, s1) \<Rightarrow>
                (if again then Heartbeat B env (k + 1) s1 else Some (Ret (), s1)))))"

subsection \<open>Opening, sending, closing\<close>

text \<open>
  \<open>NewStream\<close> sets the three headers an event stream needs, leaves all others alone, sends
  status 200 unless one was sent before, writes no byte of the body, and flushes through the
  response writer exactly when that supports it.
\<close>

lemma NewStream_response:
  "rw_header (st_w (NewStream w r)) = (rw_header w)(''Content-Type'' := Some ''text/event-stream'',
     ''Cache-Control'' := Some ''no-cache'', ''Connection'' := Some ''keep-alive'') \<and>
   rw_status (st_w (NewStream w r)) = (case rw_status w of None \<Rightarrow> Some 200 | Some c \<Rightarrow> Some c) \<and>
   rw_w (st_w (NewStream w r)) = rw_w w \<and> st_fw (NewStream w r) = rw_flusher w \<and>
   \<not> st_closed (NewStream w r) \<and> st_onDisconnect (NewStream w r) = []"
  by (auto simp: NewStream_def SetHeaders_def headerSet_def writeHeader_def ContentType_def Let_def
      split: option.splits)

lemma streamFlush_live:
  "\<not> rw_finished (st_w s) \<Longrightarrow>
   streamFlush s = (Ret (), if st_fw s then s\<lparr>st_w := (st_w s)\<lparr>rw_flushed := length (wire (rw_w (st_w s)))\<rparr>\<rparr> else s)"
  by (simp add: streamFlush_def flush_def)

lemma Send_cases:
  assumes "brandid_ok B" "\<not> rw_finished (st_w s)"
  obtains (sent) s1 where "Send B s evt = (Ret None, s1)" "\<not> rw_finished (st_w s1)"
      "wire (rw_w (st_w s1)) = wire (rw_w (st_w s)) @ event_frame B evt"
  | (failed) e s1 part where "Send B s evt = (Ret (Some e), s1)" "\<not> rw_finished (st_w s1)"
      "wire (rw_w (st_w s1)) = wire (rw_w (st_w s)) @ part"
proof -
  obtain err w where w: "WriteEvent B (rw_w (st_w s)) evt = (err, w)" by force
  obtain part where part: "wire w = wire (rw_w (st_w s)) @ part"
      "err = None \<Longrightarrow> part = event_frame B evt"
    using w
    by (cases rule: Write_cases [of "rw_w (st_w s)" "event_frame B evt"])
      (auto simp: WriteEvent_def eventBuffer_frame [OF assms(1)] split: option.splits if_splits)
  show thesis
  proof (cases err)
    case None
    then show ?thesis
      using sent part w assms(2) by (cases "st_fw s") (simp_all add: Send_def onWriter_def streamFlush_live)
  next
    case (Some e)
    then show ?thesis using failed part w assms(2) by (simp add: Send_def onWriter_def)
  qed
qed

text \<open>
  \<open>Send\<close> on a live response either puts the whole frame of the event on the wire and flushes
  it to the client, or returns an error that wraps the write's error, with nothing flushed
  that was not flushed before. It never panics, and never touches the stream's callbacks or
  its closed flag.
\<close>

lemma Send_writes_and_flushes:
  assumes "brandid_ok B" "\<not> rw_finished (st_w s)" "Send B s evt = (res, s')"
  shows "st_closed s' = st_closed s \<and> st_onDisconnect s' = st_onDisconnect s \<and> st_fired s' = st_fired s \<and>
    (case WriteEvent B (rw_w (st_w s)) evt of
       (None, w') \<Rightarrow> res = Ret None \<and> rw_w (st_w s') = w' \<and>
         wire w' = wire (rw_w (st_w s)) @ event_frame B evt \<and>
         (st_fw s \<longrightarrow> rw_flushed (st_w s') = length (wire w'))
     | (Some err, w') \<Rightarrow> rw_w (st_w s') = w' \<and> rw_flushed (st_w s') = rw_flushed (st_w s) \<and>
         (\<exists>e. res = Ret (Some e) \<and> errorsIs e err))"
proof (cases "WriteEvent B (rw_w (st_w s)) evt")
  case (Pair err w')
  have self: "errorsIs e e" for e by (cases e) simp_all
  have "wire w' = wire (rw_w (st_w s)) @ event_frame B evt" if "err = None"
    using Pair that
    by (cases rule: Write_cases [of "rw_w (st_w s)" "event_frame B evt"])
      (auto simp: WriteEvent_def eventBuffer_frame [OF assms(1)] split: option.splits if_splits)
  then show ?thesis
    using assms(2,3) Pair self
    by (cases err; cases "st_fw s") (auto simp: Send_def onWriter_def streamFlush_live)
qed

lemma fired_fold:
  "foldl (\<lambda>s fn. s\<lparr>st_fired := st_fired s @ [fn]\<rparr>) s fns = s\<lparr>st_fired := st_fired s @ fns\<rparr>"
  by (induction fns arbitrary: s) simp_all

lemma Stream_Close_spec:
  "\<not> rw_finished (st_w s) \<Longrightarrow>
   Stream_Close s = (Ret None,
     (snd (streamFlush (s\<lparr>st_closed := True\<rparr>)))\<lparr>st_onDisconnect := [],
        st_fired := st_fired s @ st_onDisconnect s\<rparr>)"
  by (simp add: Stream_Close_def streamFlush_live fired_fold Let_def)

text \<open>
  C36. \<open>Close\<close> on a live response returns nil, marks the stream closed, flushes everything
  written, and runs the disconnect callbacks once each in the order of registration; a second
  \<open>Close\<close> runs none.
\<close>

theorem Close_fires_callbacks_once:
  assumes "\<not> rw_finished (st_w s)" "Stream_Close s = (res, s')"
  shows "res = Ret None \<and> st_closed s' \<and> st_fired s' = st_fired s @ st_onDisconnect s \<and>
    rw_w (st_w s') = rw_w (st_w s) \<and>
    (st_fw s \<longrightarrow> rw_flushed (st_w s') = length (wire (rw_w (st_w s)))) \<and>
    Stream_Close s' = (Ret None, s')"
  using assms
  by (auto simp: Stream_Close_spec streamFlush_live)

text \<open>
  The reconnection identifier of a request is the value of its \<open>Last-Event-ID\<close> header when
  that is a valid identifier, and otherwise (no header, or a value with NUL, CR or LF) the
  zero identifier; either way it can be sent back as an \<open>id\<close> field without breaking the
  frame.
\<close>

lemma LastEventID_valid:
  assumes "brandid_ok B"
  shows "GetID B (LastEventIDFromRequest B r) =
    (let v = headerGet (rq_header r) ''Last-Event-ID''
     in if no_eol v \<and> NUL \<notin> set v then v else [])"
  using assms
  by (simp add: LastEventIDFromRequest_def ParseEventID_def NewEventID_def ContainsAny_event_id
      brandid_okD Let_def)

subsection \<open>The heartbeat beside the handler\<close>

text \<open>The response is finished only after the stream has been closed.\<close>

definition stream_ok :: "Stream \<Rightarrow> bool" where
  "stream_ok s \<longleftrightarrow> (rw_finished (st_w s) \<longrightarrow> st_closed s)"

lemma Send_keeps:
  "rw_finished (st_w (snd (Send B s e))) = rw_finished (st_w s) \<and> st_closed (snd (Send B s e)) = st_closed s"
  by (auto simp: Send_def onWriter_def streamFlush_def flush_def split: prod.splits option.splits)

lemma run_stream_op_ok: "stream_ok s \<Longrightarrow> stream_ok (run_stream_op B op s)"
  by (cases op) (auto simp: stream_ok_def Send_keeps OnDisconnect_def Stream_Close_spec streamFlush_live)

lemma run_stream_ops_ok: "stream_ok s \<Longrightarrow> stream_ok (fold (run_stream_op B) ops s)"
  by (induction ops arbitrary: s) (simp_all add: run_stream_op_ok)

lemma heartbeatTick_ok:
  assumes "stream_ok s"
  obtains again s' where "heartbeatTick s = (Ret again, s')" "stream_ok s'"
    "st_closed s \<Longrightarrow> \<not> again \<and> s' = s"
proof (cases "st_closed s")
  case True
  then show ?thesis using that [of False s] assms by (simp add: heartbeatTick_def)
next
  case False
  then have live: "\<not> rw_finished (st_w s)" using assms by (simp add: stream_ok_def)
  obtain err w where "WriteHeartbeat (rw_w (st_w s)) = (err, w)" by force
  then show ?thesis
    using that False live
    by (cases err) (auto simp: heartbeatTick_def onWriter_def streamFlush_live stream_ok_def)
qed

text \<open>
  C22. The fire-and-forget heartbeat is safe: whatever the handler does meanwhile, including
  closing the stream and returning so that the server finishes the response, no tick writes
  to or flushes a finished response: the loop never panics.
\<close>

theorem Heartbeat_never_panics:
  assumes "stream_ok s" "Heartbeat B env k s = Some (res, s')"
  shows "res = Ret () \<and> stream_ok s'"
proof -
  let ?P = "\<lambda>B env k s (res, s'). stream_ok s \<longrightarrow> res = Ret () \<and> stream_ok s'"
  have "?P B env k s (res, s')"
  proof (rule Heartbeat.raw_induct [where P = ?P, OF _ assms(2)])
    fix hb :: "'a brandid \<Rightarrow> (nat \<Rightarrow> 'a stream_op list \<times> bool) \<Rightarrow> nat \<Rightarrow> Stream \<Rightarrow> (unit outcome \<times> Stream) option"
      and B env k s y
    assume IH: "\<And>B env k s y. hb B env k s = Some y \<Longrightarrow> ?P B env k s y"
      and eq: "(case env k of (ops, ctxDone) \<Rightarrow>
          (if ctxDone then Some (Ret (), fold (run_stream_op B) ops s)
           else (case heartbeatTick (fold (run_stream_op B) ops s) of
              (Panic m, s1) \<Rightarrow> Some (Panic m, s1)
            | (Ret again, s1) \<Rightarrow>
                (if again then hb B env (k + 1) s1 else Some (Ret (), s1))))) = Some y"
    show "?P B env k s y"
    proof (clarsimp)
      fix res s'
      assume y: "y = (res, s')" and ok: "stream_ok s"
      obtain ops ctxDone where e: "env k = (ops, ctxDone)" by force
      obtain again s1 where t: "heartbeatTick (fold (run_stream_op B) ops s) = (Ret again, s1)" "stream_ok s1"
        using heartbeatTick_ok [OF run_stream_ops_ok [OF ok]] .
      show "res = Ret () \<and> stream_ok s'"
        using eq e t y run_stream_ops_ok [OF ok, of B ops] IH [of B env "k + 1" s1 y]
        by (auto split: if_splits)
    qed
  qed
  then show ?thesis using assms(1) by simp
qed

lemma run_stream_op_closed: "st_closed s \<Longrightarrow> st_closed (run_stream_op B op s)"
  by (cases op) (simp_all add: Send_keeps OnDisconnect_def Stream_Close_spec streamFlush_live)

lemma run_stream_ops_closed: "st_closed s \<Longrightarrow> st_closed (fold (run_stream_op B) ops s)"
  by (induction ops arbitrary: s) (simp_all add: run_stream_op_closed)

lemma StClose_closes: "stream_ok s \<Longrightarrow> st_closed (run_stream_op B StClose s)"
  by (auto simp: stream_ok_def Stream_Close_spec streamFlush_live)

lemma StClose_in_ops: "stream_ok s \<Longrightarrow> StClose \<in> set ops \<Longrightarrow> st_closed (fold (run_stream_op B) ops s)"
proof (induction ops arbitrary: s)
  case (Cons op ops)
  show ?case
  proof (cases "op = StClose")
    case True
    have "st_closed (fold (run_stream_op B) ops (run_stream_op B StClose s))"
      by (intro run_stream_ops_closed StClose_closes Cons.prems(1))
    then show ?thesis using True by (simp only: fold_simps)
  next
    case False
    then show ?thesis using Cons run_stream_op_ok by (metis fold_simps(2) set_ConsD)
  qed
qed simp

lemma Heartbeat_unfold:
  assumes "stream_ok s" "env k = (ops, ctxDone)"
  obtains again s1 where "stream_ok s1"
    "Heartbeat B env k s =
       (if ctxDone then Some (Ret (), fold (run_stream_op B) ops s)
        else if again then Heartbeat B env (k + 1) s1 else Some (Ret (), s1))"
    "st_closed (fold (run_stream_op B) ops s) \<Longrightarrow> \<not> again"
proof (rule heartbeatTick_ok [OF run_stream_ops_ok [OF assms(1), of B ops]])
  fix again s1
  assume "heartbeatTick (fold (run_stream_op B) ops s) = (Ret again, s1)" "stream_ok s1"
    "st_closed (fold (run_stream_op B) ops s) \<Longrightarrow> \<not> again \<and> s1 = fold (run_stream_op B) ops s"
  then show thesis
    using that [of s1 again] assms(2) by (simp add: Heartbeat.simps [of B env k s])
qed

text \<open>
  C23. The heartbeat goroutine ends: when in some round the context is done or the handler closes
  the stream, the loop returns.
\<close>

theorem Heartbeat_returns:
  assumes "stream_ok s" "snd (env (k + n)) \<or> StClose \<in> set (fst (env (k + n)))"
  shows "\<exists>s'. Heartbeat B env k s = Some (Ret (), s')"
  using assms
proof (induction n arbitrary: k s)
  case 0
  obtain ops ctxDone where e: "env k = (ops, ctxDone)" by force
  obtain again s1 where "Heartbeat B env k s =
       (if ctxDone then Some (Ret (), fold (run_stream_op B) ops s)
        else if again then Heartbeat B env (k + 1) s1 else Some (Ret (), s1))"
    "st_closed (fold (run_stream_op B) ops s) \<Longrightarrow> \<not> again"
    using Heartbeat_unfold [where env = env and k = k and B = B, OF 0(1) e] by blast
  then show ?case using 0 e StClose_in_ops [OF 0(1), of ops B] by auto
next
  case (Suc n)
  obtain ops ctxDone where e: "env k = (ops, ctxDone)" by force
  obtain again s1 where "stream_ok s1" "Heartbeat B env k s =
       (if ctxDone then Some (Ret (), fold (run_stream_op B) ops s)
        else if again then Heartbeat B env (k + 1) s1 else Some (Ret (), s1))"
    using Heartbeat_unfold [where env = env and k = k and B = B, OF Suc.prems(1) e] by blast
  then show ?case using Suc.IH [of s1 "k + 1"] Suc.prems(2) by auto
qed

subsection \<open>Witnesses\<close>

definition sample_response :: "(nat \<times> goerr option) list \<Rightarrow> respWriter" where
  "sample_response os =
     \<lparr>rw_header = (\<lambda>_. None), rw_status = None, rw_w = \<lparr>wire = [], outcomes = os\<rparr>, rw_flusher = True,
      rw_flushed = 0, rw_finished = False\<rparr>"

definition sample_request :: request where
  "sample_request = \<lparr>rq_header = (\<lambda>_. None)(''Last-Event-ID'' := Some ''41'')\<rparr>"

definition sample_stream :: "(nat \<times> goerr option) list \<Rightarrow> Stream" where
  "sample_stream os = NewStream (sample_response os) sample_request"

lemmas stream_sample_defs = sample_stream_def sample_response_def sample_request_def NewStream_def
  SetHeaders_def headerSet_def writeHeader_def

lemma sample_stream_live: "\<not> rw_finished (st_w (sample_stream os))" "stream_ok (sample_stream os)"
  by (simp_all add: stream_sample_defs stream_ok_def)

theorem Close_fires_callbacks_once_witness:
  "st_fired (snd (Stream_Close (OnDisconnect 2 (OnDisconnect 1 (sample_stream []))))) = [1, 2]"
  using Close_fires_callbacks_once [of "OnDisconnect 2 (OnDisconnect 1 (sample_stream []))",
      OF _ surjective_pairing]
  by (simp add: stream_sample_defs OnDisconnect_def)

definition sample_heartbeat_env :: "nat \<Rightarrow> string stream_op list \<times> bool" where
  "sample_heartbeat_env k = (if k = 1 then [StSend sample_event, StClose, StFinish] else [], False)"

theorem Heartbeat_returns_witness:
  "\<exists>s'. Heartbeat string_id sample_heartbeat_env 0 (sample_stream []) = Some (Ret (), s')"
  by (rule Heartbeat_returns [OF sample_stream_live(2), of _ 0 1]) (simp add: sample_heartbeat_env_def)

theorem Heartbeat_never_panics_witness:
  "\<exists>s'. Heartbeat string_id (\<lambda>k. ([StClose, StFinish], False)) 0 (sample_stream []) = Some (Ret (), s') \<and>
     stream_ok s'"
proof -
  have "\<exists>r s'. Heartbeat string_id (\<lambda>k. ([StClose, StFinish], False)) 0 (sample_stream []) = Some (r, s')"
    by (subst Heartbeat.simps)
      (simp add: stream_sample_defs Stream_Close_def streamFlush_def flush_def heartbeatTick_def Let_def)
  then show ?thesis using Heartbeat_never_panics [OF sample_stream_live(2)] by blast
qed

end
