(* ===== verification/Channels.thy ===== *)
theory Channels
  imports Prelude
begin

text \<open>
  Buffered Go channels: creation, the non-blocking send of a \<open>select\<close> with a default branch,
  receive, \<open>len\<close> and \<open>close\<close>, with the panics of the language. What a client of such a channel
  relies on is the locale \<open>bounded_queue\<close>.
\<close>

record 'a chan =
  ch_cap :: nat
  ch_buf :: "'a list"
  ch_closed :: bool

definition makeChan :: "nat \<Rightarrow> 'a chan" where
  "makeChan n = \<lparr>ch_cap = n, ch_buf = [], ch_closed = False\<rparr>"

text \<open>
  \<open>select { case ch <- msg: default: }\<close>: the first component tells whether the message was sent.
  Sending on a closed channel panics.
\<close>

definition trySend :: "'a \<Rightarrow> 'a chan \<Rightarrow> bool outcome \<times> 'a chan" where
  "trySend msg ch =
     (if ch_closed ch then (Panic ''send on closed channel'', ch)
      else if length (ch_buf ch) < ch_cap ch then (Ret True, ch\<lparr>ch_buf := ch_buf ch @ [msg]\<rparr>)
      else (Ret False, ch))"

definition closeChan :: "'a chan \<Rightarrow> unit outcome \<times> 'a chan" where
  "closeChan ch =
     (if ch_closed ch then (Panic ''close of closed channel'', ch)
      else (Ret (), ch\<lparr>ch_closed := True\<rparr>))"

text \<open>\<open>v, ok := <-ch\<close>: \<open>None\<close> when the receiver waits, \<open>Some None\<close> when the channel is closed and empty.\<close>

definition recvChan :: "'a chan \<Rightarrow> ('a option \<times> 'a chan) option" where
  "recvChan ch = (case ch_buf ch of
     m # ms \<Rightarrow> Some (Some m, ch\<lparr>ch_buf := ms\<rparr>)
   | [] \<Rightarrow> if ch_closed ch then Some (None, ch) else None)"

definition lenChan :: "'a chan \<Rightarrow> nat" where
  "lenChan ch = length (ch_buf ch)"

text \<open>The channel after the send was tried.\<close>

definition offer :: "'a \<Rightarrow> 'a chan \<Rightarrow> 'a chan" where
  "offer msg ch = snd (trySend msg ch)"

subsection \<open>The contract\<close>

text \<open>
  A queue of bounded capacity that refuses what does not fit: what it holds, how many elements
  it may hold, and whether it takes any at all.
\<close>

locale bounded_queue =
  fixes push :: "'a \<Rightarrow> 'q \<Rightarrow> 'q"
    and contents :: "'q \<Rightarrow> 'a list"
    and capacity :: "'q \<Rightarrow> nat"
    and opened :: "'q \<Rightarrow> bool"
  assumes push_contents: "opened q \<Longrightarrow>
      contents (push m q) = (if length (contents q) < capacity q then contents q @ [m] else contents q)"
    and push_capacity [simp]: "capacity (push m q) = capacity q"
    and push_opened [simp]: "opened (push m q) = opened q"
begin

lemma push_all_capacity [simp]: "capacity (fold push ms q) = capacity q"
  by (induction ms arbitrary: q) simp_all

lemma push_all_opened [simp]: "opened (fold push ms q) = opened q"
  by (induction ms arbitrary: q) simp_all

lemma push_all_contents:
  "opened q \<Longrightarrow> length (contents q) \<le> capacity q \<Longrightarrow>
   contents (fold push ms q) = take (capacity q) (contents q @ ms)"
proof (induction ms arbitrary: q)
  case (Cons m ms)
  show ?case
  proof (cases "length (contents q) < capacity q")
    case True
    then show ?thesis using Cons by (simp add: push_contents take_Cons')
  next
    case False
    then show ?thesis using Cons by (simp add: push_contents)
  qed
qed simp

end

interpretation chanq: bounded_queue offer ch_buf ch_cap "\<lambda>ch. \<not> ch_closed ch"
  by unfold_locales (auto simp: offer_def trySend_def)

lemma offer_closed: "ch_closed (offer m ch) = ch_closed ch"
  by (simp add: offer_def trySend_def)

lemma trySend_open:
  "\<not> ch_closed ch \<Longrightarrow> trySend m ch = (Ret (length (ch_buf ch) < ch_cap ch), offer m ch)"
  by (simp add: offer_def trySend_def)

lemma closeChan_open: "\<not> ch_closed ch \<Longrightarrow> closeChan ch = (Ret (), ch\<lparr>ch_closed := True\<rparr>)"
  by (simp add: closeChan_def)

end
