(* ===== verification/FanOut.thy ===== *)
theory FanOut
  imports Channels "HOL-Library.Multiset"
begin

text \<open>
  The subscriber hub of \<open>fanout.go\<close> and \<open>broadcaster.go\<close>: subscriptions with predicates, the
  non-blocking fan-out, \<open>Close\<close>, \<open>Shutdown\<close> with its drain loop, \<open>Health\<close>, and the callbacks.
  Channels live in an explicit heap and are identified by their address (\<open>channelPtr\<close>).
\<close>

subsection \<open>State\<close>

text \<open>
  A predicate of the caller: \<open>None\<close> is a call that panics. A callback is a tag, recorded with
  each call, and the calls on which it panics.
\<close>

type_synonym 'a pred_fn = "'a \<Rightarrow> bool option"

record 'a callback =
  cb_tag :: nat
  cb_panics :: "'a \<Rightarrow> bool"

datatype 'a hub_call = CallSubscribe nat | CallUnsubscribe nat | CallDrop nat 'a

record 'a subscriber =
  sub_ch :: nat
  sub_pred :: "'a pred_fn option"

text \<open>The subscriber map: \<open>None\<close> is the nil map of a closed hub. Its keys are channel addresses.\<close>

record 'a fanOut =
  subscribers :: "(nat \<times> 'a subscriber) list option"
  bufferSize :: int
  draining :: bool
  onSubscribe :: "unit callback option"
  onUnsubscribe :: "unit callback option"
  onDrop :: "'a callback option"

text \<open>The hub, the heap of channels with the next free address, and the callbacks run so far.\<close>

record 'a world =
  hub :: "'a fanOut"
  heap :: "nat \<Rightarrow> 'a chan"
  nxt :: nat
  calls :: "'a hub_call list"

text \<open>
  A map is iterated in an order Go leaves open: a parameter that permutes its entries. Every
  operation that ranges over the map takes one.
\<close>

type_synonym 'a order = "(nat \<times> 'a subscriber) list \<Rightarrow> (nat \<times> 'a subscriber) list"

definition order_ok :: "'a order \<Rightarrow> bool" where
  "order_ok ord \<longleftrightarrow> (\<forall>xs. mset (ord xs) = mset xs)"

subsection \<open>Construction\<close>

type_synonym 'a Option = "'a fanOut \<Rightarrow> 'a fanOut"

definition DefaultSubscriberBuffer :: int where
  "DefaultSubscriberBuffer = 64"

definition WithBufferSize :: "int \<Rightarrow> 'a Option" where
  "WithBufferSize sz f = (if sz > 0 then f\<lparr>bufferSize := sz\<rparr> else f)"

definition WithOnDrop :: "'a callback option \<Rightarrow> 'a Option" where
  "WithOnDrop fn f = f\<lparr>onDrop := fn\<rparr>"

definition newFanOut :: "'a Option list \<Rightarrow> 'a fanOut" where
  "newFanOut opts =
     foldl (\<lambda>f opt. opt f)
       \<lparr>subscribers = Some [], bufferSize = 0, draining = False, onSubscribe = None,
        onUnsubscribe = None, onDrop = None\<rparr> opts"

text \<open>\<open>Broadcaster\<close> embeds a hub and has no field of its own.\<close>

type_synonym 'a Broadcaster = "'a fanOut"

definition NewBroadcaster :: "'a Option list \<Rightarrow> 'a Broadcaster" where
  "NewBroadcaster opts = newFanOut opts"

definition effectiveBufferSize :: "'a fanOut \<Rightarrow> int" where
  "effectiveBufferSize f =
     (if bufferSize f > 0 then bufferSize f else DefaultSubscriberBuffer)"

subsection \<open>Subscribing\<close>

definition lookupSub :: "nat \<Rightarrow> 'a fanOut \<Rightarrow> 'a subscriber option" where
  "lookupSub key f = (case subscribers f of None \<Rightarrow> None | Some m \<Rightarrow> map_of m key)"

definition deleteSub :: "nat \<Rightarrow> 'a fanOut \<Rightarrow> 'a fanOut" where
  "deleteSub key f =
     f\<lparr>subscribers := map_option (filter (\<lambda>(k, s). k \<noteq> key)) (subscribers f)\<rparr>"

definition closeAt :: "nat \<Rightarrow> 'a world \<Rightarrow> unit outcome \<times> 'a world" where
  "closeAt a w = (case closeChan (heap w a) of
     (r, ch) \<Rightarrow> (r, w\<lparr>heap := (heap w)(a := ch)\<rparr>))"

text \<open>Running a callback outside the lock: its panic is the caller's.\<close>

definition runCallback :: "(nat \<Rightarrow> 'a hub_call) \<Rightarrow> unit callback option \<Rightarrow> 'a world \<Rightarrow> unit outcome \<times> 'a world" where
  "runCallback call cb w = (case cb of
     None \<Rightarrow> (Ret (), w)
   | Some c \<Rightarrow>
       (if cb_panics c () then Panic ''callback'' else Ret (),
        w\<lparr>calls := calls w @ [call (cb_tag c)]\<rparr>))"

definition SubscribeFilter :: "'a pred_fn option \<Rightarrow> 'a world \<Rightarrow> nat outcome \<times> 'a world" where
  "SubscribeFilter pred w =
     (let a = nxt w;
          w = w\<lparr>heap := (heap w)(a := makeChan (nat (effectiveBufferSize (hub w)))), nxt := a + 1\<rparr>
      in if subscribers (hub w) = None \<or> draining (hub w) then
           (case closeAt a w of
              (Panic m, w) \<Rightarrow> (Panic m, w)
            | (Ret _, w) \<Rightarrow> (Ret a, w))
         else
           let w = w\<lparr>hub := (hub w)\<lparr>subscribers :=
                 map_option (\<lambda>m. m @ [(a, \<lparr>sub_ch = a, sub_pred = pred\<rparr>)]) (subscribers (hub w))\<rparr>\<rparr>
           in case runCallback CallSubscribe (onSubscribe (hub w)) w of
                (Panic m, w) \<Rightarrow> (Panic m, w)
              | (Ret _, w) \<Rightarrow> (Ret a, w))"

definition Subscribe :: "'a world \<Rightarrow> nat outcome \<times> 'a world" where
  "Subscribe w = SubscribeFilter None w"

definition Unsubscribe :: "nat \<Rightarrow> 'a world \<Rightarrow> unit outcome \<times> 'a world" where
  "Unsubscribe ch w =
     (case lookupSub ch (hub w) of
        Some sub \<Rightarrow>
          (case closeAt (sub_ch sub) (w\<lparr>hub := deleteSub ch (hub w)\<rparr>) of
             (Panic m, w) \<Rightarrow> (Panic m, w)
           | (Ret _, w) \<Rightarrow> runCallback CallUnsubscribe (onUnsubscribe (hub w)) w)
      | None \<Rightarrow> (Ret (), w))"

subsection \<open>Broadcasting\<close>

definition safePredCall :: "'a pred_fn \<Rightarrow> 'a \<Rightarrow> bool" where
  "safePredCall pred msg = (case pred msg of None \<Rightarrow> False | Some match \<Rightarrow> match)"

definition safeDropCall :: "'a callback \<Rightarrow> 'a \<Rightarrow> 'a world \<Rightarrow> 'a world" where
  "safeDropCall fn msg w = w\<lparr>calls := calls w @ [CallDrop (cb_tag fn) msg]\<rparr>"

text \<open>One round of the loop of \<open>sendAllLocked\<close>.\<close>

definition sendOne :: "'a \<Rightarrow> 'a subscriber \<Rightarrow> 'a world \<Rightarrow> unit outcome \<times> 'a world" where
  "sendOne msg sub w =
     (if (case sub_pred sub of None \<Rightarrow> False | Some pred \<Rightarrow> \<not> safePredCall pred msg) then (Ret (), w)
      else (case trySend msg (heap w (sub_ch sub)) of
          (Panic m, ch) \<Rightarrow> (Panic m, w)
        | (Ret True, ch) \<Rightarrow> (Ret (), w\<lparr>heap := (heap w)(sub_ch sub := ch)\<rparr>)
        | (Ret False, ch) \<Rightarrow>
            (Ret (), (case onDrop (hub w) of None \<Rightarrow> w | Some fn \<Rightarrow> safeDropCall fn msg w))))"

fun sendAll :: "'a \<Rightarrow> (nat \<times> 'a subscriber) list \<Rightarrow> 'a world \<Rightarrow> unit outcome \<times> 'a world" where
  "sendAll msg [] w = (Ret (), w)"
| "sendAll msg ((k, sub) # subs) w =
     (case sendOne msg sub w of
        (Panic m, w) \<Rightarrow> (Panic m, w)
      | (Ret _, w) \<Rightarrow> sendAll msg subs w)"

definition sendAllLocked :: "'a order \<Rightarrow> 'a \<Rightarrow> 'a world \<Rightarrow> unit outcome \<times> 'a world" where
  "sendAllLocked ord msg w =
     (case subscribers (hub w) of None \<Rightarrow> (Ret (), w) | Some m \<Rightarrow> sendAll msg (ord m) w)"

definition Broadcast :: "'a order \<Rightarrow> 'a \<Rightarrow> 'a world \<Rightarrow> unit outcome \<times> 'a world" where
  "Broadcast ord msg w = sendAllLocked ord msg w"

text \<open>Each message of a batch ranges over the map anew: one order per message.\<close>

fun BroadcastMany :: "(nat \<Rightarrow> 'a order) \<Rightarrow> 'a list \<Rightarrow> 'a world \<Rightarrow> unit outcome \<times> 'a world" where
  "BroadcastMany ords [] w = (Ret (), w)"
| "BroadcastMany ords (msg # msgs) w =
     (case sendAllLocked (ords 0) msg w of
        (Panic m, w) \<Rightarrow> (Panic m, w)
      | (Ret _, w) \<Rightarrow> BroadcastMany (\<lambda>i. ords (i + 1)) msgs w)"

subsection \<open>Closing\<close>

definition SubscriberCount :: "'a fanOut \<Rightarrow> nat" where
  "SubscriberCount f = (case subscribers f of None \<Rightarrow> 0 | Some m \<Rightarrow> length m)"

fun closeEach :: "(nat \<times> 'a subscriber) list \<Rightarrow> 'a world \<Rightarrow> unit outcome \<times> 'a world" where
  "closeEach [] w = (Ret (), w)"
| "closeEach ((key, sub) # subs) w =
     (case closeAt (sub_ch sub) (w\<lparr>hub := deleteSub key (hub w)\<rparr>) of
        (Panic m, w) \<Rightarrow> (Panic m, w)
      | (Ret _, w) \<Rightarrow> closeEach subs w)"

definition closeLocked :: "'a order \<Rightarrow> 'a world \<Rightarrow> unit outcome \<times> 'a world" where
  "closeLocked ord w =
     (case closeEach (case subscribers (hub w) of None \<Rightarrow> [] | Some m \<Rightarrow> ord m) w of
        (Panic m, w) \<Rightarrow> (Panic m, w)
      | (Ret _, w) \<Rightarrow> (Ret (), w\<lparr>hub := (hub w)\<lparr>subscribers := None\<rparr>\<rparr>))"

definition Close :: "'a order \<Rightarrow> 'a world \<Rightarrow> unit outcome \<times> 'a world" where
  "Close ord w = closeLocked ord w"

subsection \<open>Health and setters\<close>

record BroadcasterHealth =
  Closed :: bool
  Draining :: bool
  h_SubscriberCount :: nat
  h_BufferSize :: int

definition Health :: "'a fanOut \<Rightarrow> BroadcasterHealth" where
  "Health f =
     \<lparr>Closed = (subscribers f = None), Draining = draining f,
      h_SubscriberCount = SubscriberCount f, h_BufferSize = effectiveBufferSize f\<rparr>"

definition OnSubscribe :: "unit callback option \<Rightarrow> 'a world \<Rightarrow> 'a world" where
  "OnSubscribe fn w = w\<lparr>hub := (hub w)\<lparr>onSubscribe := fn\<rparr>\<rparr>"

definition OnUnsubscribe :: "unit callback option \<Rightarrow> 'a world \<Rightarrow> 'a world" where
  "OnUnsubscribe fn w = w\<lparr>hub := (hub w)\<lparr>onUnsubscribe := fn\<rparr>\<rparr>"

definition OnDrop :: "'a callback option \<Rightarrow> 'a world \<Rightarrow> 'a world" where
  "OnDrop fn w = w\<lparr>hub := (hub w)\<lparr>onDrop := fn\<rparr>\<rparr>"

subsection \<open>What other goroutines do\<close>

definition recvAt :: "nat \<Rightarrow> 'a world \<Rightarrow> ('a option \<times> 'a world) option" where
  "recvAt a w = map_option (\<lambda>(v, ch). (v, w\<lparr>heap := (heap w)(a := ch)\<rparr>)) (recvChan (heap w a))"

text \<open>
  One call on the hub, or one receive by a consumer, as data: a run of several goroutines is
  a sequence of these. A receive on an empty open channel waits and changes nothing.
\<close>

datatype 'a hub_op =
    OpSubscribe "'a pred_fn option"
  | OpUnsubscribe nat
  | OpBroadcast "'a order" 'a
  | OpRecv nat
  | OpClose "'a order"
  | OpOnSubscribe "unit callback option"
  | OpOnUnsubscribe "unit callback option"
  | OpOnDrop "'a callback option"

fun run_op :: "'a hub_op \<Rightarrow> 'a world \<Rightarrow> 'a world" where
  "run_op (OpSubscribe pred) w = snd (SubscribeFilter pred w)"
| "run_op (OpUnsubscribe a) w = snd (Unsubscribe a w)"
| "run_op (OpBroadcast ord msg) w = snd (Broadcast ord msg w)"
| "run_op (OpRecv a) w = (case recvAt a w of None \<Rightarrow> w | Some (v, w') \<Rightarrow> w')"
| "run_op (OpClose ord) w = snd (Close ord w)"
| "run_op (OpOnSubscribe fn) w = OnSubscribe fn w"
| "run_op (OpOnUnsubscribe fn) w = OnUnsubscribe fn w"
| "run_op (OpOnDrop fn) w = OnDrop fn w"

definition run_ops :: "'a hub_op list \<Rightarrow> 'a world \<Rightarrow> 'a world" where
  "run_ops ops w = fold run_op ops w"

fun op_ok :: "'a hub_op \<Rightarrow> bool" where
  "op_ok (OpBroadcast ord msg) = order_ok ord"
| "op_ok (OpClose ord) = order_ok ord"
| "op_ok op = True"

subsection \<open>Shutdown\<close>

text \<open>The first critical section: \<open>None\<close> when the hub is closed, else the snapshot.\<close>

definition shutdownBegin :: "'a order \<Rightarrow> 'a world \<Rightarrow> 'a subscriber list option \<times> 'a world" where
  "shutdownBegin ord w =
     (case subscribers (hub w) of
        None \<Rightarrow> (None, w)
      | Some m \<Rightarrow> (Some (map snd (ord m)), w\<lparr>hub := (hub w)\<lparr>draining := True\<rparr>\<rparr>))"

definition notDrained :: "'a subscriber list \<Rightarrow> 'a world \<Rightarrow> nat" where
  "notDrained subs w = length (filter (\<lambda>sub. lenChan (heap w (sub_ch sub)) > 0) subs)"

definition drainError :: "goerr \<Rightarrow> nat \<Rightarrow> nat \<Rightarrow> goerr" where
  [go_errors]: "drainError ctxErr n tot =
     Wrapf ctxErr Transient ''sse.shutdown_drain_deadline_exceeded'' [ArgN n, ArgN tot]"

text \<open>
  The drain loop. \<open>env k\<close> is what happens while the \<open>k\<close>-th \<open>select\<close> waits: the calls of other
  goroutines, and the context's error when the select takes that branch. \<open>None\<close> is a loop that
  runs forever.
\<close>

type_synonym 'a env = "nat \<Rightarrow> 'a hub_op list \<times> goerr option"

partial_function (option) waitForDrain ::
    "'a env \<Rightarrow> nat \<Rightarrow> 'a subscriber list \<Rightarrow> 'a world \<Rightarrow> (goerr option \<times> 'a world) option" where
  "waitForDrain env k subs w =
     (if notDrained subs w = 0 then Some (None, w)
      else (case env k of
          (ops, Some ctxErr) \<Rightarrow>
            Some (Some (drainError ctxErr (notDrained subs w) (length subs)), run_ops ops w)
        | (ops, None) \<Rightarrow> waitForDrain env (k + 1) subs (run_ops ops w)))"

text \<open>The second critical section: close what is still tracked, then mark the hub closed.\<close>

fun closeTracked :: "'a subscriber list \<Rightarrow> 'a world \<Rightarrow> unit outcome \<times> 'a world" where
  "closeTracked [] w = (Ret (), w)"
| "closeTracked (sub # subs) w =
     (if lookupSub (sub_ch sub) (hub w) \<noteq> None then
        (case closeAt (sub_ch sub) (w\<lparr>hub := deleteSub (sub_ch sub) (hub w)\<rparr>) of
           (Panic m, w) \<Rightarrow> (Panic m, w)
         | (Ret _, w) \<Rightarrow> closeTracked subs w)
      else closeTracked subs w)"

definition shutdownFinish :: "'a subscriber list \<Rightarrow> 'a world \<Rightarrow> unit outcome \<times> 'a world" where
  "shutdownFinish subs w =
     (case closeTracked subs w of
        (Panic m, w) \<Rightarrow> (Panic m, w)
      | (Ret _, w) \<Rightarrow> (Ret (), w\<lparr>hub := (hub w)\<lparr>subscribers := None, draining := False\<rparr>\<rparr>))"

definition Shutdown :: "'a order \<Rightarrow> 'a env \<Rightarrow> 'a world \<Rightarrow> (goerr option outcome \<times> 'a world) option" where
  "Shutdown ord env w =
     (case shutdownBegin ord w of
        (None, w) \<Rightarrow> Some (Ret None, w)
      | (Some subs, w) \<Rightarrow>
          Option.bind (waitForDrain env 0 subs w)
            (\<lambda>(err, w). case err of
               Some e \<Rightarrow>
                 Some (Ret (Some (Wrapf e Transient ''sse.shutdown_failed'' [ArgN (length subs)])), w)
             | None \<Rightarrow>
                 (case shutdownFinish subs w of
                    (Panic m, w) \<Rightarrow> Some (Panic m, w)
                  | (Ret _, w) \<Rightarrow> Some (Ret None, w))))"

text \<open>The methods \<open>Broadcaster\<close> declares itself; the others are promoted from the hub.\<close>

definition Broadcaster_BroadcastMany ::
    "(nat \<Rightarrow> 'a order) \<Rightarrow> 'a list \<Rightarrow> 'a world \<Rightarrow> unit outcome \<times> 'a world" where
  "Broadcaster_BroadcastMany ords msgs w = BroadcastMany ords msgs w"

definition Broadcaster_Shutdown ::
    "'a order \<Rightarrow> 'a env \<Rightarrow> 'a world \<Rightarrow> (goerr option outcome \<times> 'a world) option" where
  "Broadcaster_Shutdown ord env w = Shutdown ord env w"

definition Broadcaster_Health :: "'a Broadcaster \<Rightarrow> BroadcasterHealth" where
  "Broadcaster_Health b = Health b"

text \<open>A program start: a hub and no channels.\<close>

definition initWorld :: "'a Option list \<Rightarrow> 'a world" where
  "initWorld opts =
     \<lparr>hub = NewBroadcaster opts, heap = (\<lambda>a. makeChan 0), nxt = 0, calls = []\<rparr>"

subsection \<open>Invariant\<close>

text \<open>
  Every tracked channel is allocated, open, registered under its own address and once only;
  no buffer holds more than its capacity.
\<close>

definition tracked_ok :: "'a world \<Rightarrow> nat \<times> 'a subscriber \<Rightarrow> bool" where
  "tracked_ok w = (\<lambda>(k, s). sub_ch s = k \<and> k < nxt w \<and> \<not> ch_closed (heap w k))"

definition subs_of :: "'a world \<Rightarrow> (nat \<times> 'a subscriber) list" where
  "subs_of w = (case subscribers (hub w) of None \<Rightarrow> [] | Some m \<Rightarrow> m)"

definition world_ok :: "'a world \<Rightarrow> bool" where
  "world_ok w \<longleftrightarrow>
     distinct (map fst (subs_of w)) \<and> list_all (tracked_ok w) (subs_of w) \<and>
     (\<forall>a < nxt w. length (ch_buf (heap w a)) \<le> ch_cap (heap w a))"

lemma world_okD:
  assumes "world_ok w"
  shows "distinct (map fst (subs_of w))"
    and "(k, s) \<in> set (subs_of w) \<Longrightarrow> sub_ch s = k \<and> k < nxt w \<and> \<not> ch_closed (heap w k)"
    and "a < nxt w \<Longrightarrow> length (ch_buf (heap w a)) \<le> ch_cap (heap w a)"
  using assms by (auto simp: world_ok_def tracked_ok_def list_all_iff)

lemma subs_of_simps [simp]:
  "subs_of (w\<lparr>heap := h\<rparr>) = subs_of w"
  "subs_of (w\<lparr>nxt := n\<rparr>) = subs_of w"
  "subs_of (w\<lparr>calls := cs\<rparr>) = subs_of w"
  by (simp_all add: subs_of_def)

text \<open>An order permutes the map: the same entries, each key once.\<close>

lemma order_okD:
  assumes "order_ok ord"
  shows "set (ord m) = set m" "distinct (map fst (ord m)) = distinct (map fst m)"
proof -
  have m: "mset (ord m) = mset m" using assms by (simp add: order_ok_def)
  then show "set (ord m) = set m" by (metis set_mset_mset)
  have "mset (map fst (ord m)) = mset (map fst m)" using m by simp
  then show "distinct (map fst (ord m)) = distinct (map fst m)" by (metis mset_eq_imp_distinct_iff)
qed

lemma order_ok_map_of:
  assumes "order_ok ord" "distinct (map fst m)"
  shows "map_of (ord m) = map_of m"
  using assms order_okD [OF assms(1), of m] by (metis map_of_eqI map_of_inject_set)

lemma order_ok_filter:
  assumes "order_ok ord"
  shows "length (filter P (ord m)) = length (filter P m)"
  using assms by (metis mset_filter order_ok_def size_mset)

subsection \<open>A sample\<close>

text \<open>
  A hub with buffers of two messages and a panicking drop callback, a subscriber for even
  numbers whose predicate panics on seven, and one for all numbers; one message is waiting
  for each.
\<close>

definition sample_pred :: "nat pred_fn" where
  "sample_pred n = (if n = 7 then None else Some (even n))"

definition sample_chan :: "nat chan" where
  "sample_chan = \<lparr>ch_cap = 2, ch_buf = [4], ch_closed = False\<rparr>"

definition sample_world :: "nat world" where
  "sample_world =
     \<lparr>hub = \<lparr>subscribers = Some [(0, \<lparr>sub_ch = 0, sub_pred = Some sample_pred\<rparr>),
          (1, \<lparr>sub_ch = 1, sub_pred = None\<rparr>)],
        bufferSize = 2, draining = False, onSubscribe = None,
        onUnsubscribe = Some \<lparr>cb_tag = 5, cb_panics = (\<lambda>_. False)\<rparr>,
        onDrop = Some \<lparr>cb_tag = 9, cb_panics = (\<lambda>_. True)\<rparr>\<rparr>,
      heap = (\<lambda>a. if a \<le> 1 then sample_chan else makeChan 0), nxt = 2, calls = []\<rparr>"

lemmas sample_defs = sample_world_def sample_chan_def sample_pred_def subs_of_def

lemma sample_world_ok: "world_ok sample_world"
  by (auto simp: sample_defs world_ok_def tracked_ok_def less_Suc_eq numeral_2_eq_2)

lemma order_ok_samples: "order_ok rev" "order_ok (\<lambda>xs. xs)"
  by (simp_all add: order_ok_def)

subsection \<open>Broadcast as an update of all mailboxes\<close>

definition accepts :: "'a subscriber \<Rightarrow> 'a \<Rightarrow> bool" where
  "accepts s msg \<longleftrightarrow> (case sub_pred s of None \<Rightarrow> True | Some pred \<Rightarrow> pred msg = Some True)"

text \<open>The reference: every subscriber that accepts the message is offered it, at once.\<close>

definition deliver :: "'a \<Rightarrow> (nat \<times> 'a subscriber) list \<Rightarrow> (nat \<Rightarrow> 'a chan) \<Rightarrow> nat \<Rightarrow> 'a chan" where
  "deliver msg m h a = (case map_of m a of
     None \<Rightarrow> h a
   | Some s \<Rightarrow> if accepts s msg then offer msg (h a) else h a)"

definition full_for :: "'a \<Rightarrow> (nat \<Rightarrow> 'a chan) \<Rightarrow> nat \<times> 'a subscriber \<Rightarrow> bool" where
  "full_for msg h = (\<lambda>(k, s). accepts s msg \<and> ch_cap (h k) \<le> length (ch_buf (h k)))"

definition drop_calls :: "'a fanOut \<Rightarrow> 'a \<Rightarrow> nat \<Rightarrow> 'a hub_call list" where
  "drop_calls f msg n = (case onDrop f of None \<Rightarrow> [] | Some fn \<Rightarrow> replicate n (CallDrop (cb_tag fn) msg))"

lemma drop_calls_simps [simp]: "drop_calls f msg 0 = []"
  "drop_calls f msg a @ drop_calls f msg b = drop_calls f msg (a + b)"
  by (auto simp: drop_calls_def replicate_add split: option.splits)

lemma sendOne_spec:
  assumes "sub_ch s = k" "\<not> ch_closed (heap w k)"
  shows "sendOne msg s w = (Ret (),
    w\<lparr>heap := (heap w)(k := if accepts s msg then offer msg (heap w k) else heap w k),
      calls := calls w @ drop_calls (hub w) msg (if full_for msg (heap w) (k, s) then 1 else 0)\<rparr>)"
proof (cases "accepts s msg")
  case False
  then show ?thesis
    by (auto simp: sendOne_def accepts_def full_for_def safePredCall_def split: option.splits)
next
  case True
  then have "\<not> (case sub_pred s of None \<Rightarrow> False | Some pred \<Rightarrow> \<not> safePredCall pred msg)"
    by (auto simp: accepts_def safePredCall_def split: option.splits)
  moreover have "offer msg (heap w k) = heap w k" if "ch_cap (heap w k) \<le> length (ch_buf (heap w k))"
    using that by (simp add: offer_def trySend_def)
  ultimately show ?thesis
    using assms True
    by (cases "length (ch_buf (heap w k)) < ch_cap (heap w k)")
      (auto simp: sendOne_def trySend_open full_for_def safeDropCall_def drop_calls_def
        split: option.splits)
qed

lemma deliver_other: "a \<notin> fst ` set m \<Longrightarrow> deliver msg m h a = h a"
  by (auto simp: deliver_def split: option.splits dest: map_of_SomeD intro: rev_image_eqI)

lemma sendAll_spec:
  assumes "distinct (map fst m)" "\<forall>(k, s) \<in> set m. sub_ch s = k \<and> \<not> ch_closed (heap w k)"
  shows "sendAll msg m w = (Ret (), w\<lparr>heap := deliver msg m (heap w),
    calls := calls w @ drop_calls (hub w) msg (length (filter (full_for msg (heap w)) m))\<rparr>)"
  using assms
proof (induction m arbitrary: w)
  case Nil
  have "deliver msg [] (heap w) = heap w" by (rule ext) (simp add: deliver_def)
  then show ?case by simp
next
  case (Cons x m)
  obtain k s where x: "x = (k, s)" by force
  define h where "h = (heap w)(k := if accepts s msg then offer msg (heap w k) else heap w k)"
  define w1 where "w1 = w\<lparr>heap := h, calls := calls w @ drop_calls (hub w) msg
      (if full_for msg (heap w) (k, s) then 1 else 0)\<rparr>"
  have k: "k \<notin> fst ` set m" using Cons.prems(1) x by auto
  have other: "h k' = heap w k'" if "(k', s') \<in> set m" for k' s'
    using k that by (force simp: h_def)
  have "map_of m k = None" using k by (simp add: map_of_eq_None_iff)
  then have d: "deliver msg m h = deliver msg (x # m) (heap w)"
    using x by (auto simp: deliver_def h_def fun_eq_iff split: option.splits)
  have f: "filter (full_for msg h) m = filter (full_for msg (heap w)) m"
    using other by (intro filter_cong) (auto simp: full_for_def)
  have one: "sendOne msg s w = (Ret (), w1)"
    using Cons.prems(2) x unfolding w1_def h_def by (intro sendOne_spec) auto
  have "\<forall>(k', s') \<in> set m. sub_ch s' = k' \<and> \<not> ch_closed (heap w1 k')"
    using Cons.prems(2) other by (auto simp: w1_def)
  then have "sendAll msg m w1 = (Ret (), w1\<lparr>heap := deliver msg m (heap w1),
      calls := calls w1 @ drop_calls (hub w1) msg (length (filter (full_for msg (heap w1)) m))\<rparr>)"
    using Cons.IH [of w1] Cons.prems(1) by simp
  then show ?case using one d f x by (simp add: w1_def)
qed

text \<open>The world after a broadcast.\<close>

definition after_broadcast :: "'a \<Rightarrow> 'a world \<Rightarrow> 'a world" where
  "after_broadcast msg w = w\<lparr>heap := deliver msg (subs_of w) (heap w),
     calls := calls w @ drop_calls (hub w) msg (length (filter (full_for msg (heap w)) (subs_of w)))\<rparr>"

lemma sendAllLocked_spec:
  assumes "world_ok w" "order_ok ord"
  shows "sendAllLocked ord msg w = (Ret (), after_broadcast msg w)"
proof (cases "subscribers (hub w)")
  case None
  have "deliver msg [] (heap w) = heap w" by (rule ext) (simp add: deliver_def)
  then show ?thesis using None by (simp add: sendAllLocked_def after_broadcast_def subs_of_def)
next
  case (Some m)
  then have m: "subs_of w = m" by (simp add: subs_of_def)
  note ok = world_okD [OF assms(1), unfolded m]
  have "deliver msg (ord m) (heap w) = deliver msg m (heap w)"
    using order_ok_map_of [OF assms(2) ok(1)] by (simp add: deliver_def fun_eq_iff)
  moreover have "sendAll msg (ord m) w = (Ret (), w\<lparr>heap := deliver msg (ord m) (heap w),
      calls := calls w @ drop_calls (hub w) msg (length (filter (full_for msg (heap w)) (ord m)))\<rparr>)"
    using ok order_okD [OF assms(2), of m] by (intro sendAll_spec) auto
  ultimately show ?thesis
    using Some m order_ok_filter [OF assms(2)] by (simp add: sendAllLocked_def after_broadcast_def)
qed

lemma after_broadcast_simps [simp]:
  "hub (after_broadcast msg w) = hub w"
  "nxt (after_broadcast msg w) = nxt w"
  "subs_of (after_broadcast msg w) = subs_of w"
  by (simp_all add: after_broadcast_def subs_of_def)

lemma deliver_keeps:
  "ch_cap (deliver msg m h a) = ch_cap (h a)" "ch_closed (deliver msg m h a) = ch_closed (h a)"
  "length (ch_buf (h a)) \<le> ch_cap (h a) \<Longrightarrow> length (ch_buf (deliver msg m h a)) \<le> ch_cap (h a)"
  by (auto simp: deliver_def offer_def trySend_def split: option.splits)

lemma after_broadcast_ok: "world_ok w \<Longrightarrow> world_ok (after_broadcast msg w)"
  by (auto simp: world_ok_def tracked_ok_def list_all_iff after_broadcast_def deliver_keeps)

lemma BroadcastMany_spec:
  "world_ok w \<Longrightarrow> (\<forall>i. order_ok (ords i)) \<Longrightarrow>
   BroadcastMany ords msgs w = (Ret (), fold after_broadcast msgs w)"
  by (induction msgs arbitrary: w ords) (simp_all add: sendAllLocked_spec after_broadcast_ok)

text \<open>
  C8. \<open>Broadcast\<close> never panics, never blocks and gives the same result whatever the order in
  which it visits the subscribers: each subscriber whose predicate accepts the message (a
  panicking predicate does not) is offered it, no other channel and nothing of the hub
  changes, and the drop callback runs once for each accepting subscriber whose buffer is full.
\<close>

theorem Broadcast_reaches_subscribers:
  assumes "world_ok w" and "order_ok ord"
  shows "Broadcast ord msg w = (Ret (),
    w\<lparr>heap := deliver msg (subs_of w) (heap w),
      calls := calls w @ drop_calls (hub w) msg
        (length (filter (full_for msg (heap w)) (subs_of w)))\<rparr>)"
  using sendAllLocked_spec [OF assms] by (simp add: Broadcast_def after_broadcast_def)

theorem Broadcast_reaches_subscribers_witness:
  "ch_buf (heap (snd (Broadcast rev 7 sample_world)) 0) = [4] \<and>
   ch_buf (heap (snd (Broadcast rev 7 sample_world)) 1) = [4, 7]"
  unfolding Broadcast_reaches_subscribers [OF sample_world_ok order_ok_samples(1)]
  by (simp add: sample_defs deliver_def accepts_def offer_def trySend_def)

lemma broadcasts_simps [simp]:
  "hub (fold after_broadcast msgs w) = hub w"
  "nxt (fold after_broadcast msgs w) = nxt w"
  "subs_of (fold after_broadcast msgs w) = subs_of w"
  by (induction msgs arbitrary: w) simp_all

lemma broadcasts_ok: "world_ok w \<Longrightarrow> world_ok (fold after_broadcast msgs w)"
  by (induction msgs arbitrary: w) (simp_all add: after_broadcast_ok)

lemma broadcasts_heap:
  "heap (fold after_broadcast msgs w) a =
     (case map_of (subs_of w) a of
        None \<Rightarrow> heap w a
      | Some s \<Rightarrow> fold offer (filter (accepts s) msgs) (heap w a))"
  by (induction msgs arbitrary: w)
    (auto simp: after_broadcast_def deliver_def split: option.splits)

text \<open>The messages a subscriber loses: those that no longer fit.\<close>

definition excess :: "'a list \<Rightarrow> (nat \<Rightarrow> 'a chan) \<Rightarrow> nat \<times> 'a subscriber \<Rightarrow> nat" where
  "excess msgs h = (\<lambda>(k, s). length (ch_buf (h k)) + length (filter (accepts s) msgs) - ch_cap (h k))"

lemma excess_Cons:
  assumes "world_ok w" "(k, s) \<in> set (subs_of w)"
  shows "excess (msg # msgs) (heap w) (k, s) =
    (if full_for msg (heap w) (k, s) then 1 else 0) +
      excess msgs (heap (after_broadcast msg w)) (k, s)"
proof -
  have "map_of (subs_of w) k = Some s" "\<not> ch_closed (heap w k)" "length (ch_buf (heap w k)) \<le> ch_cap (heap w k)"
    using world_okD [OF assms(1)] assms(2) by auto
  then show ?thesis
    by (auto simp: excess_def full_for_def after_broadcast_def deliver_def chanq.push_contents)
qed

lemma broadcasts_drops:
  assumes "world_ok w" "onDrop (hub w) = Some fn"
  shows "length (calls (fold after_broadcast msgs w)) =
    length (calls w) + sum_list (map (excess msgs (heap w)) (subs_of w))"
  using assms
proof (induction msgs arbitrary: w)
  case Nil
  then have "map (excess [] (heap w)) (subs_of w) = map (\<lambda>_. 0) (subs_of w)"
    using world_okD [OF Nil(1)] by (auto simp: excess_def)
  then show ?case by (simp add: map_replicate_const sum_list_replicate)
next
  case (Cons msg msgs)
  have split: "map (excess (msg # msgs) (heap w)) (subs_of w) =
      map (\<lambda>x. (if full_for msg (heap w) x then 1 else 0) + excess msgs (heap (after_broadcast msg w)) x)
        (subs_of w)"
    using excess_Cons [OF Cons.prems(1)] by auto
  have one: "sum_list (map (\<lambda>x. if P x then 1 else 0) xs) = length (filter P xs)" for P :: "_ \<Rightarrow> bool" and xs
    by (induction xs) auto
  have "length (calls (after_broadcast msg w)) =
      length (calls w) + length (filter (full_for msg (heap w)) (subs_of w))"
    using Cons.prems(2) by (simp add: after_broadcast_def drop_calls_def)
  then show ?case
    using Cons.IH [of "after_broadcast msg w"] Cons.prems after_broadcast_ok [of w msg]
    unfolding split by (simp add: sum_list_addf one)
qed

text \<open>
  C20. A batch reaches every subscriber in order: after \<open>BroadcastMany\<close> the buffer of a
  subscriber is what it held followed by the accepted messages, cut off at its capacity.
  The batch is not reordered, nothing already buffered is lost, the channels of others keep
  their contents, and the drop callback has run exactly once per message that did not fit.
\<close>

theorem BroadcastMany_buffers:
  assumes "world_ok w" "\<forall>i. order_ok (ords i)" "Broadcaster_BroadcastMany ords msgs w = (r, w')"
  shows "r = Ret () \<and> world_ok w' \<and> hub w' = hub w \<and>
    (\<forall>(k, s) \<in> set (subs_of w).
       ch_buf (heap w' k) = take (ch_cap (heap w k)) (ch_buf (heap w k) @ filter (accepts s) msgs)) \<and>
    (\<forall>a. a \<notin> fst ` set (subs_of w) \<longrightarrow> heap w' a = heap w a) \<and>
    length (calls w') = length (calls w) +
      (if onDrop (hub w) = None then 0 else sum_list (map (excess msgs (heap w)) (subs_of w)))"
proof -
  have w': "w' = fold after_broadcast msgs w" and ret: "r = Ret ()"
    using BroadcastMany_spec [OF assms(1,2)] assms(3) by (simp_all add: Broadcaster_BroadcastMany_def)
  have buf: "ch_buf (heap w' k) = take (ch_cap (heap w k)) (ch_buf (heap w k) @ filter (accepts s) msgs)"
    if "(k, s) \<in> set (subs_of w)" for k s
  proof -
    have "map_of (subs_of w) k = Some s" using world_okD(1) [OF assms(1)] that by simp
    moreover have "\<not> ch_closed (heap w k)" "length (ch_buf (heap w k)) \<le> ch_cap (heap w k)"
      using world_okD(2,3) [OF assms(1)] that by auto
    ultimately show ?thesis
      using chanq.push_all_contents [of "heap w k" "filter (accepts s) msgs"]
      by (simp add: w' broadcasts_heap)
  qed
  have other: "heap w' a = heap w a" if "a \<notin> fst ` set (subs_of w)" for a
    using that by (auto simp: w' broadcasts_heap map_of_eq_None_iff [symmetric])
  have quiet: "onDrop (hub v) = None \<Longrightarrow> calls (fold after_broadcast msgs v) = calls v" for v :: "'a world"
    by (induction msgs arbitrary: v) (simp_all add: after_broadcast_def drop_calls_def)
  show ?thesis
    using ret broadcasts_ok [OF assms(1)] buf other quiet broadcasts_drops [OF assms(1)]
    by (auto simp: w')
qed

theorem BroadcastMany_buffers_witness:
  "ch_buf (heap (snd (Broadcaster_BroadcastMany (\<lambda>_. rev) [6, 7, 8] sample_world)) 0) = [4, 6] \<and>
   length (calls (snd (Broadcaster_BroadcastMany (\<lambda>_. rev) [6, 7, 8] sample_world))) = 3"
proof -
  obtain r w' where b: "Broadcaster_BroadcastMany (\<lambda>_. rev) [6, 7, 8] sample_world = (r, w')" by force
  have "ch_buf (heap w' 0) = [4, 6] \<and> length (calls w') = 3"
    using BroadcastMany_buffers [OF sample_world_ok allI [OF order_ok_samples(1)] b]
    by (simp add: sample_defs accepts_def excess_def)
  then show ?thesis using b by simp
qed

end
