(* ===== verification/Replay.thy ===== *)
theory Replay
  imports Streams FanOut
begin

text \<open>
  Reconnection replay: the \<open>EventStore\<close> interfaces and the functions \<open>Replay\<close> and
  \<open>ReplayFiltered\<close> of \<open>replay.go\<close>, and the ring buffer \<open>memStore\<close> of \<open>example/datastar/store.go\<close>
  that implements the interface.
\<close>

subsection \<open>Operations\<close>

text \<open>
  A store as its caller sees it: \<open>EventsAfter\<close>, and \<open>EventsAfterFiltered\<close> when it implements
  \<open>FilteredEventStore\<close> as well.
\<close>

record 'i EventStore =
  EventsAfter :: "'i \<Rightarrow> goerr + 'i Event list"
  EventsAfterFiltered :: "('i \<Rightarrow> 'i Event pred_fn \<Rightarrow> goerr + 'i Event list) option"

text \<open>The loop that sends events \<open>i\<close>, \<open>i+1\<close>, ... and reports how many were sent.\<close>

fun replayLoop ::
    "'i brandid \<Rightarrow> 'i \<Rightarrow> nat \<Rightarrow> nat \<Rightarrow> 'i Event list \<Rightarrow> Stream \<Rightarrow> (nat \<times> goerr option) outcome \<times> Stream" where
  "replayLoop B lastID tot i [] s = (Ret (tot, None), s)"
| "replayLoop B lastID tot i (evt # evts) s =
     (case Send B s evt of
        (Panic m, s) \<Rightarrow> (Panic m, s)
      | (Ret (Some err), s) \<Rightarrow>
          (Ret (i, Some (Wrapf err Transient ''sse.replay_failed''
             [ArgS (GetID B lastID), ArgS (ev_Event evt), ArgN i, ArgN tot])), s)
      | (Ret None, s) \<Rightarrow> replayLoop B lastID tot (i + 1) evts s)"

definition storeError :: "'i brandid \<Rightarrow> 'i \<Rightarrow> goerr \<Rightarrow> goerr" where
  [go_errors]: "storeError B lastID err =
     Wrapf err Rejection ''sse.replay_store_failed'' [ArgS (GetID B lastID)]"

definition Replay ::
    "'i brandid \<Rightarrow> Stream \<Rightarrow> 'i EventStore \<Rightarrow> 'i \<Rightarrow> (nat \<times> goerr option) outcome \<times> Stream" where
  "Replay B s store lastID =
     (case EventsAfter store lastID of
        Inl err \<Rightarrow> (Ret (0, Some (storeError B lastID err)), s)
      | Inr events \<Rightarrow> replayLoop B lastID (length events) 0 events s)"

definition ReplayFiltered ::
    "'i brandid \<Rightarrow> Stream \<Rightarrow> 'i EventStore \<Rightarrow> 'i \<Rightarrow> 'i Event pred_fn option \<Rightarrow>
     (nat \<times> goerr option) outcome \<times> Stream" where
  "ReplayFiltered B s store lastID pred =
     (case pred of
        None \<Rightarrow> Replay B s store lastID
      | Some p \<Rightarrow>
          (case (case EventsAfterFiltered store of
                   Some filtered \<Rightarrow> filtered lastID p
                 | None \<Rightarrow>
                     (case EventsAfter store lastID of
                        Inl err \<Rightarrow> Inl err
                      | Inr all \<Rightarrow> Inr (filter (safePredCall p) all))) of
             Inl err \<Rightarrow> (Ret (0, Some (storeError B lastID err)), s)
           | Inr events \<Rightarrow> replayLoop B lastID (length events) 0 events s))"

subsection \<open>memStore\<close>

record 'i memStore =
  ms_events :: "'i Event list"
  ms_cap :: nat

definition newMemStore :: "nat \<Rightarrow> 'i memStore" where
  "newMemStore capacity = \<lparr>ms_events = [], ms_cap = capacity\<rparr>"

definition Append :: "'i memStore \<Rightarrow> 'i Event \<Rightarrow> 'i memStore" where
  "Append s evt =
     (let s = s\<lparr>ms_events := ms_events s @ [evt]\<rparr>
      in if length (ms_events s) > ms_cap s
         then s\<lparr>ms_events := take (ms_cap s) (drop (length (ms_events s) - ms_cap s) (ms_events s))\<rparr>
         else s)"

text \<open>The scan of \<open>memStore.EventsAfter\<close>.\<close>

fun eventsAfterLoop :: "'i brandid \<Rightarrow> int \<Rightarrow> 'i Event list \<Rightarrow> 'i Event list \<Rightarrow> 'i Event list" where
  "eventsAfterLoop B lastSeq [] result = result"
| "eventsAfterLoop B lastSeq (evt # evts) result =
     (case Atoi (GetID B (ev_ID evt)) of
        Inl parseErr \<Rightarrow> eventsAfterLoop B lastSeq evts result
      | Inr sq \<Rightarrow> eventsAfterLoop B lastSeq evts (if sq > lastSeq then result @ [evt] else result))"

definition memEventsAfter :: "'i brandid \<Rightarrow> 'i memStore \<Rightarrow> 'i \<Rightarrow> goerr + 'i Event list" where
  "memEventsAfter B s lastID =
     (let lastSeq = (case Atoi (GetID B lastID) of Inl idErr \<Rightarrow> 0 | Inr v \<Rightarrow> v)
      in Inr (eventsAfterLoop B lastSeq (ms_events s) []))"

definition memEventStore :: "'i brandid \<Rightarrow> 'i memStore \<Rightarrow> 'i EventStore" where
  "memEventStore B s = \<lparr>EventsAfter = memEventsAfter B s, EventsAfterFiltered = None\<rparr>"

subsection \<open>What a replay puts on the wire\<close>

lemma replayLoop_counts:
  assumes "brandid_ok B" "\<not> rw_finished (st_w s)" "replayLoop B lastID tot i evts s = (res, s')"
    "tot = i + length evts"
  shows "\<exists>n err part. res = Ret (n, err) \<and> i \<le> n \<and> n \<le> tot \<and>
    wire (rw_w (st_w s')) =
      wire (rw_w (st_w s)) @ concat (map (event_frame B) (take (n - i) evts)) @ part \<and>
    (err = None \<longrightarrow> n = tot \<and> part = []) \<and>
    (err \<noteq> None \<longrightarrow> n < tot)"
  using assms(2-)
proof (induction evts arbitrary: i s)
  case Nil
  then show ?case by auto
next
  case (Cons evt evts)
  show ?case
    using assms(1) Cons.prems(1)
  proof (cases rule: Send_cases [where evt = evt])
    case (sent s1)
    then have "replayLoop B lastID tot (i + 1) evts s1 = (res, s')" using Cons.prems(2) by simp
    from Cons.IH [OF sent(2) this] Cons.prems(3) obtain n err part where n: "res = Ret (n, err)"
      "i + 1 \<le> n" "n \<le> tot" "wire (rw_w (st_w s')) = wire (rw_w (st_w s1)) @
        concat (map (event_frame B) (take (n - (i + 1)) evts)) @ part"
      "err = None \<longrightarrow> n = tot \<and> part = []" "err \<noteq> None \<longrightarrow> n < tot" by auto
    moreover have "n - i = Suc (n - (i + 1))" using n(2) by simp
    ultimately show ?thesis
      using sent(3) by (intro exI [of _ n] exI [of _ err] exI [of _ part]) simp
  next
    case (failed e s1 part)
    then show ?thesis
      using Cons.prems(2,3) by (intro exI [of _ i] exI [of _ "Some _"] exI [of _ part]) auto
  qed
qed


text \<open>The law a filtering store promises: the events the plain query would give, filtered.\<close>

definition pushes_down :: "'i EventStore \<Rightarrow> bool" where
  "pushes_down store \<longleftrightarrow>
     (\<forall>filtered lastID p. EventsAfterFiltered store = Some filtered \<longrightarrow>
        filtered lastID p = map_sum id (filter (safePredCall p)) (EventsAfter store lastID))"


subsection \<open>Stores that can resume a client\<close>

text \<open>
  The contract of \<open>EventStore.EventsAfter\<close>, for a store whose identifiers are numbers: it
  returns the stored events strictly after a position, and the store is ordered.
\<close>

locale event_store =
  fixes after :: "'s \<Rightarrow> int \<Rightarrow> 'e list"
    and stored :: "'s \<Rightarrow> 'e list"
    and position :: "'e \<Rightarrow> int"
    and valid :: "'s \<Rightarrow> bool"
  assumes after_stored: "valid s \<Longrightarrow> after s i = filter (\<lambda>e. i < position e) (stored s)"
    and stored_ordered: "valid s \<Longrightarrow> sorted_wrt (<) (map position (stored s))"
begin

lemma after_ordered: "valid s \<Longrightarrow> sorted_wrt (<) (map position (after s i))"
  using stored_ordered [of s]
  by (simp add: after_stored sorted_wrt_map sorted_wrt_filter)

text \<open>A client that has seen the events up to one of them gets exactly the rest.\<close>

lemma resume_stored:
  assumes "valid s" "stored s = seen @ e # rest"
  shows "after s (position e) = rest"
  using stored_ordered [OF assms(1)] unfolding after_stored [OF assms(1)] assms(2)
  by (auto simp: sorted_wrt_append filter_empty_conv filter_id_conv)

text \<open>The same when it has seen a part of an earlier replay.\<close>

lemma resume:
  assumes "valid s" "after s i = seen @ e # rest"
  shows "after s (position e) = rest"
proof -
  have "e \<in> set (after s i)" using assms(2) by simp
  then have e: "i < position e" by (simp add: after_stored [OF assms(1)])
  have "filter (\<lambda>x. position e < position x) (after s i) = after s (position e)"
    using e unfolding after_stored [OF assms(1)] by (auto intro: filter_cong)
  moreover have "filter (\<lambda>x. position e < position x) (seen @ e # rest) = rest"
    using after_ordered [OF assms(1), of i] unfolding assms(2)
    by (auto simp: sorted_wrt_append filter_empty_conv filter_id_conv)
  ultimately show ?thesis using assms(2) by simp
qed

end

text \<open>\<open>memStore\<close> meets it when the stored identifiers are increasing decimal numbers.\<close>

definition seqOf :: "'i brandid \<Rightarrow> 'i Event \<Rightarrow> int" where
  "seqOf B evt = (case Atoi (GetID B (ev_ID evt)) of Inl e \<Rightarrow> 0 | Inr v \<Rightarrow> v)"

definition numbered :: "'i brandid \<Rightarrow> 'i memStore \<Rightarrow> bool" where
  "numbered B s \<longleftrightarrow>
     length (ms_events s) \<le> ms_cap s \<and> sorted_wrt (<) (map (seqOf B) (ms_events s)) \<and>
     list_all (\<lambda>e. Atoi (GetID B (ev_ID e)) = Inr (seqOf B e)) (ms_events s)"

definition after_seq :: "'i brandid \<Rightarrow> 'i memStore \<Rightarrow> int \<Rightarrow> 'i Event list" where
  "after_seq B s i = eventsAfterLoop B i (ms_events s) []"

lemma eventsAfterLoop_filter:
  "eventsAfterLoop B i evts result = result @ filter (\<lambda>e. case Atoi (GetID B (ev_ID e)) of
     Inl err \<Rightarrow> False | Inr v \<Rightarrow> i < v) evts"
  by (induction evts arbitrary: result) (auto split: sum.split)

interpretation mem: event_store "after_seq B" ms_events "seqOf B" "numbered B" for B
proof
  fix s :: "'a memStore" and i
  assume s: "numbered B s"
  have "(case Atoi (GetID B (ev_ID e)) of Inl err \<Rightarrow> False | Inr v \<Rightarrow> i < v) = (i < seqOf B e)"
    if "e \<in> set (ms_events s)" for e
    using s that by (auto simp: numbered_def list_all_iff)
  then show "after_seq B s i = filter (\<lambda>e. i < seqOf B e) (ms_events s)"
    by (simp add: after_seq_def eventsAfterLoop_filter cong: filter_cong)
qed (simp add: numbered_def)

lemma Append_spec:
  "ms_events (Append s evt) = drop (length (ms_events s) + 1 - ms_cap s) (ms_events s @ [evt]) \<and>
   ms_cap (Append s evt) = ms_cap s"
  by (auto simp: Append_def Let_def)

lemma numbered_Append:
  assumes "numbered B s" "Atoi (GetID B (ev_ID evt)) = Inr v" "\<forall>e \<in> set (ms_events s). seqOf B e < v"
  shows "numbered B (Append s evt)"
proof -
  have v: "seqOf B evt = v" using assms(2) by (simp add: seqOf_def)
  have "sorted_wrt (<) (map (seqOf B) (ms_events s @ [evt]))"
    using assms(1,3) v by (auto simp: numbered_def sorted_wrt_append)
  then have "sorted_wrt (<) (map (seqOf B) (ms_events (Append s evt)))"
    unfolding Append_spec [THEN conjunct1] drop_map [symmetric] by (rule sorted_wrt_drop)
  moreover have "list_all (\<lambda>e. Atoi (GetID B (ev_ID e)) = Inr (seqOf B e)) (ms_events s @ [evt])"
    using assms(1,2) v by (simp add: numbered_def)
  then have "list_all (\<lambda>e. Atoi (GetID B (ev_ID e)) = Inr (seqOf B e)) (ms_events (Append s evt))"
    unfolding Append_spec [THEN conjunct1] by (auto simp: list_all_iff dest: in_set_dropD)
  moreover have "length (ms_events (Append s evt)) \<le> ms_cap (Append s evt)"
    using Append_spec [of s evt] by auto
  ultimately show ?thesis by (simp add: numbered_def)
qed

text \<open>
  The ring buffer keeps the most recent events: after any appends it holds exactly the last
  \<open>capacity\<close> of them, in order.
\<close>

lemma foldl_Append:
  "ms_events (foldl Append (newMemStore capacity) evts) = drop (length evts - capacity) evts \<and>
   ms_cap (foldl Append (newMemStore capacity) evts) = capacity"
proof (induction evts rule: rev_induct)
  case Nil
  then show ?case by (simp add: newMemStore_def)
next
  case (snoc evt evts)
  then show ?case
    using Append_spec [of "foldl Append (newMemStore capacity) evts" evt]
    by (cases "length evts < capacity") (simp_all add: Suc_diff_le not_less)
qed

lemma replayLoop_accepting:
  assumes "brandid_ok B" "\<not> rw_finished (st_w s)" "outcomes (rw_w (st_w s)) = []" "tot = i + length evts"
  shows "\<exists>s'. replayLoop B lastID tot i evts s = (Ret (tot, None), s') \<and>
    \<not> rw_finished (st_w s') \<and> outcomes (rw_w (st_w s')) = [] \<and>
    wire (rw_w (st_w s')) = wire (rw_w (st_w s)) @ concat (map (event_frame B) evts)"
  using assms(2-)
proof (induction evts arbitrary: i s)
  case (Cons evt evts)
  obtain s1 where s1: "Send B s evt = (Ret None, s1)" "\<not> rw_finished (st_w s1)"
      "rw_w (st_w s1) = \<lparr>wire = wire (rw_w (st_w s)) @ event_frame B evt, outcomes = []\<rparr>"
    using Cons.prems(1,2)
    by (cases "st_fw s") (auto simp: Send_def onWriter_def streamFlush_live WriteEvent_def Write_def
      eventBuffer_frame [OF assms(1)])
  then show ?case using Cons.IH [of s1 "i + 1"] Cons.prems(3) by auto
qed simp

text \<open>
  A client that names the last event it has seen, while that event is still in the ring
  buffer, is sent exactly the events stored after it, in order.
\<close>

lemma memEventsAfter_missed:
  assumes "numbered B st" "ms_events st = seen @ e # missed" "GetID B lastID = GetID B (ev_ID e)"
  shows "memEventsAfter B st lastID = Inr missed"
proof -
  have "Atoi (GetID B (ev_ID e)) = Inr (seqOf B e)"
    using assms(1,2) by (simp add: numbered_def)
  then show ?thesis
    using mem.resume_stored [OF assms(1,2)] assms(3) by (simp add: memEventsAfter_def after_seq_def)
qed

lemma Replay_stored:
  assumes "brandid_ok B" "memEventsAfter B st lastID = Inr missed"
    and "\<not> rw_finished (st_w s)" "outcomes (rw_w (st_w s)) = []"
  shows "\<exists>s'. Replay B s (memEventStore B st) lastID = (Ret (length missed, None), s') \<and>
    \<not> rw_finished (st_w s') \<and> outcomes (rw_w (st_w s')) = [] \<and>
    wire (rw_w (st_w s')) = wire (rw_w (st_w s)) @ concat (map (event_frame B) missed)"
  using replayLoop_accepting [OF assms(1,3,4), of "length missed" 0 missed lastID] assms(2)
  by (simp add: Replay_def memEventStore_def)

lemmas Replay_missed = Replay_stored [OF _ memEventsAfter_missed]

text \<open>
  An identifier \<open>memStore\<close> cannot parse is not treated as unknown: every stored event with a
  positive number is returned, where the interface promises an empty slice.
\<close>

lemma memStore_unknown_id_replays_all:
  assumes "numbered B st" "Atoi (GetID B lastID) = Inl err" "\<forall>e \<in> set (ms_events st). 0 < seqOf B e"
  shows "EventsAfter (memEventStore B st) lastID = Inr (ms_events st)"
proof -
  have "after_seq B st 0 = ms_events st"
    using assms(3) mem.after_stored [OF assms(1), of 0] by (simp add: filter_id_conv)
  then show ?thesis
    using assms(2) by (simp add: memEventStore_def memEventsAfter_def after_seq_def)
qed

subsection \<open>Witnesses\<close>

definition sample_stored :: "string \<Rightarrow> string Event" where
  "sample_stored i = \<lparr>ev_Event = ''e'', ev_Data = ''d'', ev_ID = i, ev_Retry = 0\<rparr>"

definition sample_store :: "string memStore" where
  "sample_store = foldl Append (newMemStore 2) (map sample_stored [''1'', ''2'', ''3''])"

lemma sample_store_simps:
  "ms_events sample_store = [sample_stored ''2'', sample_stored ''3'']" "ms_cap sample_store = 2"
  by (simp_all add: sample_store_def newMemStore_def Append_def)

lemma sample_atoi: "Atoi ''2'' = Inr 2" "Atoi ''3'' = Inr 3" "Atoi ''x'' = Inl ErrSyntax"
  by code_simp+

lemma sample_store_numbered: "numbered string_id sample_store"
  by (simp add: numbered_def sample_store_simps seqOf_def sample_stored_def sample_atoi)



end
