(* ===== verification/Lifecycle.thy ===== *)
theory Lifecycle
  imports FanOut
begin

text \<open>
  The life of a hub: subscribing, unsubscribing, \<open>Close\<close>, and \<open>Shutdown\<close> while other goroutines
  go on calling the hub. Every call keeps the invariant, so none can panic on a channel.
\<close>

subsection \<open>Subscribing and unsubscribing\<close>

definition open_hub :: "'a world \<Rightarrow> bool" where
  "open_hub w \<longleftrightarrow> subscribers (hub w) \<noteq> None \<and> \<not> draining (hub w)"

definition callback_panics :: "unit callback option \<Rightarrow> bool" where
  "callback_panics cb \<longleftrightarrow> (case cb of None \<Rightarrow> False | Some c \<Rightarrow> cb_panics c ())"

definition callback_calls :: "(nat \<Rightarrow> 'a hub_call) \<Rightarrow> unit callback option \<Rightarrow> 'a hub_call list" where
  "callback_calls call cb = (case cb of None \<Rightarrow> [] | Some c \<Rightarrow> [call (cb_tag c)])"

lemma runCallback_spec:
  "runCallback call cb w =
     (if callback_panics cb then Panic ''callback'' else Ret (),
      w\<lparr>calls := calls w @ callback_calls call cb\<rparr>)"
  by (simp add: runCallback_def callback_panics_def callback_calls_def split: option.splits)

lemma lookupSub_subs: "lookupSub k (hub w) = map_of (subs_of w) k"
  by (simp add: lookupSub_def subs_of_def split: option.splits)

text \<open>The world after a registration, and after a tracked channel has been removed and closed.\<close>

definition after_subscribe :: "'a pred_fn option \<Rightarrow> 'a world \<Rightarrow> 'a world" where
  "after_subscribe pred w =
     w\<lparr>heap := (heap w)(nxt w := makeChan (nat (effectiveBufferSize (hub w)))), nxt := nxt w + 1,
       hub := (hub w)\<lparr>subscribers := Some (subs_of w @ [(nxt w, \<lparr>sub_ch = nxt w, sub_pred = pred\<rparr>)])\<rparr>,
       calls := calls w @ callback_calls CallSubscribe (onSubscribe (hub w))\<rparr>"

definition after_refused :: "'a world \<Rightarrow> 'a world" where
  "after_refused w =
     w\<lparr>heap := (heap w)(nxt w := (makeChan (nat (effectiveBufferSize (hub w))))\<lparr>ch_closed := True\<rparr>),
       nxt := nxt w + 1\<rparr>"

definition untrack :: "nat \<Rightarrow> 'a world \<Rightarrow> 'a world" where
  "untrack k w = w\<lparr>hub := deleteSub k (hub w),
     heap := (heap w)(k := (heap w k)\<lparr>ch_closed := True\<rparr>)\<rparr>"

lemma SubscribeFilter_spec:
  "SubscribeFilter pred w =
     (if open_hub w
      then (if callback_panics (onSubscribe (hub w)) then Panic ''callback'' else Ret (nxt w),
            after_subscribe pred w)
      else (Ret (nxt w), after_refused w))"
  by (auto simp: SubscribeFilter_def open_hub_def Let_def closeAt_def closeChan_def makeChan_def
      runCallback_spec after_subscribe_def after_refused_def subs_of_def)

lemma subs_of_untrack: "subs_of (untrack k w) = filter (\<lambda>(k', s). k' \<noteq> k) (subs_of w)"
  by (simp add: untrack_def subs_of_def deleteSub_def split: option.splits)

lemma closeAt_tracked:
  assumes "world_ok w" "(k, s) \<in> set (subs_of w)"
  shows "closeAt (sub_ch s) (w\<lparr>hub := deleteSub k (hub w)\<rparr>) = (Ret (), untrack k w)"
  using world_okD(2) [OF assms] by (simp add: closeAt_def closeChan_open untrack_def)

lemma Unsubscribe_spec:
  assumes "world_ok w"
  shows "Unsubscribe k w =
    (if k \<in> fst ` set (subs_of w)
     then (if callback_panics (onUnsubscribe (hub w)) then Panic ''callback'' else Ret (),
           (untrack k w)\<lparr>calls := calls w @ callback_calls CallUnsubscribe (onUnsubscribe (hub w))\<rparr>)
     else (Ret (), w))"
proof (cases "map_of (subs_of w) k")
  case None
  then have "k \<notin> fst ` set (subs_of w)" by (simp add: map_of_eq_None_iff)
  then show ?thesis using None unfolding Unsubscribe_def lookupSub_subs None by simp
next
  case (Some s)
  then have k: "(k, s) \<in> set (subs_of w)" by (rule map_of_SomeD)
  have "hub (untrack k w) = deleteSub k (hub w)" "calls (untrack k w) = calls w"
    by (simp_all add: untrack_def)
  moreover have "onUnsubscribe (deleteSub k (hub w)) = onUnsubscribe (hub w)"
    by (simp add: deleteSub_def)
  ultimately show ?thesis
    using closeAt_tracked [OF assms k] Some k
    by (auto simp: Unsubscribe_def lookupSub_subs runCallback_spec intro: rev_image_eqI)
qed

lemma untrack_ok: "world_ok w \<Longrightarrow> world_ok (untrack k w)"
  unfolding world_ok_def subs_of_untrack
  by (auto simp: tracked_ok_def list_all_iff untrack_def distinct_map_filter)

lemma after_subscribe_ok: "world_ok w \<Longrightarrow> world_ok (after_subscribe pred w)"
  by (fastforce simp: world_ok_def tracked_ok_def list_all_iff after_subscribe_def subs_of_def
      makeChan_def less_Suc_eq split: option.splits)

lemma after_refused_ok: "world_ok w \<Longrightarrow> world_ok (after_refused w)"
  by (fastforce simp: world_ok_def tracked_ok_def list_all_iff after_refused_def makeChan_def
      less_Suc_eq)

lemma world_ok_calls [simp]: "world_ok (w\<lparr>calls := cs\<rparr>) = world_ok w"
  by (simp add: world_ok_def tracked_ok_def)

lemma filter_untracked: "k \<notin> fst ` set m \<Longrightarrow> filter (\<lambda>(k', s). k' \<noteq> k) m = m"
  by (force simp: filter_id_conv)

text \<open>
  \<open>SubscribeFilter\<close> on an open hub registers a fresh, open, empty channel of the configured
  capacity under its own address, beside the subscribers there were, and runs the subscribe
  callback once (only its panic, if any, is passed on). On a closed or draining hub it returns
  a fresh channel that is already closed and changes nothing of the hub.
\<close>

lemma SubscribeFilter_registers:
  assumes "world_ok w" and "SubscribeFilter pred w = (r, w')"
  shows "world_ok w' \<and> nxt w' = nxt w + 1 \<and> (\<forall>a < nxt w. heap w' a = heap w a) \<and>
    (if open_hub w
     then subs_of w' = subs_of w @ [(nxt w, \<lparr>sub_ch = nxt w, sub_pred = pred\<rparr>)] \<and>
       heap w' (nxt w) = makeChan (nat (effectiveBufferSize (hub w))) \<and>
       calls w' = calls w @ callback_calls CallSubscribe (onSubscribe (hub w)) \<and>
       r = (if callback_panics (onSubscribe (hub w)) then Panic ''callback'' else Ret (nxt w))
     else r = Ret (nxt w) \<and> hub w' = hub w \<and> calls w' = calls w \<and>
       recvChan (heap w' (nxt w)) = Some (None, heap w' (nxt w)))"
  using assms after_subscribe_ok [OF assms(1), of pred] after_refused_ok [OF assms(1)]
  unfolding SubscribeFilter_spec
  by (auto simp: after_subscribe_def after_refused_def subs_of_def recvChan_def makeChan_def
      split: if_splits)

text \<open>
  \<open>Unsubscribe\<close> of a tracked channel removes exactly it, closes it once (its unread messages
  stay readable) and runs the callback once; afterwards, and for any channel that is not
  tracked, it does nothing, so unsubscribing twice is harmless.
\<close>

lemma Unsubscribe_removes:
  assumes "world_ok w" and "Unsubscribe k w = (r, w')"
  shows "world_ok w' \<and> subs_of w' = filter (\<lambda>(k', s). k' \<noteq> k) (subs_of w) \<and>
    Unsubscribe k w' = (Ret (), w') \<and>
    (if k \<in> fst ` set (subs_of w)
     then heap w' = (heap w)(k := (heap w k)\<lparr>ch_closed := True\<rparr>) \<and>
       calls w' = calls w @ callback_calls CallUnsubscribe (onUnsubscribe (hub w)) \<and>
       (r = Ret () \<or> callback_panics (onUnsubscribe (hub w)))
     else r = Ret () \<and> w' = w)"
proof -
  have ok: "world_ok w'" and subs: "subs_of w' = filter (\<lambda>(k', s). k' \<noteq> k) (subs_of w)"
    using assms untrack_ok [OF assms(1), of k] filter_untracked [of k "subs_of w"]
    by (auto simp: Unsubscribe_spec subs_of_untrack split: if_splits)
  then have "k \<notin> fst ` set (subs_of w')" by auto
  then have "Unsubscribe k w' = (Ret (), w')" using Unsubscribe_spec [OF ok] by simp
  then show ?thesis
    using assms ok subs by (auto simp: Unsubscribe_spec untrack_def split: if_splits)
qed

subsection \<open>Close\<close>

definition close_chans :: "nat list \<Rightarrow> (nat \<Rightarrow> 'a chan) \<Rightarrow> nat \<Rightarrow> 'a chan" where
  "close_chans ks h a = (if a \<in> set ks then (h a)\<lparr>ch_closed := True\<rparr> else h a)"

lemma close_chans_Nil [simp]: "close_chans [] h = h"
  by (simp add: close_chans_def fun_eq_iff)

lemma close_chans_Cons:
  "close_chans ks (h(k := (h k)\<lparr>ch_closed := True\<rparr>)) = close_chans (k # ks) h"
  by (auto simp: close_chans_def fun_eq_iff)

lemma deleteSub_update [simp]:
  "(deleteSub k f)\<lparr>subscribers := None\<rparr> = f\<lparr>subscribers := None\<rparr>"
  by (simp add: deleteSub_def)

lemma untrack_simps [simp]:
  "hub (untrack k w) = deleteSub k (hub w)"
  "heap (untrack k w) = (heap w)(k := (heap w k)\<lparr>ch_closed := True\<rparr>)"
  "nxt (untrack k w) = nxt w" "calls (untrack k w) = calls w"
  by (simp_all add: untrack_def)

lemma closeEach_spec:
  "world_ok w \<Longrightarrow> set m \<subseteq> set (subs_of w) \<Longrightarrow> distinct (map fst m) \<Longrightarrow>
   \<exists>f. closeEach m w = (Ret (), w\<lparr>hub := f, heap := close_chans (map fst m) (heap w)\<rparr>) \<and>
     f\<lparr>subscribers := None\<rparr> = (hub w)\<lparr>subscribers := None\<rparr>"
proof (induction m arbitrary: w)
  case Nil
  then show ?case by (intro exI [of _ "hub w"]) simp
next
  case (Cons x m)
  obtain k s where x: "x = (k, s)" by force
  have "set m \<subseteq> set (subs_of (untrack k w))"
    using Cons.prems(2,3) x by (force simp: subs_of_untrack)
  moreover have "distinct (map fst m)" using Cons.prems(3) by simp
  ultimately obtain f where f: "closeEach m (untrack k w) =
       (Ret (), (untrack k w)\<lparr>hub := f, heap := close_chans (map fst m) (heap (untrack k w))\<rparr>)"
    "f\<lparr>subscribers := None\<rparr> = (hub (untrack k w))\<lparr>subscribers := None\<rparr>"
    using Cons.IH [OF untrack_ok [OF Cons.prems(1)]] by blast
  have "(untrack k w)\<lparr>hub := f, heap := h\<rparr> = w\<lparr>hub := f, heap := h\<rparr>" for f h
    by (simp add: untrack_def)
  then have "closeEach (x # m) w =
      (Ret (), w\<lparr>hub := f, heap := close_chans (map fst (x # m)) (heap w)\<rparr>)"
    using closeAt_tracked [OF Cons.prems(1), of k s] Cons.prems(2) x f(1)
    by (simp add: close_chans_Cons)
  then show ?case using f(2) by auto
qed

lemma Close_spec:
  assumes "world_ok w" "order_ok ord"
  shows "Close ord w = (Ret (), w\<lparr>hub := (hub w)\<lparr>subscribers := None\<rparr>,
    heap := close_chans (map fst (subs_of w)) (heap w)\<rparr>)"
proof -
  let ?m = "case subscribers (hub w) of None \<Rightarrow> [] | Some m \<Rightarrow> ord m"
  have eq: "set ?m = set (subs_of w)" and d: "distinct (map fst ?m)"
    using order_okD [OF assms(2)] world_okD(1) [OF assms(1)]
    by (auto simp: subs_of_def split: option.splits)
  from closeEach_spec [OF assms(1) _ d] eq obtain f where
    "closeEach ?m w = (Ret (), w\<lparr>hub := f, heap := close_chans (map fst ?m) (heap w)\<rparr>)"
    "f\<lparr>subscribers := None\<rparr> = (hub w)\<lparr>subscribers := None\<rparr>" by auto
  moreover have "close_chans (map fst ?m) (heap w) = close_chans (map fst (subs_of w)) (heap w)"
    using eq by (auto simp: close_chans_def fun_eq_iff)
  ultimately show ?thesis by (simp add: Close_def closeLocked_def)
qed

lemma closed_world_ok:
  "world_ok w \<Longrightarrow> world_ok (w\<lparr>hub := f\<lparr>subscribers := None\<rparr>, heap := close_chans ks (heap w)\<rparr>)"
  by (simp add: world_ok_def subs_of_def close_chans_def)

text \<open>
  C33. \<open>Close\<close> closes every tracked channel exactly once, in whatever order, without a panic,
  keeps the unread messages of each, and leaves a hub without subscribers: later broadcasts
  change nothing, later subscriptions get a closed channel, and a second \<open>Close\<close> does nothing.
\<close>

theorem Close_closes_all:
  assumes "world_ok w" "order_ok ord" "Close ord w = (r, w')"
  shows "r = Ret () \<and> world_ok w' \<and> subscribers (hub w') = None \<and> calls w' = calls w \<and>
    (\<forall>a. heap w' a = (if a \<in> fst ` set (subs_of w) then (heap w a)\<lparr>ch_closed := True\<rparr> else heap w a)) \<and>
    Close ord w' = (Ret (), w') \<and> Broadcast ord msg w' = (Ret (), w') \<and> \<not> open_hub w'"
proof -
  have w': "w' = w\<lparr>hub := (hub w)\<lparr>subscribers := None\<rparr>,
      heap := close_chans (map fst (subs_of w)) (heap w)\<rparr>" and r: "r = Ret ()"
    using Close_spec [OF assms(1,2)] assms(3) by simp_all
  then have ok: "world_ok w'" using closed_world_ok [OF assms(1)] by simp
  have "Close ord w' = (Ret (), w')" using Close_spec [OF ok assms(2)] by (simp add: w' subs_of_def)
  moreover have "Broadcast ord msg w' = (Ret (), w')"
    by (simp add: w' Broadcast_def sendAllLocked_def)
  ultimately show ?thesis
    using ok r by (simp add: w' close_chans_def open_hub_def)
qed

theorem Close_closes_all_witness:
  "heap (snd (Close rev sample_world)) 1 = sample_chan\<lparr>ch_closed := True\<rparr> \<and>
   subscribers (hub (snd (Close rev sample_world))) = None"
  using Close_closes_all [OF sample_world_ok order_ok_samples(1) surjective_pairing]
  by (simp add: sample_defs)

subsection \<open>Shutdown\<close>

text \<open>
  While a shutdown drains, every subscriber of its snapshot is tracked or already closed, and
  nobody else is tracked.
\<close>

definition as_entry :: "'a subscriber \<Rightarrow> nat \<times> 'a subscriber" where
  "as_entry s = (sub_ch s, s)"

definition drain_inv :: "'a subscriber list \<Rightarrow> 'a world \<Rightarrow> bool" where
  "drain_inv subs w \<longleftrightarrow>
     world_ok w \<and> \<not> open_hub w \<and> set (subs_of w) \<subseteq> as_entry ` set subs \<and>
     (\<forall>s \<in> set subs. sub_ch s < nxt w \<and>
        (as_entry s \<in> set (subs_of w) \<or> ch_closed (heap w (sub_ch s))))"

lemma recv_heap:
  assumes "recvAt a w = Some (v, w')"
  shows "w' = w\<lparr>heap := (heap w)(a := (heap w a)\<lparr>ch_buf := tl (ch_buf (heap w a))\<rparr>)\<rparr>"
proof -
  have same: "(heap w a)\<lparr>ch_buf := ch_buf (heap w a)\<rparr> = heap w a" by (cases "heap w a") simp
  show ?thesis
  proof (cases "ch_buf (heap w a)")
    case Nil
    then have w': "w' = w" and h: "(heap w a)\<lparr>ch_buf := tl (ch_buf (heap w a))\<rparr> = heap w a"
      using assms same by (auto simp: recvAt_def recvChan_def split: if_splits)
    show ?thesis unfolding w' h by simp
  next
    case (Cons m ms)
    then show ?thesis using assms by (auto simp: recvAt_def recvChan_def)
  qed
qed

lemma run_op_cases:
  assumes "world_ok w" "op_ok op"
  obtains (subscribed) pred where "open_hub w" "run_op op w = after_subscribe pred w"
  | (refused) "\<not> open_hub w" "run_op op w = after_refused w"
  | (unsubscribed) a cs where "a \<in> fst ` set (subs_of w)" "run_op op w = (untrack a w)\<lparr>calls := cs\<rparr>"
  | (broadcast) msg where "run_op op w = after_broadcast msg w"
  | (received) a where "op = OpRecv a"
      "run_op op w = w\<lparr>heap := (heap w)(a := (heap w a)\<lparr>ch_buf := tl (ch_buf (heap w a))\<rparr>)\<rparr>"
  | (closed) "run_op op w = w\<lparr>hub := (hub w)\<lparr>subscribers := None\<rparr>,
      heap := close_chans (map fst (subs_of w)) (heap w)\<rparr>"
  | (setter) f where "run_op op w = w\<lparr>hub := f\<rparr>" "subscribers f = subscribers (hub w)"
      "draining f = draining (hub w)"
proof (cases op)
  case (OpSubscribe pred)
  then show ?thesis using subscribed refused by (cases "open_hub w") (simp_all add: SubscribeFilter_spec)
next
  case (OpUnsubscribe a)
  then show ?thesis
    using unsubscribed [of a] setter [of "hub w"] assms(1)
    by (cases "a \<in> fst ` set (subs_of w)") (simp_all add: Unsubscribe_spec)
next
  case (OpBroadcast ord msg)
  then show ?thesis using broadcast [of msg] sendAllLocked_spec [of w ord msg] assms by (simp add: Broadcast_def)
next
  case (OpRecv a)
  show ?thesis
  proof (cases "recvAt a w")
    case None
    then show ?thesis using OpRecv setter [of "hub w"] by simp
  next
    case (Some p)
    then obtain v w' where "recvAt a w = Some (v, w')" by (cases p) auto
    then show ?thesis using recv_heap [of a w v w'] OpRecv received [of a] by simp
  qed
next
  case (OpClose ord)
  then show ?thesis using closed Close_spec [of w ord] assms by simp
qed (use setter in \<open>simp_all add: OnSubscribe_def OnUnsubscribe_def OnDrop_def\<close>)

lemma run_op_ok:
  assumes "world_ok w" "op_ok op"
  shows "world_ok (run_op op w)"
  using assms
proof (cases rule: run_op_cases)
  case (received a)
  then show ?thesis
    using assms(1)
    by (auto simp: world_ok_def tracked_ok_def list_all_iff intro: le_trans [OF diff_le_self]
        split: if_splits)
next
  case closed
  then show ?thesis using closed_world_ok [OF assms(1)] by simp
next
  case (setter f)
  then show ?thesis using assms(1) by (simp add: world_ok_def tracked_ok_def subs_of_def)
qed (simp_all add: assms(1) after_subscribe_ok after_refused_ok untrack_ok after_broadcast_ok)

lemma open_hub_simps [simp]:
  "open_hub (w\<lparr>heap := h\<rparr>) = open_hub w"
  "open_hub (w\<lparr>nxt := n\<rparr>) = open_hub w"
  "open_hub (w\<lparr>calls := cs\<rparr>) = open_hub w"
  "open_hub (untrack a w) = open_hub w"
  by (simp_all add: open_hub_def deleteSub_def)

lemma drain_inv_op:
  assumes "drain_inv subs w" "op_ok op"
  shows "drain_inv subs (run_op op w)"
proof -
  have ok: "world_ok w" and closed: "\<not> open_hub w"
    and sub: "set (subs_of w) \<subseteq> as_entry ` set subs"
    and snap: "\<And>s. s \<in> set subs \<Longrightarrow> sub_ch s < nxt w \<and>
        (as_entry s \<in> set (subs_of w) \<or> ch_closed (heap w (sub_ch s)))"
    using assms(1) by (auto simp: drain_inv_def)
  have ok': "world_ok (run_op op w)" using run_op_ok [OF ok assms(2)] .
  show ?thesis
    using ok assms(2)
  proof (cases rule: run_op_cases)
    case refused
    then show ?thesis
      using ok' closed sub snap by (fastforce simp: drain_inv_def after_refused_def)
  next
    case (unsubscribed a cs)
    have "as_entry s \<in> set (subs_of (untrack a w)) \<or> ch_closed (heap (untrack a w) (sub_ch s))"
      if "s \<in> set subs" for s
      using snap [OF that] by (auto simp: subs_of_untrack as_entry_def)
    then show ?thesis
      using unsubscribed ok' closed sub snap by (auto simp: drain_inv_def subs_of_untrack)
  next
    case (broadcast msg)
    then show ?thesis
      using ok' closed sub snap
      by (auto simp: drain_inv_def open_hub_def after_broadcast_def deliver_keeps)
  next
    case (received a)
    then show ?thesis using ok' closed sub snap by (auto simp: drain_inv_def split: if_splits)
  next
    case closed
    have "ch_closed (close_chans (map fst (subs_of w)) (heap w) (sub_ch s))" if "s \<in> set subs" for s
      using snap [OF that] by (force simp: close_chans_def as_entry_def)
    then show ?thesis
      using closed ok' sub snap by (simp add: drain_inv_def subs_of_def open_hub_def)
  next
    case (setter f)
    then show ?thesis using ok' closed sub snap by (simp add: drain_inv_def subs_of_def open_hub_def)
  qed (use closed in simp)
qed

lemma drain_inv_ops: "drain_inv subs w \<Longrightarrow> list_all op_ok ops \<Longrightarrow> drain_inv subs (run_ops ops w)"
  by (induction ops arbitrary: w) (simp_all add: run_ops_def drain_inv_op)

text \<open>The world after \<open>n\<close> rounds of the drain loop, from round \<open>k\<close> on.\<close>

primrec rounds :: "'a env \<Rightarrow> nat \<Rightarrow> nat \<Rightarrow> 'a world \<Rightarrow> 'a world" where
  "rounds env k 0 w = w"
| "rounds env k (Suc n) w = rounds env (k + 1) n (run_ops (fst (env k)) w)"

definition env_ok :: "'a env \<Rightarrow> bool" where
  "env_ok env \<longleftrightarrow> (\<forall>k. list_all op_ok (fst (env k)))"

lemma drain_inv_rounds: "drain_inv subs w \<Longrightarrow> env_ok env \<Longrightarrow> drain_inv subs (rounds env k n w)"
  by (induction n arbitrary: k w) (simp_all add: env_ok_def drain_inv_ops)

lemma waitForDrain_returns:
  "(\<forall>j < n. snd (env (k + j)) = None) \<Longrightarrow> notDrained subs (rounds env k n w) = 0 \<Longrightarrow>
   \<exists>j \<le> n. waitForDrain env k subs w = Some (None, rounds env k j w) \<and>
     notDrained subs (rounds env k j w) = 0"
proof (induction n arbitrary: k w)
  case 0
  then show ?case by (simp add: waitForDrain.simps [of env k subs w])
next
  case (Suc n)
  show ?case
  proof (cases "notDrained subs w = 0")
    case True
    then show ?thesis
      by (intro exI [of _ 0]) (simp add: waitForDrain.simps [of env k subs w])
  next
    case False
    obtain ops where ops: "env k = (ops, None)" using Suc.prems(1) by (cases "env k") force
    have "\<forall>j < n. snd (env (k + 1 + j)) = None" using Suc.prems(1) by (metis Suc_less_eq add.assoc plus_1_eq_Suc)
    with Suc.IH [of "k + 1" "run_ops ops w"] Suc.prems(2) ops obtain j where
      "j \<le> n" "waitForDrain env (k + 1) subs (run_ops ops w) = Some (None, rounds env (k + 1) j (run_ops ops w))"
      "notDrained subs (rounds env (k + 1) j (run_ops ops w)) = 0" by auto
    then show ?thesis
      using False ops by (intro exI [of _ "Suc j"]) (simp add: waitForDrain.simps [of env k subs w])
  qed
qed

lemma waitForDrain_deadline:
  "(\<forall>j < n. snd (env (k + j)) = None) \<Longrightarrow> snd (env (k + n)) = Some e \<Longrightarrow>
   (\<forall>j \<le> n. notDrained subs (rounds env k j w) \<noteq> 0) \<Longrightarrow>
   waitForDrain env k subs w =
     Some (Some (drainError e (notDrained subs (rounds env k n w)) (length subs)), rounds env k (Suc n) w)"
proof (induction n arbitrary: k w)
  case 0
  then show ?case
    by (cases "env k") (simp add: waitForDrain.simps [of env k subs w])
next
  case (Suc n)
  obtain ops where ops: "env k = (ops, None)" using Suc.prems(1) by (cases "env k") force
  have "notDrained subs w \<noteq> 0" using Suc.prems(3) by (metis rounds.simps(1) zero_le)
  then have "waitForDrain env k subs w = waitForDrain env (k + 1) subs (run_ops ops w)"
    using ops by (simp add: waitForDrain.simps [of env k subs w])
  also have "\<dots> = Some (Some (drainError e (notDrained subs (rounds env (k + 1) n (run_ops ops w)))
      (length subs)), rounds env (k + 1) (Suc n) (run_ops ops w))"
  proof (rule Suc.IH)
    show "\<forall>j < n. snd (env (k + 1 + j)) = None"
      using Suc.prems(1) by (metis Suc_less_eq add.assoc plus_1_eq_Suc)
    show "snd (env (k + 1 + n)) = Some e" using Suc.prems(2) by simp
    show "\<forall>j \<le> n. notDrained subs (rounds env (k + 1) j (run_ops ops w)) \<noteq> 0"
      using Suc.prems(3) ops by (metis Suc_le_mono fst_conv rounds.simps(2))
  qed
  finally show ?case using ops by simp
qed

lemma closeTracked_spec:
  "world_ok w \<Longrightarrow>
   \<exists>f h. closeTracked subs w = (Ret (), w\<lparr>hub := f, heap := h\<rparr>) \<and>
     f\<lparr>subscribers := None\<rparr> = (hub w)\<lparr>subscribers := None\<rparr> \<and>
     (\<forall>a. h a = (if a \<in> sub_ch ` set subs \<and> a \<in> fst ` set (subs_of w)
        then (heap w a)\<lparr>ch_closed := True\<rparr> else heap w a))"
proof (induction subs arbitrary: w)
  case Nil
  then show ?case by (intro exI [of _ "hub w"] exI [of _ "heap w"]) simp
next
  case (Cons sub subs)
  show ?case
  proof (cases "map_of (subs_of w) (sub_ch sub)")
    case None
    then have "sub_ch sub \<notin> fst ` set (subs_of w)" by (simp add: map_of_eq_None_iff)
    then have eq: "a \<in> sub_ch ` set (sub # subs) \<and> a \<in> fst ` set (subs_of w) \<longleftrightarrow>
        a \<in> sub_ch ` set subs \<and> a \<in> fst ` set (subs_of w)" for a
      by (cases "a = sub_ch sub") simp_all
    have skip: "closeTracked (sub # subs) w = closeTracked subs w"
      using None by (simp add: lookupSub_subs)
    show ?thesis unfolding eq skip using Cons.IH [OF Cons.prems] .
  next
    case (Some s)
    then have k: "(sub_ch sub, s) \<in> set (subs_of w)" by (rule map_of_SomeD)
    let ?w = "untrack (sub_ch sub) w"
    have "sub_ch s = sub_ch sub" using world_okD(2) [OF Cons.prems k] by simp
    then have step: "closeTracked (sub # subs) w = closeTracked subs ?w"
      using closeAt_tracked [OF Cons.prems k] Some by (simp add: lookupSub_subs)
    obtain f h where fh: "closeTracked subs ?w = (Ret (), ?w\<lparr>hub := f, heap := h\<rparr>)"
        "f\<lparr>subscribers := None\<rparr> = (hub ?w)\<lparr>subscribers := None\<rparr>"
        "\<forall>a. h a = (if a \<in> sub_ch ` set subs \<and> a \<in> fst ` set (subs_of ?w)
          then (heap ?w a)\<lparr>ch_closed := True\<rparr> else heap ?w a)"
      using Cons.IH [OF untrack_ok [OF Cons.prems]] by blast
    have upd: "?w\<lparr>hub := f, heap := h\<rparr> = w\<lparr>hub := f, heap := h\<rparr>" by (simp add: untrack_def)
    have hh: "h a = (if a \<in> sub_ch ` set (sub # subs) \<and> a \<in> fst ` set (subs_of w)
        then (heap w a)\<lparr>ch_closed := True\<rparr> else heap w a)" for a
      using fh(3) [rule_format, of a] k by (auto simp: subs_of_untrack image_iff split: if_splits)
    have "closeTracked (sub # subs) w = (Ret (), w\<lparr>hub := f, heap := h\<rparr>)"
      unfolding step fh(1) upd ..
    moreover have "f\<lparr>subscribers := None\<rparr> = (hub w)\<lparr>subscribers := None\<rparr>" using fh(2) by simp
    ultimately show ?thesis using hh by blast
  qed
qed

lemma errorsIs_refl [simp]: "errorsIs e e"
  by (cases e) simp_all

definition start_drain :: "'a world \<Rightarrow> 'a world" where
  "start_drain w = w\<lparr>hub := (hub w)\<lparr>draining := True\<rparr>\<rparr>"

lemma start_drain_inv:
  assumes "world_ok w" "subscribers (hub w) = Some m" "order_ok ord"
  shows "shutdownBegin ord w = (Some (map snd (ord m)), start_drain w)"
    and "drain_inv (map snd (ord m)) (start_drain w)"
    and "notDrained (map snd (ord m)) w' = notDrained (map snd m) w'"
proof -
  have m: "subs_of w = m" "subs_of (start_drain w) = m"
    using assms(2) by (simp_all add: subs_of_def start_drain_def)
  show "shutdownBegin ord w = (Some (map snd (ord m)), start_drain w)"
    using assms(2) by (simp add: shutdownBegin_def start_drain_def)
  have entry: "as_entry s = (k, s) \<and> k < nxt w" if "(k, s) \<in> set m" for k s
    using world_okD(2) [OF assms(1)] that m by (simp add: as_entry_def)
  have "set m \<subseteq> as_entry ` set (map snd (ord m))"
    using entry order_okD(1) [OF assms(3)] by (force simp: image_image)
  moreover have "world_ok (start_drain w)"
    using assms(1) m by (simp add: world_ok_def tracked_ok_def start_drain_def)
  ultimately show "drain_inv (map snd (ord m)) (start_drain w)"
    using entry m order_okD(1) [OF assms(3)]
    by (force simp: drain_inv_def open_hub_def start_drain_def as_entry_def)
  show "notDrained (map snd (ord m)) w' = notDrained (map snd m) w'"
    using order_ok_filter [OF assms(3)] by (simp add: notDrained_def filter_map comp_def)
qed

lemma notDrained_zero:
  "notDrained subs w = 0 \<longleftrightarrow> (\<forall>s \<in> set subs. ch_buf (heap w (sub_ch s)) = [])"
  by (auto simp: notDrained_def lenChan_def filter_empty_conv)

lemma shutdownFinish_spec:
  assumes "drain_inv subs w" "notDrained subs w = 0"
  shows "\<exists>w'. shutdownFinish subs w = (Ret (), w') \<and> world_ok w' \<and>
    hub w' = (hub w)\<lparr>subscribers := None, draining := False\<rparr> \<and>
    (\<forall>s \<in> set subs. ch_closed (heap w' (sub_ch s)) \<and> ch_buf (heap w' (sub_ch s)) = [])"
proof -
  have ok: "world_ok w" using assms(1) by (simp add: drain_inv_def)
  obtain f h where fh: "closeTracked subs w = (Ret (), w\<lparr>hub := f, heap := h\<rparr>)"
      "f\<lparr>subscribers := None\<rparr> = (hub w)\<lparr>subscribers := None\<rparr>"
      "\<forall>a. h a = (if a \<in> sub_ch ` set subs \<and> a \<in> fst ` set (subs_of w)
        then (heap w a)\<lparr>ch_closed := True\<rparr> else heap w a)"
    using closeTracked_spec [OF ok] by blast
  have "f\<lparr>subscribers := None, draining := False\<rparr> = (f\<lparr>subscribers := None\<rparr>)\<lparr>draining := False\<rparr>"
    by simp
  then have f: "f\<lparr>subscribers := None, draining := False\<rparr> = (hub w)\<lparr>subscribers := None, draining := False\<rparr>"
    unfolding fh(2) by simp
  have "ch_closed (h (sub_ch s)) \<and> ch_buf (h (sub_ch s)) = []" if "s \<in> set subs" for s
  proof -
    have "ch_buf (heap w (sub_ch s)) = []" using assms(2) that by (simp add: notDrained_zero)
    moreover have "sub_ch s \<in> fst ` set (subs_of w) \<or> ch_closed (heap w (sub_ch s))"
      using assms(1) that by (force simp: drain_inv_def as_entry_def)
    ultimately show ?thesis using fh(3) that by auto
  qed
  moreover have "world_ok (w\<lparr>heap := h, hub := f\<lparr>subscribers := None, draining := False\<rparr>\<rparr>)"
    using ok fh(3) by (simp add: world_ok_def subs_of_def)
  ultimately show ?thesis using fh(1) f by (simp add: shutdownFinish_def)
qed


definition sample_env :: "nat env" where
  "sample_env k = (if k = 0 then [OpRecv 0, OpUnsubscribe 0] else [OpRecv 1], None)"


text \<open>
  C34. A shutdown whose context ends first returns an error that wraps the context's error and
  closes nothing: the world is what the other goroutines made of it since the drain began, and
  as long as none of them closed the hub it stays in the draining state.
\<close>

theorem Shutdown_deadline:
  assumes "world_ok w" "order_ok ord" "subscribers (hub w) = Some m"
    and "\<forall>j < n. snd (env j) = None" "snd (env n) = Some e"
    and "\<forall>j \<le> n. notDrained (map snd m) (rounds env 0 j (start_drain w)) \<noteq> 0"
  shows "\<exists>err. Shutdown ord env w = Some (Ret (Some err), rounds env 0 (n + 1) (start_drain w)) \<and>
    errorsIs err e"
proof -
  let ?subs = "map snd (ord m)"
  note st = start_drain_inv [OF assms(1,3,2)]
  have "waitForDrain env 0 ?subs (start_drain w) =
      Some (Some (drainError e (notDrained ?subs (rounds env 0 n (start_drain w))) (length ?subs)),
        rounds env 0 (Suc n) (start_drain w))"
    using assms(4-6) st(3) by (intro waitForDrain_deadline) simp_all
  then show ?thesis using st(1) by (simp add: Shutdown_def drainError_def)
qed

theorem Shutdown_deadline_witness:
  "\<exists>err w'. Shutdown rev (\<lambda>k. ([], Some ContextCanceled)) sample_world = Some (Ret (Some err), w') \<and>
     errorsIs err ContextCanceled"
proof -
  let ?m = "[(0, \<lparr>sub_ch = 0, sub_pred = Some sample_pred\<rparr>), (1, \<lparr>sub_ch = 1, sub_pred = None\<rparr>)]"
  show ?thesis
    using Shutdown_deadline [OF sample_world_ok order_ok_samples(1), of ?m 0
        "\<lambda>k. ([], Some ContextCanceled)" ContextCanceled]
    by (auto simp: sample_defs notDrained_zero start_drain_def)
qed

text \<open>Without a receive on it, a channel does not lose its messages.\<close>

lemma run_op_keeps_buffer:
  assumes "world_ok w" "op_ok op" "op \<noteq> OpRecv a" "a < nxt w" "ch_buf (heap w a) \<noteq> []"
  shows "ch_buf (heap (run_op op w) a) \<noteq> [] \<and> a < nxt (run_op op w)"
  using assms(1,2)
proof (cases rule: run_op_cases)
  case (broadcast msg)
  then show ?thesis
    using assms by (auto simp: after_broadcast_def deliver_def offer_def trySend_def split: option.splits)
qed (use assms in \<open>auto simp: after_subscribe_def after_refused_def close_chans_def\<close>)

lemma run_ops_keeps_buffer:
  "world_ok w \<Longrightarrow> list_all op_ok ops \<Longrightarrow> OpRecv a \<notin> set ops \<Longrightarrow> a < nxt w \<Longrightarrow> ch_buf (heap w a) \<noteq> [] \<Longrightarrow>
   ch_buf (heap (run_ops ops w) a) \<noteq> [] \<and> a < nxt (run_ops ops w)"
proof (induction ops arbitrary: w)
  case (Cons op ops)
  then have op: "op_ok op" "op \<noteq> OpRecv a" by auto
  show ?case
    using Cons.IH [of "run_op op w"] Cons.prems run_op_ok [OF Cons.prems(1) op(1)]
      run_op_keeps_buffer [OF Cons.prems(1) op Cons.prems(4,5)]
    by (simp add: run_ops_def)
qed (simp add: run_ops_def)

lemma run_ops_ok: "world_ok w \<Longrightarrow> list_all op_ok ops \<Longrightarrow> world_ok (run_ops ops w)"
  by (induction ops arbitrary: w) (simp_all add: run_ops_def run_op_ok)

definition drain_stuck :: "'a subscriber \<Rightarrow> 'a env \<Rightarrow> 'a subscriber list \<Rightarrow> 'a world \<Rightarrow> bool" where
  "drain_stuck s env subs w \<longleftrightarrow>
     env_ok env \<and> (\<forall>k. snd (env k) = None \<and> OpRecv (sub_ch s) \<notin> set (fst (env k))) \<and>
     s \<in> set subs \<and> world_ok w \<and> sub_ch s < nxt w \<and> ch_buf (heap w (sub_ch s)) \<noteq> []"

lemma waitForDrain_stuck:
  assumes "waitForDrain env k subs w = Some y"
  shows "\<not> drain_stuck s env subs w"
proof (rule waitForDrain.raw_induct [where P = "\<lambda>env k subs w y. \<not> drain_stuck s env subs w", OF _ assms])
  fix wfd :: "'a env \<Rightarrow> nat \<Rightarrow> 'a subscriber list \<Rightarrow> 'a world \<Rightarrow> (goerr option \<times> 'a world) option"
    and env k subs w y
  assume IH: "\<And>env k subs w y. wfd env k subs w = Some y \<Longrightarrow> \<not> drain_stuck s env subs w"
    and eq: "(if notDrained subs w = 0 then Some (None, w)
      else (case env k of
          (ops, Some ctxErr) \<Rightarrow>
            Some (Some (drainError ctxErr (notDrained subs w) (length subs)), run_ops ops w)
        | (ops, None) \<Rightarrow> wfd env (k + 1) subs (run_ops ops w))) = Some y"
  show "\<not> drain_stuck s env subs w"
  proof
    assume st: "drain_stuck s env subs w"
    then have "notDrained subs w \<noteq> 0" by (auto simp: drain_stuck_def notDrained_zero)
    moreover obtain ops where ops: "env k = (ops, None)" "OpRecv (sub_ch s) \<notin> set ops"
        "list_all op_ok ops"
      using st unfolding drain_stuck_def env_ok_def by (metis prod.collapse)
    ultimately have "wfd env (k + 1) subs (run_ops ops w) = Some y" using eq by simp
    then have "\<not> drain_stuck s env subs (run_ops ops w)" by (rule IH)
    then show False
      using st ops run_ops_ok [of w ops] run_ops_keeps_buffer [of w ops "sub_ch s"]
      by (simp add: drain_stuck_def)
  qed
qed

text \<open>
  C35. The drain also waits for subscribers that have left: when a subscriber of the snapshot has
  unread messages and nobody receives from its channel any more, \<open>Shutdown\<close> never returns
  without a deadline, even though \<open>Unsubscribe\<close> has removed that subscriber from the hub.
\<close>

theorem Shutdown_waits_for_departed:
  assumes "world_ok w" "order_ok ord" "subscribers (hub w) = Some m" "(a, s) \<in> set m"
    and "ch_buf (heap w a) \<noteq> []" "env_ok env"
    and "\<forall>k. snd (env k) = None \<and> OpRecv a \<notin> set (fst (env k))"
  shows "Shutdown ord env w = None"
proof -
  have "subs_of w = m" using assms(3) by (simp add: subs_of_def)
  then have a: "sub_ch s = a" "a < nxt w" using world_okD(2) [OF assms(1)] assms(4) by auto
  note st = start_drain_inv [OF assms(1,3,2)]
  have "s \<in> set (map snd (ord m))" using assms(4) order_okD(1) [OF assms(2)] by force
  moreover have "world_ok (start_drain w)" "a < nxt (start_drain w)" "ch_buf (heap (start_drain w) a) \<noteq> []"
    using st(2) a(2) assms(5) by (simp_all add: drain_inv_def start_drain_def)
  ultimately have "drain_stuck s env (map snd (ord m)) (start_drain w)"
    using assms(6,7) a(1) by (simp add: drain_stuck_def)
  then have "waitForDrain env 0 (map snd (ord m)) (start_drain w) = None"
    using waitForDrain_stuck [of env 0 "map snd (ord m)" "start_drain w"]
    by (cases "waitForDrain env 0 (map snd (ord m)) (start_drain w)") blast+
  then show ?thesis using st(1) by (simp add: Shutdown_def)
qed

theorem Shutdown_waits_for_departed_witness:
  "Shutdown rev (\<lambda>k. ([OpUnsubscribe 0, OpRecv 1], None)) sample_world = None"
  by (rule Shutdown_waits_for_departed [OF sample_world_ok order_ok_samples(1), of _ 0])
    (auto simp: sample_defs env_ok_def)

subsection \<open>Reachable hubs\<close>

text \<open>The options a caller can build: the fields of the hub are not exported.\<close>

definition hub_option :: "'a Option \<Rightarrow> bool" where
  "hub_option opt \<longleftrightarrow> (\<exists>n. opt = WithBufferSize n) \<or> (\<exists>fn. opt = WithOnDrop fn)"

lemma newFanOut_subscribers:
  "list_all hub_option opts \<Longrightarrow> subscribers (newFanOut opts) = Some [] \<and> \<not> draining (newFanOut opts)"
  by (induction opts rule: rev_induct)
    (auto simp: newFanOut_def hub_option_def WithBufferSize_def WithOnDrop_def split: if_splits)

lemma initWorld_ok: "list_all hub_option opts \<Longrightarrow> world_ok (initWorld opts)"
  using newFanOut_subscribers [of opts]
  by (simp add: world_ok_def initWorld_def NewBroadcaster_def subs_of_def)

text \<open>
  Whatever calls a program makes on a broadcaster it has created, in whatever order, its
  bookkeeping stays consistent: every tracked channel is allocated, open and registered once
  under its own address (so no send or close in the hub can hit a closed channel), and no
  buffer exceeds its capacity.
\<close>

lemma broadcaster_invariant:
  assumes "list_all hub_option opts" and "list_all op_ok ops"
  shows "world_ok (run_ops ops (initWorld opts))"
  using run_ops_ok [OF initWorld_ok [OF assms(1)] assms(2)] .

end
