(* ===== verification/Producer.thy ===== *)
theory Producer
  imports Replay Lifecycle
begin

text \<open>
  The producer of \<open>example/datastar/producer.go\<close>: random activity items, the events built from
  them in DataStar's keyed-line format, and the loop that numbers, stores and broadcasts them.
  Random draws and the clock are inputs.
\<close>

subsection \<open>Constants\<close>

definition nodeCount :: nat where "nodeCount = 20"
definition serviceCount :: nat where "serviceCount = 50"
definition endpointCount :: nat where "endpointCount = 10"
definition deployCount :: nat where "deployCount = 999"
definition sessionCount :: nat where "sessionCount = 9999"
definition taskCount :: nat where "taskCount = 500"
definition versionMinor :: nat where "versionMinor = 9"
definition versionPatch :: nat where "versionPatch = 9"
definition maxBuildSeconds :: nat where "maxBuildSeconds = 30"
definition maxStoredEvents :: nat where "maxStoredEvents = 50"

definition categoryAlert :: string where "categoryAlert = ''alert''"
definition categorySuccess :: string where "categorySuccess = ''success''"
definition categoryInfo :: string where "categoryInfo = ''info''"
definition eventPatchElements :: string where "eventPatchElements = ''datastar-patch-elements''"
definition eventPatchSignals :: string where "eventPatchSignals = ''datastar-patch-signals''"
definition badgeAlert :: string where "badgeAlert = ''ALERT''"
definition badgeSuccess :: string where "badgeSuccess = ''OK''"
definition badgeInfo :: string where "badgeInfo = ''INFO''"

lemmas producer_consts = categoryAlert_def categorySuccess_def categoryInfo_def
  eventPatchElements_def eventPatchSignals_def badgeAlert_def badgeSuccess_def badgeInfo_def

subsection \<open>Items\<close>

record activityItem =
  category :: string
  badge :: string
  message :: string
  time :: string

text \<open>
  A source of random draws. \<open>rand.IntN(n)\<close> returns some number below \<open>n\<close>: the next raw draw
  reduced modulo \<open>n\<close>, which covers every number below \<open>n\<close>.
\<close>

type_synonym rnd = "nat \<Rightarrow> nat"

definition randomN :: "nat \<Rightarrow> rnd \<Rightarrow> nat \<times> rnd" where
  "randomN n r = (r 0 mod n, \<lambda>i. r (i + 1))"

record msgTemplate =
  t_category :: string
  t_badge :: string
  gen :: "rnd \<Rightarrow> string \<times> rnd"

text \<open>\<open>fmt.Sprintf\<close> with one verb \<open>%d\<close> for a draw between 1 and \<open>n\<close>.\<close>

definition sprintOne :: "string \<Rightarrow> nat \<Rightarrow> string \<Rightarrow> rnd \<Rightarrow> string \<times> rnd" where
  "sprintOne pre n post r = (case randomN n r of (k, r) \<Rightarrow> (pre @ formatDecimal (k + 1) @ post, r))"

definition msgTemplates :: "msgTemplate list" where
  "msgTemplates =
     [\<lparr>t_category = categoryAlert, t_badge = badgeAlert,
       gen = sprintOne ''CPU usage above 90% on node-'' nodeCount []\<rparr>,
      \<lparr>t_category = categoryAlert, t_badge = badgeAlert,
       gen = sprintOne ''Disk space below 10% on node-'' nodeCount []\<rparr>,
      \<lparr>t_category = categoryAlert, t_badge = badgeAlert,
       gen = sprintOne ''Memory leak detected in service-'' serviceCount []\<rparr>,
      \<lparr>t_category = categoryAlert, t_badge = badgeAlert,
       gen = sprintOne ''Response time exceeding SLA on endpoint-'' endpointCount []\<rparr>,
      \<lparr>t_category = categorySuccess, t_badge = badgeSuccess,
       gen = sprintOne ''Deploy #'' deployCount '' passed all checks''\<rparr>,
      \<lparr>t_category = categorySuccess, t_badge = badgeSuccess,
       gen = (\<lambda>r. case randomN versionMinor r of (minor, r) \<Rightarrow>
         (case randomN versionPatch r of (patch, r) \<Rightarrow>
           (''Migration v1.'' @ formatDecimal minor @ ''.'' @ formatDecimal patch @
            '' applied successfully'', r)))\<rparr>,
      \<lparr>t_category = categorySuccess, t_badge = badgeSuccess,
       gen = (\<lambda>r. case randomN deployCount r of (build, r) \<Rightarrow>
         (case randomN maxBuildSeconds r of (secs, r) \<Rightarrow>
           (''Build #'' @ formatDecimal (build + 1) @ '' completed in '' @ formatDecimal (secs + 1) @
            ''s'', r)))\<rparr>,
      \<lparr>t_category = categorySuccess, t_badge = badgeSuccess,
       gen = sprintOne ''Health check passed for service-'' serviceCount []\<rparr>,
      \<lparr>t_category = categoryInfo, t_badge = badgeInfo,
       gen = sprintOne ''User session-'' sessionCount '' started''\<rparr>,
      \<lparr>t_category = categoryInfo, t_badge = badgeInfo,
       gen = sprintOne ''Cache invalidated for region-'' endpointCount []\<rparr>,
      \<lparr>t_category = categoryInfo, t_badge = badgeInfo,
       gen = sprintOne ''Scheduled task-'' taskCount '' completed''\<rparr>,
      \<lparr>t_category = categoryInfo, t_badge = badgeInfo,
       gen = sprintOne ''Configuration reloaded for service-'' serviceCount []\<rparr>]"

text \<open>The wall clock, and \<open>Format("15:04:05")\<close>: hours, minutes and seconds in two digits each.\<close>

record clock =
  hour :: nat
  minute :: nat
  second :: nat

definition pad2 :: "nat \<Rightarrow> string" where
  "pad2 n = (if n < 10 then CHR ''0'' # formatDecimal n else formatDecimal n)"

definition formatClock :: "clock \<Rightarrow> string" where
  "formatClock c = pad2 (hour c) @ '':'' @ pad2 (minute c) @ '':'' @ pad2 (second c)"

definition generateItem :: "clock \<Rightarrow> rnd \<Rightarrow> activityItem \<times> rnd" where
  "generateItem now r =
     (case randomN (length msgTemplates) r of (i, r) \<Rightarrow>
        (case gen (msgTemplates ! i) r of (msg, r) \<Rightarrow>
           (\<lparr>category = t_category (msgTemplates ! i), badge = t_badge (msgTemplates ! i), message = msg,
             time = formatClock now\<rparr>, r)))"

subsection \<open>Events\<close>

definition feedItemHTML :: "activityItem \<Rightarrow> string" where
  "feedItemHTML item =
     ''<div class=\"feed-item feed-item--'' @ category item @ ''\"><span class=\"feed-item__badge\">'' @
     badge item @ ''</span><span class=\"feed-item__message\">'' @ message item @
     ''</span><span class=\"feed-item__time\">'' @ time item @ ''</span></div>''"

definition feedItemEvent :: "'i \<Rightarrow> activityItem \<Rightarrow> 'i Event" where
  "feedItemEvent i item =
     (let data = Join [''selector #feed'', ''mode prepend'', ''category '' @ category item,
                       KeyedLines ''elements'' (feedItemHTML item)] [LF]
      in \<lparr>ev_Event = eventPatchElements, ev_Data = data, ev_ID = i, ev_Retry = 0\<rparr>)"

definition countEvent :: "'i brandid \<Rightarrow> nat \<Rightarrow> 'i Event" where
  "countEvent B n =
     \<lparr>ev_Event = eventPatchSignals,
      ev_Data = KeyedLines ''signals'' (''{\"subscriberCount\":'' @ formatDecimal n @ ''}''),
      ev_ID = zeroID B, ev_Retry = 0\<rparr>"

definition replayEvent :: "'i brandid \<Rightarrow> nat \<Rightarrow> 'i Event" where
  "replayEvent B n =
     \<lparr>ev_Event = eventPatchSignals,
      ev_Data = KeyedLines ''signals'' (''{\"replayed\":'' @ formatDecimal n @ ''}''),
      ev_ID = zeroID B, ev_Retry = 0\<rparr>"

text \<open>An \<open>int64\<close> is a 64-bit word read as a signed number.\<close>

type_synonym int64 = "64 word"

definition totalEventSignal :: "'i brandid \<Rightarrow> int64 \<Rightarrow> 'i Event" where
  "totalEventSignal B n =
     \<lparr>ev_Event = eventPatchSignals,
      ev_Data = KeyedLines ''signals'' (''{\"totalEvents\":'' @ FormatInt (sint n) @ ''}''),
      ev_ID = zeroID B, ev_Retry = 0\<rparr>"

subsection \<open>The loop\<close>

text \<open>
  The server's broadcaster (in its world of channels) and store, and what is local to the
  producer: the count of events and the source of random draws.
\<close>

record 'i activity =
  act_world :: "'i Event world"
  act_store :: "'i memStore"

record producer =
  total :: int64
  draws :: rnd

definition emit ::
    "'i brandid \<Rightarrow> (nat \<Rightarrow> 'i Event order) \<Rightarrow> clock \<Rightarrow> producer \<Rightarrow> 'i activity \<Rightarrow>
     unit outcome \<times> producer \<times> 'i activity" where
  "emit B ords now p a =
     (let n = total p + 1;
          (item, r) = generateItem now (draws p);
          evt = feedItemEvent (NewEventID B (FormatInt (sint n))) item;
          store = Append (act_store a) evt
      in case BroadcastMany ords [evt, totalEventSignal B n] (act_world a) of
           (res, w) \<Rightarrow> (res, \<lparr>total = n, draws = r\<rparr>, \<lparr>act_world = w, act_store = store\<rparr>))"

text \<open>
  What happens while the producer waits for its ticker: the calls of other goroutines on the
  broadcaster, the time of the tick, and whether the context was cancelled instead.
\<close>

record 'i tick =
  tk_ops :: "'i Event hub_op list"
  tk_now :: clock
  tk_done :: bool

partial_function (option) producerLoop ::
    "'i brandid \<Rightarrow> (nat \<Rightarrow> 'i Event order) \<Rightarrow> (nat \<Rightarrow> 'i tick) \<Rightarrow> nat \<Rightarrow> producer \<Rightarrow> 'i activity \<Rightarrow>
     (unit outcome \<times> producer \<times> 'i activity) option" where
  "producerLoop B ords env k p a =
     (let a = a\<lparr>act_world := run_ops (tk_ops (env k)) (act_world a)\<rparr>
      in if tk_done (env k) then Some (Ret (), p, a)
         else (case emit B ords (tk_now (env k)) p a of
             (Panic m, p, a) \<Rightarrow> Some (Panic m, p, a)
           | (Ret _, p, a) \<Rightarrow> producerLoop B ords env (k + 1) p a))"

definition startProducer ::
    "'i brandid \<Rightarrow> (nat \<Rightarrow> 'i Event order) \<Rightarrow> clock \<Rightarrow> (nat \<Rightarrow> 'i tick) \<Rightarrow> rnd \<Rightarrow> 'i activity \<Rightarrow>
     (unit outcome \<times> producer \<times> 'i activity) option" where
  "startProducer B ords now env r a =
     (case emit B ords now \<lparr>total = 0, draws = r\<rparr> a of
        (Panic m, p, a) \<Rightarrow> Some (Panic m, p, a)
      | (Ret _, p, a) \<Rightarrow> producerLoop B ords env 0 p a)"

subsection \<open>What the producer does\<close>

text \<open>The events of a run, one per time, numbered from \<open>k\<close> on.\<close>

fun feed :: "'i brandid \<Rightarrow> rnd \<Rightarrow> nat \<Rightarrow> clock list \<Rightarrow> 'i Event list" where
  "feed B r k [] = []"
| "feed B r k (now # nows) =
     (case generateItem now r of (item, r') \<Rightarrow>
        feedItemEvent (NewEventID B (FormatInt (int k))) item # feed B r' (k + 1) nows)"

text \<open>The same run as calls on the broadcaster, between those of other goroutines.\<close>

definition emission :: "'i brandid \<Rightarrow> (nat \<Rightarrow> 'i Event order) \<Rightarrow> nat \<Rightarrow> 'i Event \<Rightarrow> 'i Event hub_op list" where
  "emission B ords k e = [OpBroadcast (ords 0) e, OpBroadcast (ords 1) (totalEventSignal B (of_nat k))]"

fun producer_ops ::
    "'i brandid \<Rightarrow> (nat \<Rightarrow> 'i Event order) \<Rightarrow> (nat \<Rightarrow> 'i tick) \<Rightarrow> nat \<Rightarrow> nat \<Rightarrow> 'i Event list \<Rightarrow> 'i Event hub_op list" where
  "producer_ops B ords env j k [] = tk_ops (env j)"
| "producer_ops B ords env j k (e # es) =
     tk_ops (env j) @ emission B ords k e @ producer_ops B ords env (j + 1) (k + 1) es"

lemma run_ops_append [simp]: "run_ops (xs @ ys) w = run_ops ys (run_ops xs w)"
  by (simp add: run_ops_def)

lemma sint_of_nat64: "int n < 2 ^ 63 \<Longrightarrow> sint (of_nat n :: int64) = int n"
  by (simp add: signed_of_nat signed_take_bit_int_eq_self)

lemma emit_spec:
  assumes "world_ok (act_world a)" "\<forall>i. order_ok (ords i)" "total p = of_nat k" "int k + 1 < 2 ^ 63"
  shows "\<exists>r. emit B ords now p a = (Ret (), \<lparr>total = of_nat (k + 1), draws = r\<rparr>,
      \<lparr>act_world = run_ops (emission B ords (k + 1) (hd (feed B (draws p) (k + 1) [now]))) (act_world a),
       act_store = Append (act_store a) (hd (feed B (draws p) (k + 1) [now]))\<rparr>) \<and>
    feed B (draws p) (k + 1) (now # nows) = hd (feed B (draws p) (k + 1) [now]) # feed B r (k + 2) nows"
proof -
  obtain item r where g: "generateItem now (draws p) = (item, r)" by force
  have n: "total p + 1 = of_nat (k + 1)" using assms(3) by simp
  have "sint (of_nat (k + 1) :: int64) = int (k + 1)" using assms(4) by (intro sint_of_nat64) simp
  moreover have "run_ops (emission B ords (k + 1) e) (act_world a) =
      fold after_broadcast [e, totalEventSignal B (of_nat (k + 1))] (act_world a)" for e
    using sendAllLocked_spec [OF assms(1), of "ords 0" e]
      sendAllLocked_spec [OF after_broadcast_ok [OF assms(1), of e], of "ords 1"] assms(2)
    by (simp add: emission_def run_ops_def Broadcast_def)
  ultimately show ?thesis
    using g BroadcastMany_spec [OF assms(1,2)] unfolding emit_def Let_def n
    by (intro exI [of _ r]) (simp add: g numeral_2_eq_2 del: BroadcastMany.simps)
qed

abbreviation ticks :: "(nat \<Rightarrow> 'i tick) \<Rightarrow> nat \<Rightarrow> nat \<Rightarrow> clock list" where
  "ticks env j n \<equiv> map (\<lambda>i. tk_now (env i)) [j..<j + n]"

definition ticker_ok :: "(nat \<Rightarrow> 'i Event order) \<Rightarrow> (nat \<Rightarrow> 'i tick) \<Rightarrow> bool" where
  "ticker_ok ords env \<longleftrightarrow> (\<forall>i. order_ok (ords i)) \<and> (\<forall>k. list_all op_ok (tk_ops (env k)))"

lemma emission_ok: "\<forall>i. order_ok (ords i) \<Longrightarrow> list_all op_ok (emission B ords k e)"
  by (simp add: emission_def)

lemma producerLoop_spec:
  assumes "ticker_ok ords env"
  shows "world_ok (act_world a) \<Longrightarrow> total p = of_nat k \<Longrightarrow> int (k + n) < 2 ^ 63 \<Longrightarrow>
    \<forall>i < n. \<not> tk_done (env (j + i)) \<Longrightarrow> tk_done (env (j + n)) \<Longrightarrow>
    \<exists>p'. producerLoop B ords env j p a = Some (Ret (), p',
        \<lparr>act_world = run_ops (producer_ops B ords env j (k + 1) (feed B (draws p) (k + 1) (ticks env j n))) (act_world a),
         act_store = foldl Append (act_store a) (feed B (draws p) (k + 1) (ticks env j n))\<rparr>) \<and>
      total p' = of_nat (k + n)"
proof (induction n arbitrary: a p j k)
  case 0
  then show ?case by (subst producerLoop.simps) simp
next
  case (Suc n)
  have ok: "\<forall>i. order_ok (ords i)" "list_all op_ok (tk_ops (env j))"
    using assms by (simp_all add: ticker_ok_def)
  let ?a = "a\<lparr>act_world := run_ops (tk_ops (env j)) (act_world a)\<rparr>"
  have w: "world_ok (act_world ?a)" using run_ops_ok [OF Suc.prems(1) ok(2)] by simp
  have "int k + 1 < 2 ^ 63" using Suc.prems(3) by simp
  from emit_spec [OF w ok(1) Suc.prems(2) this, of B "tk_now (env j)" "ticks env (j + 1) n"]
  obtain r e where e: "emit B ords (tk_now (env j)) p ?a = (Ret (), \<lparr>total = of_nat (k + 1), draws = r\<rparr>,
      \<lparr>act_world = run_ops (emission B ords (k + 1) e) (act_world ?a), act_store = Append (act_store ?a) e\<rparr>)"
    "feed B (draws p) (k + 1) (tk_now (env j) # ticks env (j + 1) n) = e # feed B r (k + 2) (ticks env (j + 1) n)"
    by blast
  define a1 where "a1 = \<lparr>act_world = run_ops (emission B ords (k + 1) e) (act_world ?a), act_store = Append (act_store ?a) e\<rparr>"
  have w1: "world_ok (act_world a1)"
    using run_ops_ok [OF w emission_ok [OF ok(1)]] by (simp add: a1_def)
  have done0: "\<not> tk_done (env j)" "\<forall>i < n. \<not> tk_done (env (j + 1 + i))" "tk_done (env (j + 1 + n))"
    using Suc.prems(4,5) by (auto dest: spec [of _ 0] spec [of _ "Suc _"])
  have step: "producerLoop B ords env j p a = producerLoop B ords env (j + 1) \<lparr>total = of_nat (k + 1), draws = r\<rparr> a1"
    using done0(1) e(1) by (subst producerLoop.simps) (simp add: Let_def a1_def)
  have upt: "[j..<j + Suc n] = j # [j + 1..<j + 1 + n]" by (simp add: upt_rec)
  have "int (k + 1 + n) < 2 ^ 63" using Suc.prems(3) by simp
  from Suc.IH [OF w1 _ this done0(2,3), of "\<lparr>total = of_nat (k + 1), draws = r\<rparr>"] show ?case
    unfolding step upt list.map e(2) by (simp add: a1_def)
qed

lemma feed_ids:
  "brandid_ok B \<Longrightarrow>
   map (\<lambda>e. GetID B (ev_ID e)) (feed B r k nows) = map (\<lambda>i. FormatInt (int i)) [k..<k + length nows]"
  by (induction B r k nows rule: feed.induct)
    (auto simp: feedItemEvent_def NewEventID_def brandid_okD upt_conv_Cons split: prod.split simp del: upt_Suc)

lemma length_feed [simp]: "length (feed B r k nows) = length nows"
  by (induction B r k nows rule: feed.induct) (auto split: prod.split)

lemma feed_seq:
  assumes "brandid_ok B" "int (k + length nows) \<le> 2 ^ 63" "e \<in> set (feed B r k nows)"
  shows "Atoi (GetID B (ev_ID e)) = Inr (seqOf B e)"
proof -
  have "GetID B (ev_ID e) \<in> set (map (\<lambda>e. GetID B (ev_ID e)) (feed B r k nows))" using assms(3) by simp
  then obtain i where "GetID B (ev_ID e) = FormatInt (int i)" "i < k + length nows"
    unfolding feed_ids [OF assms(1)] by auto
  then have "Atoi (GetID B (ev_ID e)) = Inr (int i)" using assms(2) by (simp add: Atoi_FormatInt)
  then show ?thesis by (simp add: seqOf_def)
qed

lemma feed_positions:
  assumes "brandid_ok B" "int (k + length nows) \<le> 2 ^ 63"
  shows "map (seqOf B) (feed B r k nows) = map int [k..<k + length nows]"
proof (rule nth_equalityI)
  fix i assume i: "i < length (map (seqOf B) (feed B r k nows))"
  have "map (\<lambda>e. GetID B (ev_ID e)) (feed B r k nows) ! i = FormatInt (int (k + i))"
    unfolding feed_ids [OF assms(1)] using i by simp
  then show "map (seqOf B) (feed B r k nows) ! i = map int [k..<k + length nows] ! i"
    using i assms(2) by (simp add: seqOf_def Atoi_FormatInt)
qed simp

lemma feed_numbered:
  assumes "brandid_ok B" "int (k + length nows) \<le> 2 ^ 63"
  shows "numbered B (foldl Append (newMemStore c) (feed B r k nows))"
proof -
  have "sorted_wrt (<) (map (seqOf B) (feed B r k nows))"
    unfolding feed_positions [OF assms] by (simp add: sorted_wrt_map)
  then show ?thesis
    using feed_seq [OF assms]
    by (auto simp: numbered_def foldl_Append drop_map [symmetric] sorted_wrt_drop list_all_iff dest: in_set_dropD)
qed


definition sample_ticks :: "nat \<Rightarrow> string tick" where
  "sample_ticks k =
     \<lparr>tk_ops = [OpSubscribe None], tk_now = \<lparr>hour = 9, minute = 30, second = k\<rparr>, tk_done = (k = 2)\<rparr>"


subsection \<open>What a client sees of an item\<close>

lemma KeyedLines_single: "no_eol v \<Longrightarrow> v \<noteq> [] \<Longrightarrow> KeyedLines key v = key @ SP # v"
  by (simp add: KeyedLines_Join data_lines_def lines_at_eof_no_eol JoinLines_def)

text \<open>A substring that starts with a character the prefix does not have is not in the prefix.\<close>

lemma Contains_skip: "hd sub \<notin> set ds \<Longrightarrow> sub \<noteq> [] \<Longrightarrow> Contains (ds @ r) sub = Contains r sub"
proof (induction ds)
  case (Cons d ds)
  then have "\<not> HasPrefix (d # ds @ r) sub" by (cases sub) auto
  with Cons show ?case by auto
qed simp

lemma formatDecimal_chars: "c \<in> set (formatDecimal n) \<Longrightarrow> isDigit c"
  using formatDecimal_digits [of n] by (simp add: list_all_iff)

lemma Contains_decimal [simp]:
  "Contains (formatDecimal n @ r) (c # sub) = Contains r (c # sub)" if "\<not> isDigit c"
  using that formatDecimal_chars by (intro Contains_skip) auto

lemma formatDecimal_no_eol [simp]: "no_eol (formatDecimal n)"
  by (rule isDigit_no_eol) (rule formatDecimal_digits)

lemma not_digit [simp]: "\<not> isDigit (CHR ''c'')"
  by (simp add: isDigit_def)

lemmas gen_simps = msgTemplates_def sprintOne_def randomN_def producer_consts

text \<open>No message and no time can hide the needle of the alert filter.\<close>

lemma template_message:
  assumes "t \<in> set msgTemplates"
  shows "Contains (fst (gen t r) @ CHR ''<'' # rest) ''category alert'' = Contains rest ''category alert''"
    and "no_eol (fst (gen t r))"
    and "t_category t = ''alert'' \<or> t_category t = ''success'' \<or> t_category t = ''info''"
    and "no_eol (t_badge t) \<and> Contains (t_badge t @ CHR ''<'' # rest) ''category alert'' = Contains rest ''category alert''"
  using assms by (auto simp: gen_simps)

lemma pad2_chars:
  "no_eol (pad2 n)" "Contains (pad2 n @ s) ''category alert'' = Contains s ''category alert''"
  by (auto simp: pad2_def)

lemma clock_chars:
  "no_eol (formatClock now)"
  "Contains (formatClock now @ CHR ''<'' # rest) ''category alert'' = Contains rest ''category alert''"
  by (simp_all add: formatClock_def pad2_chars)

definition generated :: "activityItem \<Rightarrow> bool" where
  "generated item \<longleftrightarrow> (\<exists>t \<in> set msgTemplates. \<exists>r now.
     item = \<lparr>category = t_category t, badge = t_badge t, message = fst (gen t r), time = formatClock now\<rparr>)"

lemma generateItem_generated: "generated (fst (generateItem now r))"
proof -
  have "r 0 mod length msgTemplates < length msgTemplates" by (simp add: msgTemplates_def)
  then have "msgTemplates ! (r 0 mod length msgTemplates) \<in> set msgTemplates" by (rule nth_mem)
  then show ?thesis
    unfolding generated_def generateItem_def randomN_def
    by (auto simp: split_beta intro!: bexI)
qed

lemma generated_html:
  assumes "generated item"
  shows "no_eol (feedItemHTML item)" "feedItemHTML item \<noteq> []" "no_eol (category item)" "category item \<noteq> []"
proof -
  obtain t r now where t: "t \<in> set msgTemplates"
    "item = \<lparr>category = t_category t, badge = t_badge t, message = fst (gen t r), time = formatClock now\<rparr>"
    using assms by (auto simp: generated_def)
  note m = template_message [OF t(1)] clock_chars [of now]
  show "no_eol (feedItemHTML item)" "feedItemHTML item \<noteq> []" "no_eol (category item)" "category item \<noteq> []"
    using m(2-5) unfolding t(2) by (auto simp: feedItemHTML_def)
qed

text \<open>The lines a DataStar client gets of a feed event.\<close>

definition feed_lines :: "activityItem \<Rightarrow> string list" where
  "feed_lines item =
     [''selector #feed'', ''mode prepend'', ''category '' @ category item, ''elements '' @ feedItemHTML item]"

lemma feed_event_data:
  assumes "generated item"
  shows "ev_Data (feedItemEvent i item) = Join (feed_lines item) [LF]"
    and "data_lines (ev_Data (feedItemEvent i item)) = feed_lines item"
proof -
  note h = generated_html [OF assms]
  show d: "ev_Data (feedItemEvent i item) = Join (feed_lines item) [LF]"
    using h by (simp add: feedItemEvent_def feed_lines_def KeyedLines_single)
  have "lines_at_eof (Join (feed_lines item) [LF]) = feed_lines item"
    using h by (intro lines_at_eof_Join) (auto simp: feed_lines_def)
  then show "data_lines (ev_Data (feedItemEvent i item)) = feed_lines item"
    unfolding d by (simp add: data_lines_def feed_lines_def)
qed

lemma feed_alert:
  assumes "generated item"
  shows "Contains (ev_Data (feedItemEvent i item)) ''category alert'' \<longleftrightarrow> category item = ''alert''"
proof -
  obtain t r now where t: "t \<in> set msgTemplates"
    "item = \<lparr>category = t_category t, badge = t_badge t, message = fst (gen t r), time = formatClock now\<rparr>"
    using assms by (auto simp: generated_def)
  note m = template_message [OF t(1)]
  have "\<not> Contains (''elements '' @ feedItemHTML item) ''category alert''"
    using m(3) unfolding t(2) feedItemHTML_def
    by (auto simp: m(1) clock_chars m(4) [THEN conjunct2])
  then show ?thesis
    using m(3) unfolding feed_event_data(1) [OF assms] by (auto simp: feed_lines_def t(2))
qed

lemma signals_lines: "no_eol v \<Longrightarrow> v \<noteq> [] \<Longrightarrow> data_lines (KeyedLines ''signals'' v) = [''signals '' @ v]"
  by (simp add: KeyedLines_single data_lines_def lines_at_eof_no_eol)

lemma meta_lines:
  assumes "brandid_ok B"
  shows "event_lines B (replayEvent B n) =
      [''event: datastar-patch-signals'', ''data: signals {\"replayed\":'' @ formatDecimal n @ ''}'']"
    and "event_lines B (countEvent B n) =
      [''event: datastar-patch-signals'', ''data: signals {\"subscriberCount\":'' @ formatDecimal n @ ''}'']"
  using assms
  by (simp_all add: event_lines_def field_line_def replayEvent_def countEvent_def signals_lines
      eventPatchSignals_def brandid_okD)

end
