(* ===== verification/Readers.thy ===== *)
theory Readers
  imports Prelude
begin

text \<open>
  Input: the \<open>io.Reader\<close> interface as a locale, the byte source a reader of the library is
  given, and \<open>bomStripReader\<close> of \<open>sseparse/reader.go\<close>, which drops one leading byte-order
  mark. The byte source and \<open>bomStripReader\<close> on top of it are the two interpretations.
\<close>

subsection \<open>The interface\<close>

text \<open>
  \<open>Read(p)\<close> with \<open>len(p) = k\<close> returns the bytes put into \<open>p\<close>, an error and the reader's next
  state; \<open>None\<close> is a call that never returns (a live connection that sends nothing).
\<close>

type_synonym 'r read_fn = "nat \<Rightarrow> 'r \<Rightarrow> (string \<times> goerr option \<times> 'r) option"

datatype ending = Ends goerr | Blocks

text \<open>
  The contract a client needs: the bytes still to come (\<open>stream\<close>) and how they end
  (\<open>ending\<close>), and that reads hand out the stream in order, at least one byte per successful
  call, block only when nothing is left, and repeat their final error.
\<close>

locale io_reader =
  fixes read :: "'r read_fn"
    and stream :: "'r \<Rightarrow> string"
    and ending :: "'r \<Rightarrow> ending"
    and ready :: "'r \<Rightarrow> bool"
  assumes read_blocks: "ready r \<Longrightarrow> 0 < k \<Longrightarrow> read k r = None \<Longrightarrow> stream r = [] \<and> ending r = Blocks"
    and read_bytes: "ready r \<Longrightarrow> 0 < k \<Longrightarrow> read k r = Some (bs, e, r') \<Longrightarrow>
      stream r = bs @ stream r' \<and> length bs \<le> k \<and> ready r' \<and> ending r' = ending r"
    and read_progress: "ready r \<Longrightarrow> 0 < k \<Longrightarrow> read k r = Some (bs, None, r') \<Longrightarrow> bs \<noteq> []"
    and read_end: "ready r \<Longrightarrow> 0 < k \<Longrightarrow> read k r = Some (bs, Some x, r') \<Longrightarrow>
      stream r' = [] \<and> ending r = Ends x"
begin

lemma read_blocks_iff:
  assumes "ready r" "0 < k"
  shows "read k r = None \<longleftrightarrow> stream r = [] \<and> ending r = Blocks"
proof
  assume "stream r = [] \<and> ending r = Blocks"
  then show "read k r = None"
    using assms read_bytes [of r k] read_progress [of r k] read_end [of r k]
    by (cases "read k r") (auto, metis append_is_Nil_conv ending.distinct(1) not_None_eq)
qed (use assms read_blocks in blast)

end

subsection \<open>Byte sources\<close>

text \<open>
  The reader a caller passes to the library: a script of what its coming reads have to offer.
  \<open>Chunk c e\<close> offers the bytes \<open>c\<close>, with the error \<open>e\<close> on the read that takes the last of
  them; \<open>Block\<close> never returns; past the end of the script is the end of the file. A
  final error is repeated by later reads.
\<close>

datatype read_step = Chunk string "goerr option" | Block

type_synonym source = "read_step list"

fun source_Read :: "source read_fn" where
  "source_Read k [] = Some ([], Some EOF, [])"
| "source_Read k (Block # ss) = None"
| "source_Read k (Chunk c e # ss) =
     (if length c \<le> k
      then Some (c, e, (case e of None \<Rightarrow> ss | Some x \<Rightarrow> [Chunk [] (Some x)]))
      else Some (take k c, None, Chunk (drop k c) e # ss))"

fun source_stream :: "source \<Rightarrow> string" where
  "source_stream [] = []"
| "source_stream (Block # ss) = []"
| "source_stream (Chunk c e # ss) =
     c @ (case e of None \<Rightarrow> source_stream ss | Some x \<Rightarrow> [])"

fun source_ending :: "source \<Rightarrow> ending" where
  "source_ending [] = Ends EOF"
| "source_ending (Block # ss) = Blocks"
| "source_ending (Chunk c e # ss) =
     (case e of None \<Rightarrow> source_ending ss | Some x \<Rightarrow> Ends x)"

text \<open>No read returns zero bytes without an error.\<close>

fun source_ready :: "source \<Rightarrow> bool" where
  "source_ready [] = True"
| "source_ready (Block # ss) = True"
| "source_ready (Chunk c e # ss) =
     (case e of None \<Rightarrow> c \<noteq> [] \<and> source_ready ss | Some x \<Rightarrow> True)"

interpretation src: io_reader source_Read source_stream source_ending source_ready
proof
  fix r :: source and k :: nat
  assume "source_ready r" "0 < k" "source_Read k r = None"
  then show "source_stream r = [] \<and> source_ending r = Blocks"
    by (cases "(k, r)" rule: source_Read.cases) (auto split: if_splits)
next
  fix r r' :: source and k bs e
  assume *: "source_ready r" "0 < k" "source_Read k r = Some (bs, e, r')"
  show "source_stream r = bs @ source_stream r' \<and> length bs \<le> k \<and> source_ready r' \<and>
      source_ending r' = source_ending r"
    using * by (cases "(k, r)" rule: source_Read.cases) (auto split: if_splits option.splits)
next
  fix r r' :: source and k bs
  assume "source_ready r" "0 < k" "source_Read k r = Some (bs, None, r')"
  then show "bs \<noteq> []"
    by (cases "(k, r)" rule: source_Read.cases) (auto split: if_splits)
next
  fix r r' :: source and k bs x
  assume "source_ready r" "0 < k" "source_Read k r = Some (bs, Some x, r')"
  then show "source_stream r' = [] \<and> source_ending r = Ends x"
    by (cases "(k, r)" rule: source_Read.cases) (auto split: if_splits)
qed

subsection \<open>io.ReadFull\<close>

text \<open>
  \<open>io.ReadFull(r, buf)\<close> with \<open>len(buf) = want\<close>: read until \<open>want\<close> bytes have arrived or a
  read fails. An error that comes with the last wanted byte is dropped; an end of file after
  some bytes becomes \<open>ErrUnexpectedEOF\<close>.
\<close>

partial_function (option) ReadFull_loop ::
    "'r read_fn \<Rightarrow> nat \<Rightarrow> string \<Rightarrow> 'r \<Rightarrow> (string \<times> goerr option \<times> 'r) option" where
  "ReadFull_loop read want got r =
     (if length got < want then
        Option.bind (read (want - length got) r)
          (\<lambda>(bs, e, r'). case e of
              None \<Rightarrow> ReadFull_loop read want (got @ bs) r'
            | Some x \<Rightarrow> Some (got @ bs, Some x, r'))
      else Some (got, None, r))"

definition ReadFull :: "'r read_fn \<Rightarrow> nat \<Rightarrow> 'r \<Rightarrow> (string \<times> goerr option \<times> 'r) option" where
  "ReadFull read want r =
     Option.bind (ReadFull_loop read want [] r)
       (\<lambda>(got, e, r').
          Some (got,
            (if want \<le> length got then None
             else if got \<noteq> [] \<and> e = Some EOF then Some ErrUnexpectedEOF else e), r'))"

subsection \<open>bomStripReader\<close>

definition utf8BOM :: string where
  "utf8BOM = [CHR 0xEF, CHR 0xBB, CHR 0xBF]"

record 'r bomStripReader =
  bom_r :: 'r
  bom_pending :: string
  bom_checked :: bool
  bom_err :: "goerr option"

definition stripLeadingBOM :: "'r \<Rightarrow> 'r bomStripReader" where
  "stripLeadingBOM r = \<lparr>bom_r = r, bom_pending = [], bom_checked = False, bom_err = None\<rparr>"

definition probe :: "'r read_fn \<Rightarrow> 'r bomStripReader \<Rightarrow> 'r bomStripReader option" where
  "probe read b =
     Option.bind (ReadFull read (length utf8BOM) (bom_r b))
       (\<lambda>(head, err, r).
          let pending = bom_pending b @ head;
              pending = (if length head = length utf8BOM \<and> head = utf8BOM then [] else pending);
              berr = (case err of
                        None \<Rightarrow> bom_err b
                      | Some x \<Rightarrow>
                          if errorsIs x EOF \<or> errorsIs x ErrUnexpectedEOF then Some EOF
                          else Some x)
          in Some (b\<lparr>bom_r := r, bom_checked := True, bom_pending := pending, bom_err := berr\<rparr>))"

definition bom_Read :: "'r read_fn \<Rightarrow> 'r bomStripReader read_fn" where
  "bom_Read read k b =
     Option.bind (if \<not> bom_checked b then probe read b else Some b)
       (\<lambda>b. if bom_pending b \<noteq> [] then
              let n = min k (length (bom_pending b))
              in Some (take n (bom_pending b), None, b\<lparr>bom_pending := drop n (bom_pending b)\<rparr>)
            else (case bom_err b of
                Some err \<Rightarrow> Some ([], Some err, b\<lparr>bom_err := None\<rparr>)
              | None \<Rightarrow>
                  Option.bind (read k (bom_r b))
                    (\<lambda>(bs, e, r). Some (bs, e, b\<lparr>bom_r := r\<rparr>))))"

subsection \<open>bomStripReader keeps the reader contract\<close>

definition strip_bom :: "string \<Rightarrow> string" where
  "strip_bom s = TrimPrefix s utf8BOM"

text \<open>
  An error that is not \<open>io.EOF\<close> itself does not wrap an end-of-file error: such an error would
  be reported as \<open>io.EOF\<close> by the probe and as itself later.
\<close>

fun plain_end :: "ending \<Rightarrow> bool" where
  "plain_end Blocks = True"
| "plain_end (Ends x) = (x = EOF \<or> \<not> (errorsIs x EOF \<or> errorsIs x ErrUnexpectedEOF))"

definition bom_stream :: "('r \<Rightarrow> string) \<Rightarrow> ('r \<Rightarrow> ending) \<Rightarrow> 'r bomStripReader \<Rightarrow> string" where
  "bom_stream stream ending b =
     (if bom_checked b then bom_pending b @ stream (bom_r b)
      else if ending (bom_r b) = Blocks \<and> length (stream (bom_r b)) < 3 then []
      else strip_bom (stream (bom_r b)))"

definition bom_ending :: "('r \<Rightarrow> ending) \<Rightarrow> 'r bomStripReader \<Rightarrow> ending" where
  "bom_ending ending b = ending (bom_r b)"

definition bom_ready ::
    "('r \<Rightarrow> string) \<Rightarrow> ('r \<Rightarrow> ending) \<Rightarrow> ('r \<Rightarrow> bool) \<Rightarrow> 'r bomStripReader \<Rightarrow> bool" where
  "bom_ready stream ending ready b \<longleftrightarrow>
     ready (bom_r b) \<and> plain_end (ending (bom_r b)) \<and>
     (if bom_checked b
      then (\<forall>x. bom_err b = Some x \<longrightarrow> stream (bom_r b) = [] \<and> ending (bom_r b) = Ends x)
      else bom_pending b = [] \<and> bom_err b = None)"

context io_reader
begin

lemma ReadFull_loop_enough:
  "ready r \<Longrightarrow> length got \<le> want \<Longrightarrow> want \<le> length got + length (stream r) \<Longrightarrow>
   \<exists>got' e r'. ReadFull_loop read want got r = Some (got', e, r') \<and> length got' = want \<and>
     got @ stream r = got' @ stream r' \<and> ready r' \<and> ending r' = ending r"
proof (induction "length (stream r)" arbitrary: r got rule: less_induct)
  case less
  show ?case
  proof (cases "length got = want")
    case True
    then show ?thesis using less.prems by (subst ReadFull_loop.simps) auto
  next
    case False
    let ?k = "want - length got"
    have k: "0 < ?k" and ne: "stream r \<noteq> []" using False less.prems by auto
    then obtain bs e r' where rd: "read ?k r = Some (bs, e, r')"
      using read_blocks [of r ?k] less.prems(1) by (metis option.exhaust prod_cases3)
    note b = read_bytes [OF less.prems(1) k rd]
    have unf: "ReadFull_loop read want got r =
        (case e of None \<Rightarrow> ReadFull_loop read want (got @ bs) r'
         | Some x \<Rightarrow> Some (got @ bs, Some x, r'))"
      using False less.prems rd by (subst ReadFull_loop.simps) simp
    show ?thesis
    proof (cases e)
      case None
      then have "bs \<noteq> []" using read_progress less.prems(1) k rd by blast
      then show ?thesis
        using less.hyps [of r' "got @ bs"] b less.prems None by (auto simp: unf)
    next
      case (Some x)
      then have "stream r' = []" using read_end less.prems(1) k rd by blast
      then show ?thesis
        using b less.prems Some by (auto simp: unf)
    qed
  qed
qed

lemma ReadFull_loop_short:
  "ready r \<Longrightarrow> length got + length (stream r) < want \<Longrightarrow>
   (case ending r of
      Blocks \<Rightarrow> ReadFull_loop read want got r = None
    | Ends x \<Rightarrow> \<exists>r'. ReadFull_loop read want got r = Some (got @ stream r, Some x, r') \<and>
        stream r' = [] \<and> ready r' \<and> ending r' = ending r)"
proof (induction "length (stream r)" arbitrary: r got rule: less_induct)
  case less
  let ?k = "want - length got"
  have k: "0 < ?k" using less.prems by auto
  show ?case
  proof (cases "read ?k r")
    case None
    then have "stream r = [] \<and> ending r = Blocks" using read_blocks less.prems(1) k by blast
    then show ?thesis using None k by (subst ReadFull_loop.simps) simp
  next
    case (Some p)
    then obtain bs e r' where rd: "read ?k r = Some (bs, e, r')" by (metis prod_cases3)
    note b = read_bytes [OF less.prems(1) k rd]
    have unf: "ReadFull_loop read want got r =
        (case e of None \<Rightarrow> ReadFull_loop read want (got @ bs) r'
         | Some x \<Rightarrow> Some (got @ bs, Some x, r'))"
      using k rd by (subst ReadFull_loop.simps) simp
    show ?thesis
    proof (cases e)
      case None
      then have "bs \<noteq> []" using read_progress less.prems(1) k rd by blast
      then show ?thesis
        using less.hyps [of r' "got @ bs"] b less.prems None by (auto simp: unf split: ending.splits)
    next
      case (Some x)
      then have "stream r' = []" "ending r = Ends x" using read_end less.prems(1) k rd by blast+
      then show ?thesis using b less.prems Some by (auto simp: unf)
    qed
  qed
qed

abbreviation bstream where "bstream \<equiv> bom_stream stream ending"
abbreviation bending where "bending \<equiv> bom_ending ending"
abbreviation bready where "bready \<equiv> bom_ready stream ending ready"

lemma probe_reads_bom:
  assumes b: "bready b" "\<not> bom_checked b"
  shows "(probe read b = None \<and> bstream b = [] \<and> bending b = Blocks) \<or>
    (\<exists>b'. probe read b = Some b' \<and> bom_checked b' \<and> bready b' \<and> bstream b' = bstream b \<and>
       bending b' = bending b)"
proof -
  let ?r = "bom_r b"
  have r: "ready ?r" "plain_end (ending ?r)" "bom_pending b = []" "bom_err b = None"
    using b by (auto simp: bom_ready_def)
  have n: "length utf8BOM = 3" by (simp add: utf8BOM_def)
  show ?thesis
  proof (cases "3 \<le> length (stream ?r)")
    case True
    then obtain h e r' where h: "ReadFull_loop read 3 [] ?r = Some (h, e, r')" "length h = 3"
        "stream ?r = h @ stream r'" "ready r'" "ending r' = ending ?r"
      using ReadFull_loop_enough [OF r(1), of "[]" 3] by auto
    have "strip_bom (stream ?r) = (if h = utf8BOM then [] else h) @ stream r'"
      using h by (auto simp: strip_bom_def TrimPrefix_def HasPrefix_iff n)
    then show ?thesis
      using h r b(2) True
      by (auto simp: probe_def ReadFull_def n bom_stream_def bom_ending_def bom_ready_def)
  next
    case False
    note short = ReadFull_loop_short [OF r(1), of "[]" 3]
    show ?thesis
    proof (cases "ending ?r")
      case Blocks
      then show ?thesis
        using short False b(2)
        by (simp add: probe_def ReadFull_def n bom_stream_def bom_ending_def)
    next
      case (Ends x)
      with short False obtain r' where r': "ReadFull_loop read 3 [] ?r = Some (stream ?r, Some x, r')"
          "stream r' = []" "ready r'" "ending r' = ending ?r"
        by auto
      have "strip_bom (stream ?r) = stream ?r" "stream ?r \<noteq> utf8BOM"
        using False by (auto simp: strip_bom_def TrimPrefix_def HasPrefix_iff utf8BOM_def)
      then show ?thesis
        using r' r b(2) False Ends
        by (auto simp: probe_def ReadFull_def n bom_stream_def bom_ending_def bom_ready_def)
    qed
  qed
qed

lemma bom_Read_unchecked:
  "bready b \<Longrightarrow> \<not> bom_checked b \<Longrightarrow> probe read b = Some b' \<Longrightarrow> bom_checked b' \<Longrightarrow>
   bom_Read read k b = bom_Read read k b'"
  by (simp add: bom_Read_def)

lemma bom_Read_checked:
  assumes "bready b" "bom_checked b" "0 < k"
  shows "(bom_Read read k b = None \<longrightarrow> bstream b = [] \<and> bending b = Blocks) \<and>
    (\<forall>bs e b'. bom_Read read k b = Some (bs, e, b') \<longrightarrow>
       bstream b = bs @ bstream b' \<and> length bs \<le> k \<and> bready b' \<and> bending b' = bending b \<and>
       (e = None \<longrightarrow> bs \<noteq> []) \<and>
       (\<forall>x. e = Some x \<longrightarrow> bstream b' = [] \<and> bending b = Ends x))"
proof -
  have r: "ready (bom_r b)" using assms by (simp add: bom_ready_def)
  consider (pend) "bom_pending b \<noteq> []" | (err) x where "bom_pending b = []" "bom_err b = Some x"
    | (pass) "bom_pending b = []" "bom_err b = None" by blast
  then show ?thesis
  proof cases
    case pend
    then show ?thesis
      using assms by (auto simp: bom_Read_def Let_def bom_stream_def bom_ready_def bom_ending_def)
  next
    case err
    then show ?thesis
      using assms by (auto simp: bom_Read_def bom_stream_def bom_ready_def bom_ending_def)
  next
    case pass
    show ?thesis
    proof (cases "read k (bom_r b)")
      case None
      then show ?thesis
        using pass assms read_blocks [OF r assms(3)]
        by (simp add: bom_Read_def bom_stream_def bom_ending_def)
    next
      case (Some p)
      then obtain bs e r' where rd: "read k (bom_r b) = Some (bs, e, r')" by (metis prod_cases3)
      show ?thesis
        using pass assms rd read_bytes [OF r assms(3) rd] read_progress [OF r assms(3), of bs r']
          read_end [OF r assms(3), of bs _ r']
        by (auto simp: bom_Read_def bom_stream_def bom_ready_def bom_ending_def)
    qed
  qed
qed

lemma bom_reader: "io_reader (bom_Read read) bstream bending bready"
proof -
  have main: "(bom_Read read k b = None \<longrightarrow> bstream b = [] \<and> bending b = Blocks) \<and>
    (\<forall>bs e b'. bom_Read read k b = Some (bs, e, b') \<longrightarrow>
       bstream b = bs @ bstream b' \<and> length bs \<le> k \<and> bready b' \<and> bending b' = bending b \<and>
       (e = None \<longrightarrow> bs \<noteq> []) \<and>
       (\<forall>x. e = Some x \<longrightarrow> bstream b' = [] \<and> bending b = Ends x))"
    if "bready b" "0 < k" for b k
  proof (cases "bom_checked b")
    case True
    then show ?thesis using that bom_Read_checked by blast
  next
    case False
    show ?thesis
      using probe_reads_bom [OF that(1) False]
    proof
      assume "probe read b = None \<and> bstream b = [] \<and> bending b = Blocks"
      then show ?thesis using False by (simp add: bom_Read_def)
    next
      assume "\<exists>b'. probe read b = Some b' \<and> bom_checked b' \<and> bready b' \<and>
        bstream b' = bstream b \<and> bending b' = bending b"
      then obtain b' where b': "probe read b = Some b'" "bom_checked b'" "bready b'"
        "bstream b' = bstream b" "bending b' = bending b" by blast
      show ?thesis
        using bom_Read_checked [OF b'(3,2) that(2)] bom_Read_unchecked [OF that(1) False b'(1,2)] b'
        by simp
    qed
  qed
  show ?thesis
    by unfold_locales (use main in \<open>blast+\<close>)
qed

end

interpretation bom: io_reader "bom_Read source_Read" "bom_stream source_stream source_ending"
  "bom_ending source_ending" "bom_ready source_stream source_ending source_ready"
  by (rule src.bom_reader)

end
