(* ===== verification/Scanner.thy ===== *)
theory Scanner
  imports Readers Lines
begin

text \<open>
  \<open>bufio.Scanner\<close> as \<open>sseparse/reader.go\<close> uses it (a buffer of bounded size, a split
  function, the scan loop with its shifting, growing and error rules) and the split function
  \<open>splitSSELines\<close>. The contract of a split function is a locale; the scanner's behaviour is
  proved once from that contract and the reader's, whatever the sizes of the reads.
\<close>

subsection \<open>The scanner\<close>

text \<open>
  A split function gets the buffered bytes and whether they are all there will ever be, and
  returns how many bytes to consume, a token (\<open>None\<close> for Go's nil slice) and an error.
\<close>

type_synonym split_fn = "string \<Rightarrow> bool \<Rightarrow> nat \<times> string option \<times> goerr option"

text \<open>
  \<open>sc_len\<close> is \<open>len(s.buf)\<close>, \<open>sc_start\<close> is \<open>s.start\<close> and \<open>sc_win\<close> is \<open>s.buf[s.start:s.end]\<close>.
\<close>

record 'r scanner =
  sc_r :: 'r
  sc_max :: nat
  sc_len :: nat
  sc_start :: nat
  sc_win :: string
  sc_token :: "string option"
  sc_err :: "goerr option"
  sc_empties :: nat

definition maxInt :: nat where
  "maxInt = 2 ^ 63 - 1"

definition maxConsecutiveEmptyReads :: nat where
  "maxConsecutiveEmptyReads = 100"

definition setErr :: "goerr \<Rightarrow> 'r scanner \<Rightarrow> 'r scanner" where
  "setErr e s = (if sc_err s = None \<or> sc_err s = Some EOF then s\<lparr>sc_err := Some e\<rparr> else s)"

text \<open>\<open>Err\<close> hides the end of the file.\<close>

definition Scanner_Err :: "'r scanner \<Rightarrow> goerr option" where
  "Scanner_Err s = (if sc_err s = Some EOF then None else sc_err s)"

definition Scanner_Text :: "'r scanner \<Rightarrow> string" where
  "Scanner_Text s = (case sc_token s of None \<Rightarrow> [] | Some t \<Rightarrow> t)"

text \<open>First part of the loop body: try to get a token from the buffered bytes.\<close>

definition scan_try :: "split_fn \<Rightarrow> 'r scanner \<Rightarrow> (bool outcome \<times> 'r scanner) + 'r scanner" where
  "scan_try split s =
     (if sc_win s \<noteq> [] \<or> sc_err s \<noteq> None then
        (case split (sc_win s) (sc_err s \<noteq> None) of
           (adv, tok, Some e) \<Rightarrow> Inl (Ret False, setErr e s)
         | (adv, tok, None) \<Rightarrow>
             (if length (sc_win s) < adv then Inl (Ret False, setErr ErrAdvanceTooFar s)
              else
                let s1 = s\<lparr>sc_win := drop adv (sc_win s), sc_start := sc_start s + adv,
                  sc_token := tok\<rparr>
                in case tok of
                     None \<Rightarrow> Inr s1
                   | Some t \<Rightarrow>
                       (if sc_err s = None \<or> 0 < adv then Inl (Ret True, s1\<lparr>sc_empties := 0\<rparr>)
                        else
                          let s2 = s1\<lparr>sc_empties := sc_empties s1 + 1\<rparr>
                          in if maxConsecutiveEmptyReads < sc_empties s2
                             then Inl (Panic ''bufio.Scan: too many empty tokens'', s2)
                             else Inl (Ret True, s2))))
      else Inr s)"

text \<open>Second part: shift the bytes to the front, grow a full buffer, give up at the limit.\<close>

definition scan_room :: "'r scanner \<Rightarrow> 'r scanner + 'r scanner" where
  "scan_room s =
     (let s = (if 0 < sc_start s \<and>
                  (sc_start s + length (sc_win s) = sc_len s \<or> sc_len s div 2 < sc_start s)
               then s\<lparr>sc_start := 0\<rparr> else s)
      in if sc_start s + length (sc_win s) = sc_len s then
           (if sc_max s \<le> sc_len s \<or> maxInt div 2 < sc_len s then Inl (setErr ErrTooLong s)
            else
              let newSize = sc_len s * 2;
                  newSize = (if newSize = 0 then 4096 else newSize);
                  newSize = min newSize (sc_max s)
              in Inr (s\<lparr>sc_len := newSize, sc_start := 0\<rparr>))
         else Inr s)"

text \<open>Third part: read into the free space, tolerating some empty reads.\<close>

primrec scan_fill :: "'r read_fn \<Rightarrow> nat \<Rightarrow> 'r scanner \<Rightarrow> 'r scanner option" where
  "scan_fill read 0 s =
     Option.bind (read (sc_len s - (sc_start s + length (sc_win s))) (sc_r s))
       (\<lambda>(bs, e, r).
          let s1 = s\<lparr>sc_r := r, sc_win := sc_win s @ bs\<rparr>
          in case e of
               Some x \<Rightarrow> Some (setErr x s1)
             | None \<Rightarrow> if bs \<noteq> [] then Some (s1\<lparr>sc_empties := 0\<rparr>)
                       else Some (setErr ErrNoProgress s1))"
| "scan_fill read (Suc left) s =
     Option.bind (read (sc_len s - (sc_start s + length (sc_win s))) (sc_r s))
       (\<lambda>(bs, e, r).
          let s1 = s\<lparr>sc_r := r, sc_win := sc_win s @ bs\<rparr>
          in case e of
               Some x \<Rightarrow> Some (setErr x s1)
             | None \<Rightarrow> if bs \<noteq> [] then Some (s1\<lparr>sc_empties := 0\<rparr>)
                       else scan_fill read left s1)"

text \<open>
  \<open>Scan\<close>: the loop. \<open>None\<close> is a call that never returns.
\<close>

partial_function (option) Scan ::
    "'r read_fn \<Rightarrow> split_fn \<Rightarrow> 'r scanner \<Rightarrow> (bool outcome \<times> 'r scanner) option" where
  "Scan read split s =
     (case scan_try split s of
        Inl res \<Rightarrow> Some res
      | Inr s1 \<Rightarrow>
          (if sc_err s1 \<noteq> None then Some (Ret False, s1\<lparr>sc_start := 0, sc_win := []\<rparr>)
           else
             (case scan_room s1 of
                Inl s2 \<Rightarrow> Some (Ret False, s2)
              | Inr s2 \<Rightarrow>
                  Option.bind (scan_fill read maxConsecutiveEmptyReads s2)
                    (\<lambda>s3. Scan read split s3))))"

subsection \<open>The contract of a split function\<close>

text \<open>
  The laws the scanner relies on: a split function consumes no more than it was given,
  consumes something exactly when it returns a token, does not change its mind when more
  bytes arrive, and at the end of the input turns every rest into tokens.
\<close>

locale split_func =
  fixes split :: split_fn
  assumes split_ok: "split d eof = (a, tok, e) \<Longrightarrow> e = None \<and> a \<le> length d \<and> (tok = None \<longleftrightarrow> a = 0)"
    and split_stable: "split d False = (a, Some t, e) \<Longrightarrow> split (d @ x) eof = (a, Some t, e)"
    and split_eof: "d \<noteq> [] \<Longrightarrow> split d True \<noteq> (0, None, None)"
begin

lemma split_cases:
  obtains (token) a t where "split d eof = (a, Some t, None)" "0 < a" "a \<le> length d"
  | (none) "split d eof = (0, None, None)"
proof (cases "split d eof")
  case (fields a t e)
  then show ?thesis
    using split_ok [of d eof a t e] token none by (cases t) auto
qed

lemma split_empty: "split [] eof = (0, None, None)"
  by (cases rule: split_cases [of "[]" eof]) auto

lemma split_eof_token: "d \<noteq> [] \<Longrightarrow> \<exists>a t. split d True = (a, Some t, None) \<and> 0 < a \<and> a \<le> length d"
  by (cases rule: split_cases [of d True]) (auto dest: split_eof)

lemma split_take:
  "split (take n d) False = (a, Some t, e) \<Longrightarrow> split d eof = (a, Some t, e)"
  using split_stable [of "take n d" a t e "drop n d" eof] by simp

end

subsection \<open>splitSSELines\<close>

text \<open>The scan over the buffered bytes from index \<open>i\<close> on (\<open>for i := range data\<close>).\<close>

function splitSSELines_loop :: "string \<Rightarrow> bool \<Rightarrow> nat \<Rightarrow> nat \<times> string option \<times> goerr option" where
  "splitSSELines_loop data atEOF i =
     (if i < length data then
        (if data ! i = LF then (i + 1, Some (take i data), None)
         else if data ! i = CR then
           (if i + 1 < length data then
              (if data ! (i + 1) = LF then (i + 2, Some (take i data), None)
               else (i + 1, Some (take i data), None))
            else if atEOF then (i + 1, Some (take i data), None)
            else (0, None, None))
         else splitSSELines_loop data atEOF (i + 1))
      else if atEOF then (length data, Some data, None)
      else (0, None, None))"
  by pat_completeness auto
termination
  by (relation "measure (\<lambda>(data, eof, i). length data - i)") auto

declare splitSSELines_loop.simps [simp del]

definition splitSSELines :: split_fn where
  "splitSSELines data atEOF =
     (if atEOF \<and> data = [] then (0, None, None) else splitSSELines_loop data atEOF 0)"

lemma splitSSELines_loop_skip:
  assumes "no_eol l" "i \<le> length l"
  shows "splitSSELines_loop (l @ r) eof i = splitSSELines_loop (l @ r) eof (length l)"
  using assms(2)
proof (induction "length l - i" arbitrary: i)
  case 0
  then show ?case by simp
next
  case (Suc n)
  then have i: "i < length l" by simp
  then have "l ! i \<noteq> LF" "l ! i \<noteq> CR"
    using assms(1) by (auto simp: no_eol_def in_set_conv_nth)
  then have "splitSSELines_loop (l @ r) eof i = splitSSELines_loop (l @ r) eof (i + 1)"
    using i by (subst splitSSELines_loop.simps) (simp add: nth_append)
  also have "\<dots> = splitSSELines_loop (l @ r) eof (length l)"
    using Suc i by (intro Suc.hyps) auto
  finally show ?case .
qed

text \<open>The behaviour of the split function, by the first line of the buffered bytes.\<close>

lemma splitSSELines_LF:
  "no_eol l \<Longrightarrow> splitSSELines (l @ LF # r) eof = (length l + 1, Some l, None)"
  by (simp add: splitSSELines_def splitSSELines_loop_skip [where i = 0]
      splitSSELines_loop.simps [of _ _ "length l"] nth_append)

lemma splitSSELines_CR:
  "no_eol l \<Longrightarrow> splitSSELines (l @ CR # r) eof =
     (if r = [] \<and> \<not> eof then (0, None, None)
      else (length l + (if r \<noteq> [] \<and> hd r = LF then 2 else 1), Some l, None))"
  by (cases r) (auto simp: splitSSELines_def splitSSELines_loop_skip [where i = 0]
      splitSSELines_loop.simps [of _ _ "length l"] nth_append)

lemma splitSSELines_none:
  "no_eol l \<Longrightarrow> splitSSELines l eof =
     (if eof \<and> l \<noteq> [] then (length l, Some l, None) else (0, None, None))"
  using splitSSELines_loop_skip [of l 0 "[]" eof]
  by (cases eof) (simp_all add: splitSSELines_def splitSSELines_loop.simps [of _ _ "length l"])

lemmas splitSSELines_simps = splitSSELines_LF splitSSELines_CR splitSSELines_none

interpretation sse_split: split_func splitSSELines
proof
  fix d eof a t e
  assume "splitSSELines d eof = (a, t, e)"
  then show "e = None \<and> a \<le> length d \<and> (t = None \<longleftrightarrow> a = 0)"
    by (cases d rule: first_line_cases)
      (auto simp: splitSSELines_simps Suc_le_eq split: if_splits)
next
  fix d a t e x eof
  assume *: "splitSSELines d False = (a, Some t, e)"
  show "splitSSELines (d @ x) eof = (a, Some t, e)"
  proof (cases d rule: first_line_cases)
    case none
    then show ?thesis using * by (simp add: splitSSELines_simps)
  next
    case (lf l r)
    then show ?thesis using * splitSSELines_LF [of l "r @ x"] by (auto simp: splitSSELines_simps)
  next
    case (cr l r)
    then show ?thesis using * splitSSELines_CR [of l "r @ x"]
      by (auto simp: splitSSELines_simps hd_append split: if_splits)
  qed
next
  fix d :: string
  assume "d \<noteq> []"
  then show "splitSSELines d True \<noteq> (0, None, None)"
    by (cases d rule: first_line_cases) (auto simp: splitSSELines_simps)
qed

subsection \<open>What one Scan returns\<close>

text \<open>The bytes a scanner has not consumed yet, how they end, and its invariant.\<close>

definition sc_rest :: "('r \<Rightarrow> string) \<Rightarrow> 'r scanner \<Rightarrow> string" where
  "sc_rest stream s = sc_win s @ (if sc_err s = None then stream (sc_r s) else [])"

definition sc_end :: "('r \<Rightarrow> ending) \<Rightarrow> 'r scanner \<Rightarrow> ending" where
  "sc_end ending s = (case sc_err s of None \<Rightarrow> ending (sc_r s) | Some x \<Rightarrow> Ends x)"

definition sc_ok :: "('r \<Rightarrow> bool) \<Rightarrow> 'r scanner \<Rightarrow> bool" where
  "sc_ok ready s \<longleftrightarrow>
     0 < sc_len s \<and> sc_len s \<le> sc_max s \<and> sc_max s \<le> maxInt div 2 \<and>
     sc_start s + length (sc_win s) \<le> sc_len s \<and> ready (sc_r s)"

locale scanning = io_reader read stream ending ready + split_func split
  for read :: "'r read_fn" and stream ending ready and split
begin

abbreviation rest where "rest \<equiv> sc_rest stream"
abbreviation send where "send \<equiv> sc_end ending"
abbreviation ok where "ok \<equiv> sc_ok ready"

text \<open>The bytes and limits that a state change keeps.\<close>

definition same :: "'r scanner \<Rightarrow> 'r scanner \<Rightarrow> bool" where
  "same s s' \<longleftrightarrow> ok s' \<and> rest s' = rest s \<and> sc_max s' = sc_max s \<and> send s' = send s"

lemma try_none:
  assumes "sc_err s = None" "sc_win s = [] \<or> split (sc_win s) False = (0, None, None)"
  obtains s1 where "scan_try split s = Inr s1" "sc_r s1 = sc_r s" "sc_max s1 = sc_max s"
    "sc_len s1 = sc_len s" "sc_start s1 = sc_start s" "sc_win s1 = sc_win s" "sc_err s1 = None"
  using assms that by (cases "sc_win s = []") (auto simp: scan_try_def)

lemma try_token:
  assumes "split (sc_win s) (sc_err s \<noteq> None) = (a, Some t, None)" "0 < a" "a \<le> length (sc_win s)"
    and "ok s"
  shows "\<exists>s'. scan_try split s = Inl (Ret True, s') \<and> sc_token s' = Some t \<and>
    rest s' = drop a (rest s) \<and> ok s' \<and> sc_max s' = sc_max s \<and> send s' = send s"
  using assms by (auto simp: scan_try_def Let_def sc_rest_def sc_ok_def sc_end_def)

lemma room_full:
  assumes "ok s" "sc_err s = None" "length (sc_win s) = sc_max s"
  shows "\<exists>s'. scan_room s = Inl s' \<and> sc_err s' = Some ErrTooLong"
  using assms by (auto simp: scan_room_def Let_def sc_ok_def setErr_def)

lemma room_space:
  assumes "ok s" "sc_err s = None" "length (sc_win s) < sc_max s"
  shows "\<exists>s'. scan_room s = Inr s' \<and> sc_r s' = sc_r s \<and> sc_max s' = sc_max s \<and>
    sc_win s' = sc_win s \<and> sc_err s' = None \<and> sc_len s' \<le> sc_max s' \<and>
    sc_start s' + length (sc_win s') < sc_len s'"
  using assms by (auto simp: scan_room_def Let_def sc_ok_def)

lemma fill_reads:
  assumes "sc_err s = None" "ready (sc_r s)"
    "sc_start s + length (sc_win s) < sc_len s" "sc_len s \<le> sc_max s" "sc_max s \<le> maxInt div 2"
  shows "(scan_fill read n s = None \<and> stream (sc_r s) = [] \<and> ending (sc_r s) = Blocks) \<or>
    (\<exists>s'. scan_fill read n s = Some s' \<and> same s s' \<and>
       (sc_err s' = None \<longrightarrow> length (sc_win s) < length (sc_win s')))"
proof -
  let ?k = "sc_len s - (sc_start s + length (sc_win s))"
  have k: "0 < ?k" using assms(3) by simp
  show ?thesis
  proof (cases "read ?k (sc_r s)")
    case None
    then show ?thesis using read_blocks [OF assms(2) k] by (cases n) auto
  next
    case (Some p)
    then obtain bs e r' where rd: "read ?k (sc_r s) = Some (bs, e, r')" by (metis prod_cases3)
    note b = read_bytes [OF assms(2) k rd]
    show ?thesis
    proof (cases e)
      case None
      then show ?thesis
        using b rd assms read_progress [OF assms(2) k, of bs r']
        by (cases n) (auto simp: same_def sc_ok_def sc_rest_def sc_end_def Let_def)
    next
      case (Some x)
      then show ?thesis
        using b rd assms read_end [OF assms(2) k, of bs x r']
        by (cases n) (auto simp: same_def sc_ok_def sc_rest_def sc_end_def setErr_def Let_def)
    qed
  qed
qed

text \<open>
  One round of the loop without a token: it gives up at the limit, blocks with the reader, or
  continues with more bytes buffered or the reader's end known.
\<close>

lemma round_full:
  assumes "ok s" "sc_err s = None" "sc_win s = [] \<or> split (sc_win s) False = (0, None, None)"
    "length (sc_win s) = sc_max s"
  shows "\<exists>s'. Scan read split s = Some (Ret False, s') \<and> sc_err s' = Some ErrTooLong"
proof -
  obtain s1 where s1: "scan_try split s = Inr s1" "sc_r s1 = sc_r s" "sc_max s1 = sc_max s"
    "sc_len s1 = sc_len s" "sc_start s1 = sc_start s" "sc_win s1 = sc_win s" "sc_err s1 = None"
    using try_none [OF assms(2,3)] .
  then have "ok s1" using assms(1) by (simp add: sc_ok_def)
  from room_full [OF this] s1 assms(4) show ?thesis
    by (subst Scan.simps) auto
qed

lemma round_more:
  assumes "ok s" "sc_err s = None" "sc_win s = [] \<or> split (sc_win s) False = (0, None, None)"
    "length (sc_win s) < sc_max s"
  shows "(Scan read split s = None \<and> stream (sc_r s) = [] \<and> ending (sc_r s) = Blocks) \<or>
    (\<exists>s'. Scan read split s = Scan read split s' \<and> same s s' \<and>
       (sc_err s' = None \<longrightarrow> length (sc_win s) < length (sc_win s')))"
proof -
  obtain s1 where s1: "scan_try split s = Inr s1" "sc_r s1 = sc_r s" "sc_max s1 = sc_max s"
    "sc_len s1 = sc_len s" "sc_start s1 = sc_start s" "sc_win s1 = sc_win s" "sc_err s1 = None"
    using try_none [OF assms(2,3)] .
  then have "ok s1" using assms(1) by (simp add: sc_ok_def)
  from room_space [OF this] s1 assms(4) obtain s2 where s2: "scan_room s1 = Inr s2"
    "sc_r s2 = sc_r s" "sc_max s2 = sc_max s" "sc_win s2 = sc_win s" "sc_err s2 = None"
    "sc_len s2 \<le> sc_max s2" "sc_start s2 + length (sc_win s2) < sc_len s2" by auto
  have unf: "Scan read split s = Option.bind (scan_fill read maxConsecutiveEmptyReads s2) (Scan read split)"
    using s1 s2 by (subst Scan.simps) simp
  have "same s s' \<longleftrightarrow> same s2 s'" for s'
    using s2 assms(2) by (auto simp: same_def sc_rest_def sc_end_def)
  moreover have "ready (sc_r s2)" "sc_max s2 \<le> maxInt div 2"
    using s2 assms(1) by (simp_all add: sc_ok_def)
  ultimately show ?thesis
    using fill_reads [OF s2(5) _ s2(7,6), of maxConsecutiveEmptyReads] s2 unf
    by (metis bind.simps)
qed

text \<open>
  The loop ends in one of four situations: the reader has ended, a token is buffered, the
  buffer is full without one, or the reader blocks.
\<close>

definition settled :: "'r scanner \<Rightarrow> bool" where
  "settled s \<longleftrightarrow> sc_err s \<noteq> None \<or>
     (\<exists>a t. split (sc_win s) False = (a, Some t, None) \<and> 0 < a \<and> a \<le> length (sc_win s)) \<or>
     (split (sc_win s) False = (0, None, None) \<and> length (sc_win s) = sc_max s) \<or>
     (split (sc_win s) False = (0, None, None) \<and> length (sc_win s) < sc_max s \<and>
        stream (sc_r s) = [] \<and> ending (sc_r s) = Blocks \<and> Scan read split s = None)"

lemma same_refl: "ok s \<Longrightarrow> same s s"
  by (simp add: same_def)

lemma same_trans: "same s s' \<Longrightarrow> same s' s'' \<Longrightarrow> same s s''"
  by (auto simp: same_def)

lemma win_bound: "ok s \<Longrightarrow> length (sc_win s) \<le> sc_max s"
  by (simp add: sc_ok_def)

lemma Scan_settles:
  "ok s \<Longrightarrow> \<exists>s'. same s s' \<and> Scan read split s = Scan read split s' \<and> settled s'"
proof (induction "length (rest s) - length (sc_win s) + (if sc_err s = None then 1 else 0 :: nat)"
    arbitrary: s rule: less_induct)
  case less
  show ?case
  proof (cases "settled s")
    case True
    then show ?thesis using same_refl [OF less.prems] by blast
  next
    case False
    then have err: "sc_err s = None" by (simp add: settled_def)
    have nt: "split (sc_win s) False = (0, None, None)"
      by (cases rule: split_cases [of "sc_win s" False]) (use False in \<open>simp_all add: settled_def\<close>)
    then have "length (sc_win s) \<noteq> sc_max s" using False by (simp add: settled_def)
    then have small: "length (sc_win s) < sc_max s" using win_bound [OF less.prems] by simp
    have stuck: "\<not> (Scan read split s = None \<and> stream (sc_r s) = [] \<and> ending (sc_r s) = Blocks)"
      using False nt small err unfolding settled_def by blast
    have "\<exists>s'. Scan read split s = Scan read split s' \<and> same s s' \<and>
        (sc_err s' = None \<longrightarrow> length (sc_win s) < length (sc_win s'))"
      using round_more [OF less.prems err disjI2 [OF nt] small] stuck by (simp only: simp_thms)
    then obtain s' where s': "Scan read split s = Scan read split s'" "same s s'"
      "sc_err s' = None \<longrightarrow> length (sc_win s) < length (sc_win s')"
      by (elim exE conjE) (rule that)
    have "length (rest s') - length (sc_win s') + (if sc_err s' = None then 1 else 0 :: nat)
        < length (rest s) - length (sc_win s) + (if sc_err s = None then 1 else 0)"
    proof -
      have "length (rest s') = length (rest s)" using s'(2) by (simp add: same_def)
      moreover have "length (sc_win s') \<le> length (rest s')"
        "sc_err s' \<noteq> None \<Longrightarrow> length (sc_win s') = length (rest s')"
        by (auto simp: sc_rest_def)
      ultimately show ?thesis using s'(3) err by (cases "sc_err s' = None") auto
    qed
    moreover have "ok s'" using s'(2) by (simp add: same_def)
    ultimately obtain s'' where s'': "same s' s''" "Scan read split s' = Scan read split s''" "settled s''"
      by (elim less.hyps [THEN exE]) blast+
    show ?thesis
      by (rule exI [of _ s'']) (simp only: s'(1) s''(2,3) same_trans [OF s'(2) s''(1)] simp_thms)
  qed
qed

lemma rest_err: "sc_err s \<noteq> None \<Longrightarrow> rest s = sc_win s"
  by (auto simp: sc_rest_def)

lemma rest_win: "sc_err s = None \<Longrightarrow> rest s = sc_win s @ stream (sc_r s)"
  by (simp add: sc_rest_def)

text \<open>A token that fits the buffer, or ends an input that fits it, is delivered.\<close>

lemma Scan_token:
  assumes "ok s" "split (rest s) True = (a, Some t, None)" "0 < a" "a \<le> length (rest s)"
    and "split (take (sc_max s) (rest s)) False = (a, Some t, None) \<or>
      (length (rest s) < sc_max s \<and> send s \<noteq> Blocks)"
  shows "\<exists>s'. Scan read split s = Some (Ret True, s') \<and> sc_token s' = Some t \<and>
    rest s' = drop a (rest s) \<and> ok s' \<and> sc_max s' = sc_max s \<and> send s' = send s"
proof -
  obtain s' where s': "same s s'" "Scan read split s = Scan read split s'" "settled s'"
    using Scan_settles [OF assms(1)] by blast
  have eqs: "ok s'" "rest s' = rest s" "sc_max s' = sc_max s" "send s' = send s"
    using s'(1) by (simp_all add: same_def)
  have "split (sc_win s') (sc_err s' \<noteq> None) = (a, Some t, None) \<and> a \<le> length (sc_win s')"
  proof (cases "sc_err s' = None")
    case False
    then show ?thesis using assms(2,4) rest_err [OF False] eqs by auto
  next
    case True
    note rw = rest_win [OF True]
    have tk: "sc_win s' = take (length (sc_win s')) (rest s')" using rw by simp
    consider (tok) a' t' where "split (sc_win s') False = (a', Some t', None)"
        "a' \<le> length (sc_win s')"
      | (full) "split (sc_win s') False = (0, None, None)" "length (sc_win s') = sc_max s'"
      | (stuck) "split (sc_win s') False = (0, None, None)" "length (sc_win s') < sc_max s'"
        "stream (sc_r s') = []" "ending (sc_r s') = Blocks"
      using s'(3) True by (auto simp: settled_def)
    then show ?thesis
    proof cases
      case tok
      then show ?thesis
        using split_take [of "length (sc_win s')" "rest s'" a' t' None True] tk assms(2) eqs True
        by simp
    next
      case full
      then show ?thesis using assms(5) eqs tk rw by auto
    next
      case stuck
      then have "send s' = Blocks" using True by (simp add: sc_end_def)
      then show ?thesis using assms(5) stuck rw eqs by auto
    qed
  qed
  then obtain s'' where "scan_try split s' = Inl (Ret True, s'')" "sc_token s'' = Some t"
    "rest s'' = drop a (rest s')" "ok s''" "sc_max s'' = sc_max s'" "send s'' = send s'"
    using try_token [of s' a t] assms(3) eqs(1) by auto
  then show ?thesis
    using s'(2) eqs by (auto simp: Scan.simps [of read split s'])
qed

text \<open>At the end of the input the call returns false and keeps the reader's error.\<close>

lemma Scan_end:
  assumes "ok s" "rest s = []" "send s = Ends x"
  shows "\<exists>s'. Scan read split s = Some (Ret False, s') \<and> sc_err s' = Some x \<and> ok s' \<and>
    rest s' = [] \<and> sc_max s' = sc_max s \<and> send s' = Ends x"
proof -
  obtain s' where s': "same s s'" "Scan read split s = Scan read split s'" "settled s'"
    using Scan_settles [OF assms(1)] by blast
  have eqs: "ok s'" "rest s' = []" "send s' = Ends x" "sc_max s' = sc_max s"
    using s'(1) assms by (simp_all add: same_def)
  then have w: "sc_win s' = []" by (simp add: sc_rest_def)
  have err: "sc_err s' = Some x"
    using s'(3) eqs w split_empty by (auto simp: settled_def sc_end_def sc_ok_def split: option.splits)
  then show ?thesis
    using s'(2) w eqs split_empty
    by (auto simp: Scan.simps [of read split s'] scan_try_def sc_ok_def sc_rest_def sc_end_def)
qed

text \<open>A live reader that has sent no complete token makes the call wait.\<close>

lemma Scan_blocks:
  assumes "ok s" "split (rest s) False = (0, None, None)" "length (rest s) < sc_max s"
    "send s = Blocks"
  shows "Scan read split s = None"
proof -
  obtain s' where s': "same s s'" "Scan read split s = Scan read split s'" "settled s'"
    using Scan_settles [OF assms(1)] by blast
  have eqs: "rest s' = rest s" "sc_max s' = sc_max s" "send s' = Blocks"
    using s'(1) assms by (simp_all add: same_def)
  then have err: "sc_err s' = None" by (auto simp: sc_end_def split: option.splits)
  note rw = rest_win [OF err]
  have "split (sc_win s') False \<noteq> (a, Some t, None)" for a t
    using split_stable [of "sc_win s'" a t None "stream (sc_r s')" False] rw assms(2) eqs by auto
  then show ?thesis
    using s'(2,3) err rw eqs assms(3) by (auto simp: settled_def)
qed

text \<open>A token longer than the limit ends the scan with \<open>ErrTooLong\<close>.\<close>

lemma Scan_too_long:
  assumes "ok s" "split (take (sc_max s) (rest s)) False = (0, None, None)"
    "sc_max s < length (rest s)"
  shows "\<exists>s'. Scan read split s = Some (Ret False, s') \<and> sc_err s' = Some ErrTooLong"
proof -
  obtain s' where s': "same s s'" "Scan read split s = Scan read split s'" "settled s'"
    using Scan_settles [OF assms(1)] by blast
  have eqs: "ok s'" "rest s' = rest s" "sc_max s' = sc_max s"
    using s'(1) by (simp_all add: same_def)
  have err: "sc_err s' = None"
    using rest_err [of s'] win_bound [OF eqs(1)] eqs assms(3) by (cases "sc_err s'") auto
  note rw = rest_win [OF err]
  have tk: "take (sc_max s) (rest s) = sc_win s' @ take (sc_max s - length (sc_win s')) (stream (sc_r s'))"
    using rw eqs win_bound [OF eqs(1)] by simp
  have "split (sc_win s') False \<noteq> (a, Some t, None)" for a t
    using split_stable [of "sc_win s'" a t None] assms(2) tk by fastforce
  then have "split (sc_win s') False = (0, None, None)" "length (sc_win s') = sc_max s'"
    using s'(3) err rw eqs assms(3) by (auto simp: settled_def)
  then show ?thesis using round_full [OF eqs(1) err] s'(2) by simp
qed

end

interpretation scan: scanning "bom_Read source_Read" "bom_stream source_stream source_ending"
  "bom_ending source_ending" "bom_ready source_stream source_ending source_ready" splitSSELines
  by unfold_locales

end
