(* ===== verification/Parser.thy ===== *)
theory Parser
  imports Strconv Scanner
begin

text \<open>
  The event-stream parser of \<open>sseparse/reader.go\<close> and its \<open>Event\<close> type, without its input
  side: the state of one stream, how a line updates it, and the search functions of
  \<open>sseparse/search.go\<close>. The reference is a declarative reading of the standard (WHATWG HTML,
  9.2.6): the event dispatched at a blank line is determined by the lines before it.
\<close>

subsection \<open>Parsed events\<close>

record ParsedEvent =
  pe_Type :: string
  pe_DataLines :: "string list"
  pe_ID :: string
  pe_Retry :: uint

text \<open>The zero value \<open>Event{}\<close>.\<close>

definition zeroEvent :: ParsedEvent where
  "zeroEvent = \<lparr>pe_Type = [], pe_DataLines = [], pe_ID = [], pe_Retry = 0\<rparr>"

definition Data :: "ParsedEvent \<Rightarrow> string" where
  "Data e = Join (pe_DataLines e) [LF]"

definition ParsedEvent_String :: "ParsedEvent \<Rightarrow> string" where
  "ParsedEvent_String e =
     (if pe_ID e \<noteq> [] \<or> pe_Retry e > 0
      then ''Event{type='' @ pe_Type e @ '' id='' @ pe_ID e @ '' retry='' @
        FormatUint (pe_Retry e) @ '' datalines='' @
        FormatInt (int (length (pe_DataLines e))) @ ''}''
      else ''Event{type='' @ pe_Type e @ '' datalines='' @
        FormatInt (int (length (pe_DataLines e))) @ ''}'')"

fun eventsString_loop :: "nat \<Rightarrow> ParsedEvent list \<Rightarrow> string \<Rightarrow> string" where
  "eventsString_loop i [] b = b"
| "eventsString_loop i (evt # evts) b =
     eventsString_loop (i + 1) evts ((if i > 0 then b @ [LF] else b) @ ParsedEvent_String evt)"

definition EventsString :: "ParsedEvent list \<Rightarrow> string" where
  "EventsString events =
     (if events = [] then ''(no events)'' else eventsString_loop 0 events [])"

fun FindByType :: "ParsedEvent list \<Rightarrow> string \<Rightarrow> ParsedEvent \<times> bool" where
  "FindByType [] eventType = (zeroEvent, False)"
| "FindByType (evt # evts) eventType =
     (if pe_Type evt = eventType then (evt, True) else FindByType evts eventType)"

text \<open>\<open>slices.DeleteFunc\<close> on a clone keeps, in order, the elements the function rejects.\<close>

definition FilterByType :: "ParsedEvent list \<Rightarrow> string \<Rightarrow> ParsedEvent list" where
  "FilterByType events eventType = filter (\<lambda>e. \<not> (pe_Type e \<noteq> eventType)) events"

subsection \<open>The parser state\<close>

record streamParser =
  sp_events :: "ParsedEvent list"
  sp_frame :: ParsedEvent
  sp_lastID :: string
  sp_retry :: uint

definition zeroParser :: streamParser where
  "zeroParser = \<lparr>sp_events = [], sp_frame = zeroEvent, sp_lastID = [], sp_retry = 0\<rparr>"

definition parseSSEField :: "string \<Rightarrow> string \<times> string" where
  "parseSSEField line =
     (let (field, value, found) = Cut line COLON
      in if \<not> found then (line, []) else (field, TrimPrefix value [SP]))"

definition applyField :: "streamParser \<Rightarrow> string \<Rightarrow> streamParser" where
  "applyField p line =
     (if HasPrefix line [COLON] then p
      else
        let (field, value) = parseSSEField line; frame = sp_frame p
        in if field = ''event'' then p\<lparr>sp_frame := frame\<lparr>pe_Type := value\<rparr>\<rparr>
           else if field = ''data'' then
             p\<lparr>sp_frame := frame\<lparr>pe_DataLines := pe_DataLines frame @ [value]\<rparr>\<rparr>
           else if field = ''id'' then
             (if \<not> ContainsByte value NUL then p\<lparr>sp_lastID := value\<rparr> else p)
           else if field = ''retry'' then
             (case ParseUint value of Inr ms \<Rightarrow> p\<lparr>sp_retry := ms\<rparr> | Inl err \<Rightarrow> p)
           else p)"

definition dispatchFrame :: "streamParser \<Rightarrow> streamParser" where
  "dispatchFrame p =
     (let p = (if length (pe_DataLines (sp_frame p)) > 0 then
                 let frame = (sp_frame p)\<lparr>pe_ID := sp_lastID p, pe_Retry := sp_retry p\<rparr>
                 in p\<lparr>sp_frame := frame, sp_events := sp_events p @ [frame]\<rparr>
               else p)
      in p\<lparr>sp_frame := zeroEvent\<rparr>)"

definition acceptLine :: "streamParser \<Rightarrow> string \<Rightarrow> streamParser" where
  "acceptLine p line = (if line = [] then dispatchFrame p else applyField p line)"

text \<open>The parser after a list of lines.\<close>

definition acceptLines :: "streamParser \<Rightarrow> string list \<Rightarrow> streamParser" where
  "acceptLines p ls = foldl acceptLine p ls"

lemma acceptLines_simps [simp]:
  "acceptLines p [] = p"
  "acceptLines p (l # ls) = acceptLines (acceptLine p l) ls"
  "acceptLines p (ls @ ls') = acceptLines (acceptLines p ls) ls'"
  by (simp_all add: acceptLines_def)

subsection \<open>The reference: the standard, read declaratively\<close>

text \<open>
  A line names a field: what stands before its first colon, or the whole line. Its value is
  what follows, less one leading space. A comment starts with the colon, so its name is empty.
\<close>

definition field_name :: "string \<Rightarrow> string" where
  "field_name l = takeWhile (\<lambda>c. c \<noteq> COLON) l"

definition field_value :: "string \<Rightarrow> string" where
  "field_value l = (case drop 1 (dropWhile (\<lambda>c. c \<noteq> COLON) l) of
     [] \<Rightarrow> [] | c # v \<Rightarrow> if c = SP then v else c # v)"

definition values_of :: "string \<Rightarrow> string list \<Rightarrow> string list" where
  "values_of name ls = map field_value (filter (\<lambda>l. field_name l = name) ls)"

definition last_or :: "'a \<Rightarrow> 'a list \<Rightarrow> 'a" where
  "last_or d xs = (if xs = [] then d else last xs)"

definition valid_id :: "string \<Rightarrow> bool" where
  "valid_id v \<longleftrightarrow> NUL \<notin> set v"

definition valid_retry :: "string \<Rightarrow> bool" where
  "valid_retry v \<longleftrightarrow> v \<noteq> [] \<and> list_all isDigit v \<and> decimal v < 2 ^ 64"

text \<open>The lines of the frame under construction after \<open>ls\<close>: those since the last blank line.\<close>

definition current_frame :: "string list \<Rightarrow> string list" where
  "current_frame ls = rev (takeWhile (\<lambda>l. l \<noteq> []) (rev ls))"

text \<open>
  What a blank line after \<open>ls\<close> dispatches: the last type and all data of the frame, and the
  last valid identifier and retry time of the whole stream so far.
\<close>

definition event_after :: "string list \<Rightarrow> ParsedEvent" where
  "event_after ls =
     \<lparr>pe_Type = last_or [] (values_of ''event'' (current_frame ls)),
      pe_DataLines = values_of ''data'' (current_frame ls),
      pe_ID = last_or [] (filter valid_id (values_of ''id'' ls)),
      pe_Retry = of_nat (last_or 0 (map decimal (filter valid_retry (values_of ''retry'' ls))))\<rparr>"

text \<open>The positions of the blank lines that end a frame with data, and the whole stream.\<close>

definition dispatch_points :: "string list \<Rightarrow> nat list" where
  "dispatch_points ls =
     filter (\<lambda>i. ls ! i = [] \<and> pe_DataLines (event_after (take i ls)) \<noteq> []) [0..<length ls]"

definition stream_events :: "string list \<Rightarrow> ParsedEvent list" where
  "stream_events ls = map (\<lambda>i. event_after (take i ls)) (dispatch_points ls)"

subsection \<open>The parser computes the reference\<close>

lemma parseSSEField_spec: "parseSSEField l = (field_name l, field_value l)"
proof (cases "COLON \<in> set l")
  case False
  then have tw: "takeWhile (\<lambda>c. c \<noteq> COLON) l = l" "dropWhile (\<lambda>c. c \<noteq> COLON) l = []"
    by (auto simp: takeWhile_eq_all_conv)
  show ?thesis
    unfolding parseSSEField_def field_name_def field_value_def Cut_not_found [OF False] tw by simp
next
  case True
  then obtain a b where ab: "l = a @ COLON # b" "COLON \<notin> set a"
    by (meson split_list_first)
  then have "takeWhile (\<lambda>c. c \<noteq> COLON) l = a" "dropWhile (\<lambda>c. c \<noteq> COLON) l = COLON # b"
    by (auto simp: takeWhile_append dropWhile_append)
  then show ?thesis
    using ab by (cases b)
      (auto simp: parseSSEField_def field_name_def field_value_def TrimPrefix_def)
qed

lemma comment_name: "HasPrefix l [COLON] \<Longrightarrow> field_name l = []"
  by (cases l) (auto simp: field_name_def)

lemma ParseUint_valid:
  "ParseUint v = (if valid_retry v then Inr (of_nat (decimal v)) else ParseUint v)"
  by (auto simp: valid_retry_def ParseUint_Inr unat_of_nat)

lemma ParseUint_invalid: "\<not> valid_retry v \<Longrightarrow> \<exists>e. ParseUint v = Inl e"
  using ParseUint_Inr [of v] by (cases "ParseUint v") (auto simp: valid_retry_def)

lemma values_of_simps [simp]:
  "values_of n [] = []"
  "values_of n (ls @ [l]) = values_of n ls @ (if field_name l = n then [field_value l] else [])"
  by (simp_all add: values_of_def)

lemma last_or_simps [simp]: "last_or d [] = d" "last_or d (xs @ [x]) = x"
  by (simp_all add: last_or_def)

lemma current_frame_simps [simp]:
  "current_frame [] = []"
  "current_frame (ls @ [l]) = (if l = [] then [] else current_frame ls @ [l])"
  by (simp_all add: current_frame_def)

text \<open>The state of the parser after any lines, field by field.\<close>

definition parser_after :: "string list \<Rightarrow> streamParser" where
  "parser_after ls =
     \<lparr>sp_events = stream_events ls,
      sp_frame = (event_after ls)\<lparr>pe_ID := [], pe_Retry := 0\<rparr>,
      sp_lastID = pe_ID (event_after ls), sp_retry = pe_Retry (event_after ls)\<rparr>"

lemma stream_events_snoc:
  "stream_events (ls @ [l]) = stream_events ls @
     (if l = [] \<and> pe_DataLines (event_after ls) \<noteq> [] then [event_after ls] else [])"
proof -
  have "dispatch_points (ls @ [l]) = dispatch_points ls @
      (if l = [] \<and> pe_DataLines (event_after ls) \<noteq> [] then [length ls] else [])"
    unfolding dispatch_points_def by (auto simp: nth_append intro!: filter_cong)
  moreover have "\<forall>i \<in> set (dispatch_points ls). take i (ls @ [l]) = take i ls"
    by (auto simp: dispatch_points_def)
  ultimately show ?thesis
    by (simp add: stream_events_def)
qed

lemma acceptLine_parser_after: "acceptLine (parser_after ls) l = parser_after (ls @ [l])"
proof (cases "l = []")
  case True
  then have "field_name l = []" by (simp add: field_name_def)
  then show ?thesis
    using True
    by (simp add: acceptLine_def dispatchFrame_def parser_after_def stream_events_snoc
        event_after_def zeroEvent_def Let_def)
next
  case False
  then show ?thesis
    using comment_name [of l] ParseUint_valid [of "field_value l"] ParseUint_invalid [of "field_value l"]
    by (auto simp: acceptLine_def applyField_def parser_after_def stream_events_snoc
        event_after_def parseSSEField_spec ContainsByte_def valid_id_def)
qed

lemma parser_after_Nil: "parser_after [] = zeroParser"
  by (simp add: parser_after_def zeroParser_def zeroEvent_def event_after_def stream_events_def
      dispatch_points_def)

lemma sp_events_parser_after [simp]: "sp_events (parser_after ls) = stream_events ls"
  by (simp add: parser_after_def)

lemma stream_events_Nil [simp]: "stream_events [] = []"
  by (simp add: stream_events_def dispatch_points_def)

lemma acceptLines_spec: "acceptLines zeroParser ls = parser_after ls"
  by (induction ls rule: rev_induct)
    (simp_all add: parser_after_Nil acceptLine_parser_after)

lemma stream_events_append: "\<exists>es. stream_events (ls @ ls') = stream_events ls @ es"
proof (induction ls' rule: rev_induct)
  case (snoc l ls')
  then show ?case
    using stream_events_snoc [of "ls @ ls'" l] by auto
qed simp

lemma stream_events_snoc_length: "length (stream_events (ls @ [l])) \<le> length (stream_events ls) + 1"
  by (simp add: stream_events_snoc)

lemma stream_events_no_data:
  assumes "\<forall>l \<in> set ls. field_name l \<noteq> ''data''"
  shows "stream_events ls = []"
proof -
  have "set (current_frame (take i ls)) \<subseteq> set ls" for i
    by (metis (no_types, lifting) current_frame_def in_set_takeD set_rev set_takeWhileD subsetI)
  then have "values_of ''data'' (current_frame (take i ls)) = []" for i
    using assms by (auto simp: values_of_def filter_empty_conv)
  then show ?thesis by (simp add: stream_events_def dispatch_points_def event_after_def)
qed

text \<open>
  C10. The incremental parser implements the standard's interpretation of an event stream: the
  events collected after any lines are exactly the events of the declarative reading, in which
  a blank line dispatches the type and the data of its frame (when there is data) with the
  last valid identifier and the last valid retry time of all lines so far.
\<close>

theorem streamParser_events:
  "sp_events (acceptLines zeroParser ls) = stream_events ls"
  by (simp add: acceptLines_spec)

subsection \<open>Searching and printing\<close>

text \<open>
  \<open>FindByType\<close> returns the first of the events \<open>FilterByType\<close> keeps, and reports false with
  the zero event exactly when there is none.
\<close>

lemma FindByType_first_of_FilterByType:
  "FindByType events t =
     (case FilterByType events t of [] \<Rightarrow> (zeroEvent, False) | e # es \<Rightarrow> (e, True))"
  by (induction events) (simp_all add: FilterByType_def)

lemma eventsString_loop_Join:
  "eventsString_loop i evts b =
     b @ (if evts \<noteq> [] \<and> i > 0 then [LF] else []) @ Join (map ParsedEvent_String evts) [LF]"
  by (induction evts arbitrary: i b) (auto simp: Join_Cons)

text \<open>
  \<open>EventsString\<close> prints one line per event: the lines are the events' own strings in order,
  and a slice without events has a text of its own.
\<close>

lemma EventsString_lines:
  "EventsString events =
     (if events = [] then ''(no events)'' else Join (map ParsedEvent_String events) [LF])"
  by (simp add: EventsString_def eventsString_loop_Join)

end
