(* ===== verification/Reading.thy ===== *)
theory Reading
  imports Parser
begin

text \<open>
  The reading functions of \<open>sseparse/reader.go\<close>: read options, \<open>newSSEScanner\<close>, \<open>ReadEvents\<close>,
  \<open>ReadNEvents\<close>, \<open>StreamReader\<close> and the \<open>Must\<close> variants, on any \<open>io.Reader\<close>. What they return
  is proved from the bytes of the stream and the way it ends, whatever the sizes of the reads
  that deliver them.
\<close>

subsection \<open>Options\<close>

record readConfig =
  maxLineBytes :: int

type_synonym ReadOption = "readConfig \<Rightarrow> readConfig"

definition DefaultMaxLineBytes :: int where
  "DefaultMaxLineBytes = 1024 * 1024"

definition initialLineCap :: int where
  "initialLineCap = 64 * 1024"

definition applyReadOptions :: "ReadOption list \<Rightarrow> readConfig" where
  "applyReadOptions opts =
     foldl (\<lambda>cfg opt. opt cfg) \<lparr>maxLineBytes = DefaultMaxLineBytes\<rparr> opts"

definition WithMaxLineBytes :: "int \<Rightarrow> ReadOption" where
  "WithMaxLineBytes maxBytes cfg =
     (if maxBytes > 0 then cfg\<lparr>maxLineBytes := maxBytes\<rparr> else cfg)"

subsection \<open>Reading\<close>

text \<open>\<open>bufio.NewScanner\<close>, \<open>Buffer\<close> and \<open>Split\<close> on the reader less its byte-order mark.\<close>

definition newSSEScanner :: "'r \<Rightarrow> int \<Rightarrow> 'r bomStripReader scanner" where
  "newSSEScanner r maxLine =
     \<lparr>sc_r = stripLeadingBOM r, sc_max = nat maxLine, sc_len = nat (min initialLineCap maxLine),
      sc_start = 0, sc_win = [], sc_token = None, sc_err = None, sc_empties = 0\<rparr>"

text \<open>
  The scan loop of \<open>ReadEvents\<close> and \<open>ReadNEvents\<close>: \<open>stop\<close> is the early return's condition.
  The flag of the result tells whether the loop returned early.
\<close>

partial_function (option) scanLoop ::
    "'r read_fn \<Rightarrow> (streamParser \<Rightarrow> bool) \<Rightarrow> 'r bomStripReader scanner \<Rightarrow> streamParser \<Rightarrow>
     (bool outcome \<times> 'r bomStripReader scanner \<times> streamParser) option" where
  "scanLoop read stop s p =
     Option.bind (Scan (bom_Read read) splitSSELines s)
       (\<lambda>(res, s1). case res of
          Panic m \<Rightarrow> Some (Panic m, s1, p)
        | Ret again \<Rightarrow>
            (if again then
               (if stop (acceptLine p (Scanner_Text s1))
                then Some (Ret True, s1, acceptLine p (Scanner_Text s1))
                else scanLoop read stop s1 (acceptLine p (Scanner_Text s1)))
             else Some (Ret False, s1, p)))"

text \<open>The error of a failed scan: \<open>fmt.Errorf("scan SSE stream: %w", err)\<close>.\<close>

definition scanError :: "goerr \<Rightarrow> goerr" where
  [go_errors]: "scanError err = Errorf ''scan SSE stream'' err"

definition ReadEvents ::
    "'r read_fn \<Rightarrow> 'r \<Rightarrow> ReadOption list \<Rightarrow> (goerr + ParsedEvent list) outcome option" where
  "ReadEvents read r opts =
     Option.bind (scanLoop read (\<lambda>p. False)
         (newSSEScanner r (maxLineBytes (applyReadOptions opts))) zeroParser)
       (\<lambda>(res, s, p). Some (case res of
          Panic m \<Rightarrow> Panic m
        | Ret early \<Rightarrow> Ret (case Scanner_Err s of
              Some err \<Rightarrow> Inl (scanError err)
            | None \<Rightarrow> Inr (sp_events p))))"

definition ReadNEvents ::
    "'r read_fn \<Rightarrow> 'r \<Rightarrow> int \<Rightarrow> ReadOption list \<Rightarrow> (goerr + ParsedEvent list) outcome option" where
  "ReadNEvents read r count opts =
     (if count \<le> 0 then Some (Ret (Inr []))
      else
        Option.bind (scanLoop read (\<lambda>p. int (length (sp_events p)) \<ge> count)
            (newSSEScanner r (maxLineBytes (applyReadOptions opts))) zeroParser)
          (\<lambda>(res, s, p). Some (case res of
             Panic m \<Rightarrow> Panic m
           | Ret early \<Rightarrow> Ret
               (if early then Inr (sp_events p)
                else (case Scanner_Err s of
                   Some err \<Rightarrow>
                     (if length (sp_events p) > 0 then Inr (sp_events p)
                      else Inl (scanError err))
                 | None \<Rightarrow> Inr (sp_events p))))))"

text \<open>\<open>testing.TB.Fatalf\<close> ends the test: a panic value with the test's message.\<close>

definition MustReadEvents ::
    "'r read_fn \<Rightarrow> 'r \<Rightarrow> ReadOption list \<Rightarrow> ParsedEvent list outcome option" where
  "MustReadEvents read r opts =
     Option.bind (ReadEvents read r opts) (\<lambda>res. Some (case res of
         Panic m \<Rightarrow> Panic m
       | Ret (Inl err) \<Rightarrow> Panic ''read SSE events''
       | Ret (Inr events) \<Rightarrow> Ret events))"

definition MustReadNEvents ::
    "'r read_fn \<Rightarrow> 'r \<Rightarrow> int \<Rightarrow> ReadOption list \<Rightarrow> ParsedEvent list outcome option" where
  "MustReadNEvents read r count opts =
     Option.bind (ReadNEvents read r count opts) (\<lambda>res. Some (case res of
         Panic m \<Rightarrow> Panic m
       | Ret (Inl err) \<Rightarrow> Panic ''read SSE events''
       | Ret (Inr events) \<Rightarrow> Ret events))"

subsection \<open>StreamReader\<close>

record 'r StreamReader =
  sr_parser :: streamParser
  sr_scanner :: "'r bomStripReader scanner"
  sr_sent :: nat

definition NewStreamReader :: "'r \<Rightarrow> ReadOption list \<Rightarrow> 'r StreamReader" where
  "NewStreamReader r opts =
     \<lparr>sr_parser = zeroParser,
      sr_scanner = newSSEScanner r (maxLineBytes (applyReadOptions opts)), sr_sent = 0\<rparr>"

partial_function (option) Next ::
    "'r read_fn \<Rightarrow> 'r StreamReader \<Rightarrow> ((goerr + ParsedEvent) outcome \<times> 'r StreamReader) option" where
  "Next read sr =
     (if length (sp_events (sr_parser sr)) \<le> sr_sent sr then
        Option.bind (Scan (bom_Read read) splitSSELines (sr_scanner sr))
          (\<lambda>(res, s1). case res of
             Panic m \<Rightarrow> Some (Panic m, sr\<lparr>sr_scanner := s1\<rparr>)
           | Ret again \<Rightarrow>
               (if again then
                  Next read (sr\<lparr>sr_scanner := s1,
                    sr_parser := acceptLine (sr_parser sr) (Scanner_Text s1)\<rparr>)
                else
                  Some (Ret (Inl (case Scanner_Err s1 of
                      Some err \<Rightarrow> scanError err | None \<Rightarrow> EOF)), sr\<lparr>sr_scanner := s1\<rparr>)))
      else
        Some (Ret (Inr (sp_events (sr_parser sr) ! sr_sent sr)), sr\<lparr>sr_sent := sr_sent sr + 1\<rparr>))"

definition MustReadNextEvent ::
    "'r read_fn \<Rightarrow> 'r StreamReader \<Rightarrow> (ParsedEvent outcome \<times> 'r StreamReader) option" where
  "MustReadNextEvent read sr =
     Option.bind (Next read sr) (\<lambda>(res, sr1). Some (case res of
         Panic m \<Rightarrow> Panic m
       | Ret (Inl err) \<Rightarrow> Panic ''read SSE event''
       | Ret (Inr evt) \<Rightarrow> Ret evt, sr1))"

subsection \<open>The lines of a stream\<close>

text \<open>
  The lines a scanner delivers from bytes that end in a given way: at the end of the input
  every line; from a live stream the terminated lines, where a carriage return that is the
  last byte so far still waits for a line feed.
\<close>

definition hold_CR :: "string \<Rightarrow> string" where
  "hold_CR s = (if s \<noteq> [] \<and> last s = CR then butlast s else s)"

fun stream_lines :: "ending \<Rightarrow> string \<Rightarrow> string list" where
  "stream_lines (Ends x) s = lines_at_eof s"
| "stream_lines Blocks s = terminated (hold_CR s)"

text \<open>
  The limit on a line: with its terminator (and the byte after a carriage return) it has at
  most \<open>m\<close> bytes, and a last line without terminator fewer than \<open>m\<close>.
\<close>

function fits_from :: "nat \<Rightarrow> nat \<Rightarrow> string \<Rightarrow> bool" where
  "fits_from m n [] = (n < m)"
| "fits_from m n (c # s) =
     (if c = LF then n + 1 \<le> m \<and> fits_from m 0 s
      else if c = CR then (if s = [] then n + 1 < m else n + 2 \<le> m) \<and> fits_from m 0 (skip_LF s)
      else fits_from m (n + 1) s)"
  by pat_completeness auto
termination
  by (relation "measure (\<lambda>(m, n, s). length s)") (auto simp: le_imp_less_Suc length_skip_LF)

abbreviation lines_fit :: "nat \<Rightarrow> string \<Rightarrow> bool" where
  "lines_fit m s \<equiv> fits_from m 0 s"

text \<open>Some line is too long, whatever the reads.\<close>

function over_from :: "nat \<Rightarrow> nat \<Rightarrow> string \<Rightarrow> bool" where
  "over_from m n [] = (m < n)"
| "over_from m n (c # s) =
     (if c = LF then m < n + 1 \<or> over_from m 0 s
      else if c = CR then (if s = [] then m < n + 1 else m < n + 2) \<or> over_from m 0 (skip_LF s)
      else over_from m (n + 1) s)"
  by pat_completeness auto
termination
  by (relation "measure (\<lambda>(m, n, s). length s)") (auto simp: le_imp_less_Suc length_skip_LF)

abbreviation line_too_long :: "nat \<Rightarrow> string \<Rightarrow> bool" where
  "line_too_long m s \<equiv> over_from m 0 s"

lemma fits_from_skip: "no_eol l \<Longrightarrow> fits_from m n (l @ s) = fits_from m (n + length l) s"
  by (induction l arbitrary: n) auto

lemma over_from_skip: "no_eol l \<Longrightarrow> over_from m n (l @ s) = over_from m (n + length l) s"
  by (induction l arbitrary: n) auto

lemma fits_none: "no_eol l \<Longrightarrow> fits_from m n l \<longleftrightarrow> n + length l < m"
  using fits_from_skip [of l m n "[]"] by simp

lemma over_none: "no_eol l \<Longrightarrow> over_from m n l \<longleftrightarrow> m < n + length l"
  using over_from_skip [of l m n "[]"] by simp

text \<open>The lines of a stream by its first line.\<close>

lemma hold_CR_append: "s \<noteq> [] \<Longrightarrow> hold_CR (l @ s) = l @ hold_CR s"
  by (auto simp: hold_CR_def butlast_append)

lemma hold_CR_no_eol: "no_eol l \<Longrightarrow> hold_CR l = l"
  by (metis hold_CR_def last_in_set no_eol_def)

lemma stream_lines_LF: "no_eol l \<Longrightarrow> stream_lines e (l @ LF # r) = l # stream_lines e r"
proof (cases e)
  case Blocks
  moreover assume "no_eol l"
  moreover have "hold_CR (LF # r) = LF # hold_CR r"
    by (simp add: hold_CR_def)
  ultimately show ?thesis by (simp add: hold_CR_append terminated_line_LF)
qed (simp add: lines_at_eof_LF)

lemma stream_lines_CR:
  "no_eol l \<Longrightarrow> r \<noteq> [] \<Longrightarrow> stream_lines e (l @ CR # r) = l # stream_lines e (skip_LF r)"
proof (cases e)
  case Blocks
  moreover assume "no_eol l" "r \<noteq> []"
  moreover have "hold_CR (CR # r) = CR # hold_CR r" "skip_LF (hold_CR r) = hold_CR (skip_LF r)"
    using \<open>r \<noteq> []\<close> by (cases r; simp add: hold_CR_def)+
  ultimately show ?thesis by (simp add: hold_CR_append terminated_line_CR)
qed (simp add: lines_at_eof_CR)

lemma stream_lines_last_CR:
  "no_eol l \<Longrightarrow> stream_lines e (l @ [CR]) = (if e = Blocks then [] else [l])"
  by (cases e) (simp_all add: lines_at_eof_CR hold_CR_append hold_CR_def)

lemma stream_lines_Nil [simp]: "stream_lines e [] = []"
  by (cases e) (simp_all add: hold_CR_def)

lemma stream_lines_none:
  "no_eol l \<Longrightarrow> stream_lines e l = (if e = Blocks \<or> l = [] then [] else [l])"
  by (cases e) (auto simp: lines_at_eof_no_eol hold_CR_no_eol)

lemmas stream_lines_simps =
  stream_lines_LF stream_lines_CR stream_lines_last_CR stream_lines_none

subsection \<open>Scanning the lines of a stream\<close>

abbreviation sse_Scan ::
    "source bomStripReader scanner \<Rightarrow> (bool outcome \<times> source bomStripReader scanner) option" where
  "sse_Scan \<equiv> Scan (bom_Read source_Read) splitSSELines"

abbreviation sse_rest :: "source bomStripReader scanner \<Rightarrow> string" where
  "sse_rest \<equiv> sc_rest (bom_stream source_stream source_ending)"

abbreviation sse_end :: "source bomStripReader scanner \<Rightarrow> ending" where
  "sse_end \<equiv> sc_end (bom_ending source_ending)"

abbreviation sse_ok :: "source bomStripReader scanner \<Rightarrow> bool" where
  "sse_ok \<equiv> sc_ok (bom_ready source_stream source_ending source_ready)"

text \<open>What is left of the input after its first line.\<close>

definition next_state ::
    "source bomStripReader scanner \<Rightarrow> source bomStripReader scanner \<Rightarrow> string \<Rightarrow> string \<Rightarrow> bool" where
  "next_state s s' l r \<longleftrightarrow>
     sse_Scan s = Some (Ret True, s') \<and> Scanner_Text s' = l \<and> sse_rest s' = r \<and> sse_ok s' \<and>
     sc_max s' = sc_max s \<and> sse_end s' = sse_end s"

lemma take_line:
  "length l < m \<Longrightarrow> take m (l @ c # r) = l @ c # take (m - length l - 1) r"
  by (cases "m - length l") simp_all

lemma Scan_line_LF:
  assumes "sse_ok s" "sse_rest s = l @ LF # r" "no_eol l" "length l + 1 \<le> sc_max s"
  shows "\<exists>s'. next_state s s' l r"
proof -
  have "take (sc_max s) (sse_rest s) = l @ LF # take (sc_max s - length l - 1) r"
    unfolding assms(2) using assms(4) by (intro take_line) simp
  then show ?thesis
    using scan.Scan_token [OF assms(1), of "length l + 1" l] assms(2-4)
    by (auto simp: splitSSELines_LF next_state_def Scanner_Text_def)
qed

lemma Scan_line_CR:
  assumes "sse_ok s" "sse_rest s = l @ CR # r" "no_eol l" "r \<noteq> []" "length l + 2 \<le> sc_max s"
  shows "\<exists>s'. next_state s s' l (skip_LF r)"
proof -
  obtain c r' where r: "r = c # r'" using assms(4) by (cases r) auto
  have "take (sc_max s) (sse_rest s) = (l @ [CR]) @ c # take (sc_max s - length (l @ [CR]) - 1) r'"
    using take_line [of "l @ [CR]" "sc_max s" c r'] assms(2,5) r by simp
  then show ?thesis
    using scan.Scan_token [OF assms(1), of "length l + (if c = LF then 2 else 1)" l] assms(2,3)
    by (auto simp: splitSSELines_CR next_state_def Scanner_Text_def r)
qed

lemma Scan_line_last:
  assumes "sse_ok s" "sse_rest s = l \<or> sse_rest s = l @ [CR]" "no_eol l" "sse_rest s \<noteq> []"
    "length (sse_rest s) < sc_max s" "sse_end s \<noteq> Blocks"
  shows "\<exists>s'. next_state s s' l []"
  using scan.Scan_token [OF assms(1), of "length (sse_rest s)" l] assms(2-6)
  by (auto simp: splitSSELines_none splitSSELines_CR [where r = "[]"] next_state_def
      Scanner_Text_def)

text \<open>One \<open>Scan\<close> delivers the next line of the stream, if it has one.\<close>

lemma Scan_line:
  assumes ok: "sse_ok s" and fit: "lines_fit (sc_max s) (sse_rest s)"
    and ls: "stream_lines (sse_end s) (sse_rest s) = l # ls"
  shows "\<exists>s' r. next_state s s' l r \<and> stream_lines (sse_end s) r = ls \<and> lines_fit (sc_max s) r"
proof (cases "sse_rest s" rule: first_line_cases)
  case none
  have "\<exists>s'. next_state s s' l []"
    using Scan_line_last [OF ok, of l] ls fit none
    by (auto simp: stream_lines_none fits_none split: if_splits)
  moreover have "ls = []" "lines_fit (sc_max s) []"
    using ls fit none by (auto simp: stream_lines_none fits_none split: if_splits)
  ultimately show ?thesis using stream_lines_Nil by blast
next
  case (lf l' r)
  then have eqs: "l' = l" "stream_lines (sse_end s) r = ls" "lines_fit (sc_max s) r"
      "length l + 1 \<le> sc_max s"
    using ls fit by (auto simp: stream_lines_LF fits_from_skip)
  then show ?thesis using Scan_line_LF [OF ok lf(2,1)] by blast
next
  case (cr l' r)
  show ?thesis
  proof (cases "r = []")
    case True
    then have eqs: "l' = l" "ls = []" "sse_end s \<noteq> Blocks" "length (sse_rest s) < sc_max s"
      using ls fit cr by (auto simp: stream_lines_last_CR fits_from_skip split: if_splits)
    then have "\<exists>s'. next_state s s' l []"
      using Scan_line_last [OF ok, of l] cr True by auto
    moreover have "lines_fit (sc_max s) []" using eqs(4) by simp
    ultimately show ?thesis using stream_lines_Nil eqs(2) by blast
  next
    case False
    then have eqs: "l' = l" "stream_lines (sse_end s) (skip_LF r) = ls"
        "lines_fit (sc_max s) (skip_LF r)" "length l + 2 \<le> sc_max s"
      using ls fit cr by (auto simp: stream_lines_CR fits_from_skip)
    then show ?thesis using Scan_line_CR [OF ok cr(2,1) False] by blast
  qed
qed

lemma Scan_no_line:
  assumes ok: "sse_ok s" and fit: "lines_fit (sc_max s) (sse_rest s)"
    and ls: "stream_lines (sse_end s) (sse_rest s) = []"
  shows "(case sse_end s of
       Blocks \<Rightarrow> sse_Scan s = None
     | Ends x \<Rightarrow> \<exists>s'. sse_Scan s = Some (Ret False, s') \<and> sc_err s' = Some x \<and> sse_ok s' \<and>
         sse_rest s' = [] \<and> sc_max s' = sc_max s \<and> sse_end s' = Ends x)"
proof (cases "sse_end s")
  case (Ends x)
  then have "sse_rest s = []" using ls by simp
  then show ?thesis using scan.Scan_end [OF ok _ Ends] Ends by simp
next
  case Blocks
  show ?thesis
  proof (cases "sse_rest s" rule: first_line_cases)
    case none
    then show ?thesis
      using scan.Scan_blocks [OF ok _ _ Blocks] fit Blocks by (simp add: splitSSELines_none fits_none)
  next
    case (lf l r)
    then show ?thesis using ls by (simp add: stream_lines_LF)
  next
    case (cr l r)
    then show ?thesis
      using scan.Scan_blocks [OF ok _ _ Blocks] fit Blocks ls
      by (cases "r = []") (simp_all add: splitSSELines_CR stream_lines_CR fits_from_skip
        del: stream_lines.simps)
  qed
qed

text \<open>A line beyond the limit stops the scan, at the first such line.\<close>

lemma Scan_over:
  assumes ok: "sse_ok s" and over: "line_too_long (sc_max s) (sse_rest s)"
  shows "(\<exists>s'. sse_Scan s = Some (Ret False, s') \<and> sc_err s' = Some ErrTooLong) \<or>
    (\<exists>s' l r. next_state s s' l r \<and> line_too_long (sc_max s) r \<and> length r < length (sse_rest s))"
proof (cases "sse_rest s" rule: first_line_cases)
  case none
  then have "no_eol (take (sc_max s) (sse_rest s))" by (auto simp: no_eol_def dest: in_set_takeD)
  then show ?thesis
    using scan.Scan_too_long [OF ok] over none by (simp add: splitSSELines_none over_none)
next
  case (lf l r)
  show ?thesis
  proof (cases "length l + 1 \<le> sc_max s")
    case True
    then have "line_too_long (sc_max s) r" "length r < length (sse_rest s)"
      using over lf by (auto simp: over_from_skip)
    then show ?thesis using Scan_line_LF [OF ok lf(2,1) True] by blast
  next
    case False
    then have "no_eol (take (sc_max s) (sse_rest s))"
      using lf by (auto simp: no_eol_def dest: in_set_takeD)
    then show ?thesis
      using scan.Scan_too_long [OF ok] lf False by (simp add: splitSSELines_none)
  qed
next
  case (cr l r)
  consider (fits) "r \<noteq> []" "length l + 2 \<le> sc_max s" | (alone) "r \<noteq> []" "length l + 1 = sc_max s"
    | (beyond) "sc_max s \<le> length l"
    using over cr by (cases "r = []"; cases "length l + 1 = sc_max s"; cases "sc_max s \<le> length l")
      (auto simp: over_from_skip)
  then show ?thesis
  proof cases
    case fits
    then have "line_too_long (sc_max s) (skip_LF r)" "length (skip_LF r) < length (sse_rest s)"
      using over cr length_skip_LF [of r] by (auto simp: over_from_skip)
    then show ?thesis using Scan_line_CR [OF ok cr(2,1) fits] by blast
  next
    case alone
    then have "take (sc_max s) (sse_rest s) = l @ [CR]"
      using take_line [of l "sc_max s" CR r] cr by simp
    moreover have "sc_max s < length (sse_rest s)" using alone cr by (cases r) auto
    ultimately show ?thesis
      using scan.Scan_too_long [OF ok] cr(1) by (simp add: splitSSELines_CR)
  next
    case beyond
    then have "no_eol (take (sc_max s) (sse_rest s))"
      using cr by (auto simp: no_eol_def dest: in_set_takeD)
    then show ?thesis
      using scan.Scan_too_long [OF ok] cr beyond by (simp add: splitSSELines_none)
  qed
qed

subsection \<open>What the reading functions return\<close>

text \<open>Feeding lines to the parser until a condition holds.\<close>

fun run_until :: "(streamParser \<Rightarrow> bool) \<Rightarrow> streamParser \<Rightarrow> string list \<Rightarrow> bool \<times> streamParser" where
  "run_until stop p [] = (False, p)"
| "run_until stop p (l # ls) =
     (if stop (acceptLine p l) then (True, acceptLine p l) else run_until stop (acceptLine p l) ls)"

lemma run_until_never: "run_until (\<lambda>p. False) p ls = (False, acceptLines p ls)"
  by (induction ls arbitrary: p) auto

text \<open>The scanner has the lines \<open>ls\<close> to deliver, and the stream then ends as \<open>e\<close> says.\<close>

definition feeds :: "source bomStripReader scanner \<Rightarrow> ending \<Rightarrow> string list \<Rightarrow> bool" where
  "feeds s e ls \<longleftrightarrow> sse_ok s \<and> lines_fit (sc_max s) (sse_rest s) \<and> sse_end s = e \<and>
     stream_lines e (sse_rest s) = ls"

lemma feeds_line:
  assumes "feeds s e (l # ls)"
  obtains s' where "sse_Scan s = Some (Ret True, s')" "Scanner_Text s' = l" "feeds s' e ls"
  using assms Scan_line [of s l ls] that by (auto simp: feeds_def next_state_def)

lemma feeds_blocks: "feeds s Blocks [] \<Longrightarrow> sse_Scan s = None"
  using Scan_no_line [of s] by (simp add: feeds_def)

lemma feeds_end:
  assumes "feeds s (Ends x) []"
  obtains s' where "sse_Scan s = Some (Ret False, s')" "sc_err s' = Some x" "feeds s' (Ends x) []"
  using assms Scan_no_line [of s] that by (auto simp: feeds_def sc_ok_def)

lemma scanLoop_lines:
  assumes "feeds s e ls"
  shows "case run_until stop p ls of
      (True, p') \<Rightarrow> \<exists>s'. scanLoop source_Read stop s p = Some (Ret True, s', p')
    | (False, p') \<Rightarrow> (case e of
          Blocks \<Rightarrow> scanLoop source_Read stop s p = None
        | Ends x \<Rightarrow> \<exists>s'. scanLoop source_Read stop s p = Some (Ret False, s', p') \<and> sc_err s' = Some x)"
  using assms
proof (induction ls arbitrary: s p)
  case Nil
  show ?case
  proof (cases e)
    case Blocks
    then show ?thesis using feeds_blocks [of s] Nil by (simp add: scanLoop.simps [of _ _ s])
  next
    case (Ends x)
    then obtain s' where "sse_Scan s = Some (Ret False, s')" "sc_err s' = Some x"
      using Nil feeds_end by blast
    then show ?thesis using Ends by (simp add: scanLoop.simps [of _ _ s])
  qed
next
  case (Cons l ls)
  obtain s' where s': "sse_Scan s = Some (Ret True, s')" "Scanner_Text s' = l" "feeds s' e ls"
    using feeds_line [OF Cons.prems] .
  then have "scanLoop source_Read stop s p =
      (if stop (acceptLine p l) then Some (Ret True, s', acceptLine p l)
       else scanLoop source_Read stop s' (acceptLine p l))"
    by (subst scanLoop.simps) simp
  then show ?case
    using Cons.IH [OF s'(3), of "acceptLine p l"]
    by (auto split: prod.splits bool.splits ending.splits)
qed

lemma scanLoop_too_long:
  assumes "sse_ok s" "line_too_long (sc_max s) (sse_rest s)"
  shows "\<exists>s' p'. scanLoop source_Read (\<lambda>p. False) s p = Some (Ret False, s', p') \<and>
    sc_err s' = Some ErrTooLong"
  using assms
proof (induction "length (sse_rest s)" arbitrary: s p rule: less_induct)
  case less
  from Scan_over [OF less.prems] show ?case
  proof (elim disjE exE conjE)
    fix s' assume "sse_Scan s = Some (Ret False, s')" "sc_err s' = Some ErrTooLong"
    then show ?thesis by (subst scanLoop.simps) simp
  next
    fix s' l r
    assume "next_state s s' l r" and lt: "line_too_long (sc_max s) r" "length r < length (sse_rest s)"
    then have eqs: "sse_Scan s = Some (Ret True, s')" "sse_rest s' = r" "sse_ok s'"
        "sc_max s' = sc_max s"
      by (simp_all add: next_state_def)
    show ?thesis
      using less.hyps [of s' "acceptLine p (Scanner_Text s')"] eqs lt
      by (subst scanLoop.simps) simp
  qed
qed

text \<open>The scanner the reading functions start from.\<close>

definition line_limit :: "ReadOption list \<Rightarrow> nat" where
  "line_limit opts = nat (maxLineBytes (applyReadOptions opts))"

text \<open>A limit that is positive and no more than half the range of a Go \<open>int\<close>.\<close>

definition limit_ok :: "ReadOption list \<Rightarrow> bool" where
  "limit_ok opts \<longleftrightarrow> 0 < line_limit opts \<and> line_limit opts \<le> maxInt div 2"

lemma limit_ok_default: "limit_ok []"
  by (simp add: limit_ok_def line_limit_def applyReadOptions_def DefaultMaxLineBytes_def maxInt_def)

lemma newSSEScanner_start:
  assumes "source_ready r" "plain_end (source_ending r)" "limit_ok opts"
  defines "s \<equiv> newSSEScanner r (maxLineBytes (applyReadOptions opts))"
  shows "sse_ok s" "sc_max s = line_limit opts" "sse_end s = source_ending r"
    "sse_rest s = (if source_ending r = Blocks \<and> length (source_stream r) < 3 then []
       else strip_bom (source_stream r))"
  using assms
  by (auto simp: newSSEScanner_def sc_ok_def sc_rest_def sc_end_def bom_ready_def bom_stream_def
      bom_ending_def stripLeadingBOM_def line_limit_def limit_ok_def initialLineCap_def)

text \<open>
  The events of a source: decode its bytes, split them into lines, interpret the lines. A live
  source of fewer than three bytes is still being probed for a byte-order mark, but has no
  event to deliver either.
\<close>

definition source_lines :: "source \<Rightarrow> string list" where
  "source_lines r = stream_lines (source_ending r) (strip_bom (source_stream r))"

definition source_events :: "source \<Rightarrow> ParsedEvent list" where
  "source_events r = stream_events (source_lines r)"

text \<open>What the reading functions need of a source and the options.\<close>

definition readable :: "source \<Rightarrow> ReadOption list \<Rightarrow> bool" where
  "readable r opts \<longleftrightarrow>
     source_ready r \<and> plain_end (source_ending r) \<and> limit_ok opts \<and>
     lines_fit (line_limit opts) (strip_bom (source_stream r))"

lemma strip_bom_short: "length s < 3 \<Longrightarrow> strip_bom s = s"
  by (auto simp: strip_bom_def TrimPrefix_def HasPrefix_iff utf8BOM_def)

lemma short_no_events: "length s < 3 \<Longrightarrow> stream_events (stream_lines Blocks s) = []"
proof (rule stream_events_no_data, safe)
  fix l assume *: "length s < 3" "l \<in> set (stream_lines Blocks s)" "field_name l = ''data''"
  then have "length l < 3" using terminated_length [of l "hold_CR s"]
    by (auto simp: hold_CR_def split: if_splits)
  moreover have "length (field_name l) \<le> length l"
    by (simp add: field_name_def length_takeWhile_le)
  ultimately show False using *(3) by simp
qed

abbreviation start_scanner :: "source \<Rightarrow> ReadOption list \<Rightarrow> source bomStripReader scanner" where
  "start_scanner r opts \<equiv> newSSEScanner r (maxLineBytes (applyReadOptions opts))"

lemma start_feeds:
  assumes "readable r opts"
  obtains ls where "feeds (start_scanner r opts) (source_ending r) ls"
    "stream_events ls = source_events r"
proof -
  have r: "source_ready r" "plain_end (source_ending r)" "limit_ok opts"
    and fit: "lines_fit (line_limit opts) (strip_bom (source_stream r))"
    using assms by (simp_all add: readable_def)
  note st = newSSEScanner_start [OF r]
  let ?rest = "sse_rest (start_scanner r opts)"
  have "stream_events (stream_lines (source_ending r) ?rest) = source_events r"
    using st(4) short_no_events [of "source_stream r"] strip_bom_short [of "source_stream r"]
    by (auto simp: source_events_def source_lines_def simp del: stream_lines.simps)
  moreover have "lines_fit (line_limit opts) ?rest"
    using st(4) fit r(3) by (auto simp: limit_ok_def)
  ultimately show thesis using that st(1,2,3) by (simp add: feeds_def)
qed

lemma ReadEvents_result:
  assumes "readable r opts" and "source_ending r = Ends x"
  shows "ReadEvents source_Read r opts =
    Some (Ret (if x = EOF then Inr (source_events r) else Inl (scanError x)))"
proof -
  obtain ls where ls: "feeds (start_scanner r opts) (Ends x) ls" "stream_events ls = source_events r"
    using start_feeds [OF assms(1)] assms(2) by metis
  then show ?thesis
    using scanLoop_lines [OF ls(1), of "\<lambda>p. False" zeroParser]
    by (auto simp: ReadEvents_def run_until_never Scanner_Err_def acceptLines_spec)
qed

text \<open>
  C5. \<open>ReadEvents\<close> on any source that ends returns, and what it returns depends on the bytes of
  the stream only, not on how reads cut them: at the end of the file the events of the
  standard's interpretation (one leading byte-order mark dropped, lines ended by CR, LF or
  CRLF, a pending frame discarded), and after a read error that error.
\<close>

theorem ReadEvents_returns_stream_events:
  assumes "readable r opts" and "source_ending r = Ends x"
  shows "ReadEvents source_Read r opts =
    Some (Ret (if x = EOF then Inr (source_events r) else Inl (scanError x)))"
  using assms by (rule ReadEvents_result)

text \<open>A stream cut in the middle of a CRLF, with a byte-order mark, a comment and a pending frame.\<close>

definition sample_source :: source where
  "sample_source =
     [Chunk [CHR 0xEF, CHR 0xBB] None,
      Chunk ([CHR 0xBF] @ ''id: 7'' @ [CR]) None,
      Chunk ([LF] @ ''data: a'' @ [LF]) None,
      Chunk (''data:b'' @ [CR, CR] @ '': note'' @ [LF, LF]) None,
      Chunk (''retry: 0050'' @ [LF] @ ''data'' @ [LF, LF] @ ''data: lost'') None]"

lemma limit_simps:
  "0 < n \<Longrightarrow> line_limit [WithMaxLineBytes n] = nat n"
  "0 < n \<Longrightarrow> n \<le> 2 ^ 62 - 1 \<Longrightarrow> limit_ok [WithMaxLineBytes n]"
  by (simp_all add: line_limit_def limit_ok_def applyReadOptions_def WithMaxLineBytes_def maxInt_def
      nat_le_iff)

lemma sample_source_readable:
  "readable sample_source [WithMaxLineBytes 64]" "source_ending sample_source = Ends EOF"
  by (simp_all add: readable_def limit_simps sample_source_def strip_bom_def utf8BOM_def TrimPrefix_def)

lemma sample_source_lines:
  "source_lines sample_source =
     [''id: 7'', ''data: a'', ''data:b'', [], '': note'', [], ''retry: 0050'', ''data'', [], ''data: lost'']"
  by code_simp

theorem ReadEvents_returns_stream_events_witness:
  "ReadEvents source_Read sample_source [WithMaxLineBytes 64] = Some (Ret (Inr
     [\<lparr>pe_Type = [], pe_DataLines = [''a'', ''b''], pe_ID = ''7'', pe_Retry = 0\<rparr>,
      \<lparr>pe_Type = [], pe_DataLines = [[]], pe_ID = ''7'', pe_Retry = 50\<rparr>]))"
proof -
  have "source_events sample_source =
     [\<lparr>pe_Type = [], pe_DataLines = [''a'', ''b''], pe_ID = ''7'', pe_Retry = 0\<rparr>,
      \<lparr>pe_Type = [], pe_DataLines = [[]], pe_ID = ''7'', pe_Retry = 50\<rparr>]"
    by (simp add: source_events_def sample_source_lines stream_events_def dispatch_points_def
        event_after_def values_of_def current_frame_def field_name_def field_value_def last_or_def
        valid_id_def valid_retry_def isDigit_def digit_value_def upt_rec)
  then show ?thesis
    using ReadEvents_returns_stream_events [OF sample_source_readable] by simp
qed



text \<open>\<open>ReadNEvents\<close> stops at the line that completes the last wanted event.\<close>

lemma run_until_count:
  assumes "length (stream_events done) < n"
  shows "\<exists>p. run_until (\<lambda>p. n \<le> length (sp_events p)) (parser_after done) todo =
      (n \<le> length (stream_events (done @ todo)), p) \<and>
    sp_events p = take n (stream_events (done @ todo))"
  using assms
proof (induction todo arbitrary: "done")
  case Nil
  then show ?case by simp
next
  case (Cons l todo)
  obtain es where es: "stream_events (done @ l # todo) = stream_events (done @ [l]) @ es"
    using stream_events_append [of "done @ [l]" todo] by auto
  show ?case
  proof (cases "n \<le> length (stream_events (done @ [l]))")
    case True
    then have "n = length (stream_events (done @ [l]))"
      using Cons.prems stream_events_snoc_length [of "done" l] by simp
    then show ?thesis
      by (auto simp: acceptLine_parser_after es)
  next
    case False
    then show ?thesis
      using Cons.IH [of "done @ [l]"] by (auto simp: acceptLine_parser_after)
  qed
qed

lemma ReadNEvents_result:
  assumes "readable r opts" and "0 < n"
  shows "ReadNEvents source_Read r (int n) opts =
    (if n \<le> length (source_events r) then Some (Ret (Inr (take n (source_events r))))
     else (case source_ending r of
        Blocks \<Rightarrow> None
      | Ends x \<Rightarrow> Some (Ret
          (if x = EOF \<or> source_events r \<noteq> [] then Inr (source_events r) else Inl (scanError x)))))"
proof -
  obtain ls where ls: "feeds (start_scanner r opts) (source_ending r) ls"
      "stream_events ls = source_events r"
    using start_feeds [OF assms(1)] .
  let ?stop = "\<lambda>p. n \<le> length (sp_events p)"
  obtain p where p: "run_until ?stop zeroParser ls = (n \<le> length (source_events r), p)"
      "sp_events p = take n (source_events r)"
    using run_until_count [of "[]" n ls] assms(2) ls(2)
    by (auto simp: parser_after_Nil)
  show ?thesis
    using scanLoop_lines [OF ls(1), of ?stop zeroParser] p assms(2)
    by (cases "n \<le> length (source_events r)"; cases "source_ending r")
      (auto simp: ReadNEvents_def Scanner_Err_def)
qed

text \<open>
  C30. \<open>ReadNEvents\<close> asked for \<open>n > 0\<close> events returns the first \<open>n\<close> events of the stream as
  soon as they have been sent, also on a live connection that never ends. When the stream
  ends before, it returns all events there are, and a read error only when there are none. It
  waits forever exactly when a live stream sends fewer than \<open>n\<close> events.
\<close>

theorem ReadNEvents_returns_first:
  assumes "readable r opts" and "0 < n"
  shows "ReadNEvents source_Read r (int n) opts =
    (if n \<le> length (source_events r) then Some (Ret (Inr (take n (source_events r))))
     else (case source_ending r of
        Blocks \<Rightarrow> None
      | Ends x \<Rightarrow> Some (Ret
          (if x = EOF \<or> source_events r \<noteq> [] then Inr (source_events r) else Inl (scanError x)))))"
  by (rule ReadNEvents_result [OF assms])

theorem ReadNEvents_returns_first_witness:
  "ReadNEvents source_Read [Chunk (''data: a'' @ [LF, LF] @ ''data'') None, Block] 1
     [WithMaxLineBytes 64] =
   Some (Ret (Inr [\<lparr>pe_Type = [], pe_DataLines = [''a''], pe_ID = [], pe_Retry = 0\<rparr>]))"
proof -
  let ?r = "[Chunk (''data: a'' @ [LF, LF] @ ''data'') None, Block]"
  have r: "readable ?r [WithMaxLineBytes 64]"
    by (simp add: readable_def limit_simps strip_bom_def utf8BOM_def TrimPrefix_def)
  have "source_lines ?r = [''data: a'', []]" by code_simp
  then have "source_events ?r = [\<lparr>pe_Type = [], pe_DataLines = [''a''], pe_ID = [], pe_Retry = 0\<rparr>]"
    by (simp add: source_events_def stream_events_def dispatch_points_def event_after_def
        values_of_def current_frame_def field_name_def field_value_def last_or_def upt_rec)
  then show ?thesis using ReadNEvents_returns_first [OF r, of 1] by simp
qed

subsection \<open>StreamReader delivers the events one by one\<close>

text \<open>A number of calls of \<open>Next\<close>, with their results.\<close>

primrec nexts ::
    "'r read_fn \<Rightarrow> nat \<Rightarrow> 'r StreamReader \<Rightarrow>
     ((goerr + ParsedEvent) outcome list \<times> 'r StreamReader) option" where
  "nexts read 0 sr = Some ([], sr)"
| "nexts read (Suc n) sr =
     Option.bind (Next read sr)
       (\<lambda>(res, sr1). Option.bind (nexts read n sr1) (\<lambda>(rs, sr2). Some (res # rs, sr2)))"

text \<open>The reader has parsed some lines, has others to come, and has handed out \<open>k\<close> events.\<close>

definition sr_inv :: "ending \<Rightarrow> string list \<Rightarrow> nat \<Rightarrow> source StreamReader \<Rightarrow> bool" where
  "sr_inv e ls k sr \<longleftrightarrow>
     (\<exists>done todo. ls = done @ todo \<and> sr_parser sr = parser_after done \<and>
        feeds (sr_scanner sr) e todo) \<and>
     sr_sent sr = k"

lemma Next_step:
  assumes "feeds (sr_scanner sr) e todo" "sr_parser sr = parser_after done"
    "sr_sent sr < length (stream_events (done @ todo))"
  shows "\<exists>sr'. Next source_Read sr = Some (Ret (Inr (stream_events (done @ todo) ! sr_sent sr)), sr') \<and>
    sr_inv e (done @ todo) (sr_sent sr + 1) sr'"
  using assms
proof (induction todo arbitrary: sr "done")
  case Nil
  then have "Next source_Read sr =
      Some (Ret (Inr (stream_events done ! sr_sent sr)), sr\<lparr>sr_sent := sr_sent sr + 1\<rparr>)"
    by (subst Next.simps) simp
  then show ?case using Nil by (auto simp: sr_inv_def)
next
  case (Cons l todo)
  show ?case
  proof (cases "sr_sent sr < length (stream_events done)")
    case True
    moreover obtain es where "stream_events (done @ l # todo) = stream_events done @ es"
      using stream_events_append by blast
    ultimately have "Next source_Read sr =
        Some (Ret (Inr (stream_events (done @ l # todo) ! sr_sent sr)), sr\<lparr>sr_sent := sr_sent sr + 1\<rparr>)"
      using Cons.prems(2) by (subst Next.simps) (simp add: nth_append)
    moreover have "sr_inv e (done @ l # todo) (sr_sent sr + 1) (sr\<lparr>sr_sent := sr_sent sr + 1\<rparr>)"
      using Cons.prems(1,2) unfolding sr_inv_def by (intro conjI exI [of _ "done"] exI [of _ "l # todo"]) simp_all
    ultimately show ?thesis by blast
  next
    case False
    obtain s' where s': "sse_Scan (sr_scanner sr) = Some (Ret True, s')" "Scanner_Text s' = l"
        "feeds s' e todo"
      using feeds_line [OF Cons.prems(1)] .
    let ?sr = "sr\<lparr>sr_scanner := s', sr_parser := parser_after (done @ [l])\<rparr>"
    have "Next source_Read sr = Next source_Read ?sr"
      using False Cons.prems(2) s'
      by (subst Next.simps) (simp add: acceptLine_parser_after)
    then show ?thesis
      using Cons.IH [of ?sr "done @ [l]"] s' Cons.prems(3) by simp
  qed
qed

lemma Next_exhausted:
  assumes "feeds (sr_scanner sr) e todo" "sr_parser sr = parser_after done"
    "length (stream_events (done @ todo)) \<le> sr_sent sr"
  shows "case e of
      Blocks \<Rightarrow> Next source_Read sr = None
    | Ends x \<Rightarrow> \<exists>sr'. Next source_Read sr =
          Some (Ret (Inl (if x = EOF then EOF else scanError x)), sr') \<and>
        sr_inv e (done @ todo) (sr_sent sr) sr'"
  using assms
proof (induction todo arbitrary: sr "done")
  case Nil
  show ?case
  proof (cases e)
    case Blocks
    then show ?thesis
      using Nil feeds_blocks [of "sr_scanner sr"] by (simp add: Next.simps [of _ sr])
  next
    case (Ends x)
    obtain s' where s': "sse_Scan (sr_scanner sr) = Some (Ret False, s')" "sc_err s' = Some x"
        "feeds s' (Ends x) []"
      using Nil(1) Ends feeds_end by blast
    then have "Next source_Read sr =
        Some (Ret (Inl (if x = EOF then EOF else scanError x)), sr\<lparr>sr_scanner := s'\<rparr>)"
      using Nil by (simp add: Next.simps [of _ sr] Scanner_Err_def)
    moreover have "sr_inv e done (sr_sent sr) (sr\<lparr>sr_scanner := s'\<rparr>)"
      using s'(3) Ends Nil(2) by (auto simp: sr_inv_def)
    ultimately show ?thesis using Ends by simp
  qed
next
  case (Cons l todo)
  obtain s' where s': "sse_Scan (sr_scanner sr) = Some (Ret True, s')" "Scanner_Text s' = l"
      "feeds s' e todo"
    using feeds_line [OF Cons.prems(1)] .
  let ?sr = "sr\<lparr>sr_scanner := s', sr_parser := parser_after (done @ [l])\<rparr>"
  obtain es where "stream_events (done @ l # todo) = stream_events done @ es"
    using stream_events_append by blast
  then have "Next source_Read sr = Next source_Read ?sr"
    using Cons.prems(2,3) s' by (subst Next.simps) (simp add: acceptLine_parser_after)
  then show ?case
    using Cons.IH [of ?sr "done @ [l]"] s' Cons.prems(3) by (cases e) simp_all
qed

text \<open>The results of \<open>n\<close> calls when \<open>k\<close> of the events have been handed out already.\<close>

definition next_results :: "ending \<Rightarrow> ParsedEvent list \<Rightarrow> nat \<Rightarrow> (goerr + ParsedEvent) outcome list option" where
  "next_results e events n =
     (let done = map (\<lambda>evt. Ret (Inr evt)) (take n events)
      in if n \<le> length events then Some done
         else (case e of
            Blocks \<Rightarrow> None
          | Ends x \<Rightarrow> Some (done @ replicate (n - length events)
              (Ret (Inl (if x = EOF then EOF else scanError x))))))"

lemma next_results_Suc:
  "next_results e events (Suc n) =
     (case events of
        evt # evts \<Rightarrow> map_option ((#) (Ret (Inr evt))) (next_results e evts n)
      | [] \<Rightarrow> (case e of
            Blocks \<Rightarrow> None
          | Ends x \<Rightarrow> map_option ((#) (Ret (Inl (if x = EOF then EOF else scanError x))))
              (next_results e [] n)))"
  by (cases events; cases e) (auto simp: next_results_def Let_def)

lemma nexts_results:
  "sr_inv e ls k sr \<Longrightarrow> k \<le> length (stream_events ls) \<Longrightarrow>
   map_option fst (nexts source_Read n sr) = next_results e (drop k (stream_events ls)) n"
proof (induction n arbitrary: k sr)
  case 0
  then show ?case by (simp add: next_results_def)
next
  case (Suc n)
  obtain "done" todo where ls: "ls = done @ todo" "sr_parser sr = parser_after done"
      "feeds (sr_scanner sr) e todo" "sr_sent sr = k"
    using Suc.prems(1) by (auto simp: sr_inv_def)
  show ?case
  proof (cases "k < length (stream_events ls)")
    case True
    then obtain sr' where sr': "Next source_Read sr = Some (Ret (Inr (stream_events ls ! k)), sr')"
        "sr_inv e ls (k + 1) sr'"
      using Next_step [OF ls(3,2)] ls by auto
    have "next_results e (drop (k + 1) (stream_events ls)) n = map_option fst (nexts source_Read n sr')"
      using Suc.IH [OF sr'(2)] True by simp
    moreover have "drop k (stream_events ls) = stream_events ls ! k # drop (k + 1) (stream_events ls)"
      using True by (simp add: Cons_nth_drop_Suc)
    ultimately show ?thesis
      using sr'(1) by (cases "nexts source_Read n sr'") (auto simp: next_results_Suc)
  next
    case False
    then have k: "k = length (stream_events ls)" using Suc.prems(2) by simp
    note ex = Next_exhausted [OF ls(3,2)]
    show ?thesis
    proof (cases e)
      case Blocks
      then show ?thesis using ex k ls by (simp add: next_results_Suc)
    next
      case (Ends x)
      then obtain sr' where sr': "Next source_Read sr =
          Some (Ret (Inl (if x = EOF then EOF else scanError x)), sr')" "sr_inv e ls k sr'"
        using ex k ls by auto
      then show ?thesis
        using Suc.IH [OF sr'(2), symmetric] Ends k
        by (cases "nexts source_Read n sr'") (auto simp: next_results_Suc)
    qed
  qed
qed

lemma nexts_NewStreamReader:
  assumes "readable r opts"
  shows "map_option fst (nexts source_Read n (NewStreamReader r opts)) =
    next_results (source_ending r) (source_events r) n"
proof -
  obtain ls where ls: "feeds (start_scanner r opts) (source_ending r) ls"
      "stream_events ls = source_events r"
    using start_feeds [OF assms] .
  then have "sr_inv (source_ending r) ls 0 (NewStreamReader r opts)"
    unfolding sr_inv_def NewStreamReader_def parser_after_Nil [symmetric]
    by (intro conjI exI [of _ "[]"] exI [of _ ls]) simp_all
  then show ?thesis using nexts_results [of _ ls 0] ls(2) by simp
qed

text \<open>
  A \<open>StreamReader\<close> hands out the events of its stream one per call of \<open>Next\<close>, in order,
  none twice and none lost between calls, each as soon as it has been sent. After the last
  event every further call reports \<open>io.EOF\<close> (or the read error) again, and on a live stream
  it waits.
\<close>

lemma StreamReader_delivers_all:
  assumes "readable r opts"
  shows "map_option fst (nexts source_Read n (NewStreamReader r opts)) =
    next_results (source_ending r) (source_events r) n"
  using assms by (rule nexts_NewStreamReader)

end
