(* ===== verification/RoundTrip.thy ===== *)
theory RoundTrip
  imports Events Reading
begin

text \<open>
  Writer and reader together: what \<open>WriteEvent\<close>, \<open>WriteHeartbeat\<close> and \<open>WriteRetry\<close> (package sse)
  put on the wire is what \<open>ReadEvents\<close>, \<open>ReadNEvents\<close> and \<open>StreamReader\<close> (package sseparse)
  read back, however the bytes are cut into reads.
\<close>

subsection \<open>Transmissions\<close>

text \<open>A sequence of writes on one connection.\<close>

datatype 'i transmission = OutEvent "'i Event" | OutHeartbeat | OutRetry uint

fun write_output :: "'i brandid \<Rightarrow> 'i transmission \<Rightarrow> writer \<Rightarrow> writer" where
  "write_output B (OutEvent e) w = snd (WriteEvent B w e)"
| "write_output B OutHeartbeat w = snd (WriteHeartbeat w)"
| "write_output B (OutRetry ms) w = snd (WriteRetry w ms)"

text \<open>The bytes of a transmission on a connection that accepts every write.\<close>

definition transmitted :: "'i brandid \<Rightarrow> 'i transmission list \<Rightarrow> string" where
  "transmitted B outs = wire (fold (write_output B) outs \<lparr>wire = [], outcomes = []\<rparr>)"

text \<open>
  What a client sees of it: the events, each with the identifier and the retry time in effect.
\<close>

fun received :: "'i brandid \<Rightarrow> string \<Rightarrow> uint \<Rightarrow> 'i transmission list \<Rightarrow> ParsedEvent list" where
  "received B i r [] = []"
| "received B i r (OutHeartbeat # outs) = received B i r outs"
| "received B i r (OutRetry ms # outs) = received B i ms outs"
| "received B i r (OutEvent e # outs) =
     (let i' = (if GetID B (ev_ID e) = [] then i else GetID B (ev_ID e));
          r' = (if ev_Retry e = 0 then r else ev_Retry e)
      in \<lparr>pe_Type = ev_Event e, pe_DataLines = data_lines (ev_Data e), pe_ID = i', pe_Retry = r'\<rparr>
         # received B i' r' outs)"

text \<open>
  The events a caller may send: a name and an identifier of a single line, the identifier
  without NUL (what \<open>ParseEventID\<close> accepts). The payload is arbitrary.
\<close>

fun sendable :: "'i brandid \<Rightarrow> 'i transmission \<Rightarrow> bool" where
  "sendable B (OutEvent e) =
     (no_eol (ev_Event e) \<and> no_eol (GetID B (ev_ID e)) \<and> NUL \<notin> set (GetID B (ev_ID e)))"
| "sendable B _ = True"

fun output_lines :: "'i brandid \<Rightarrow> 'i transmission \<Rightarrow> string list" where
  "output_lines B (OutEvent e) = event_lines B e"
| "output_lines B OutHeartbeat = ['': heartbeat'']"
| "output_lines B (OutRetry ms) = [field_line ''retry'' (FormatUint ms)]"

subsection \<open>The lines of a transmission\<close>

lemma write_output_wire:
  assumes "brandid_ok B" "outcomes w = []"
  shows "write_output B out w = w\<lparr>wire := wire w @ frame_of_lines (output_lines B out)\<rparr>"
  using assms
  by (cases out)
    (simp_all add: WriteEvent_def eventBuffer_frame Write_def WriteHeartbeat_def WriteRetry_def
      heartbeatFrame_def frame_of_lines_def field_line_def event_frame_def)

lemma fold_write_output:
  "brandid_ok B \<Longrightarrow> outcomes w = [] \<Longrightarrow>
   fold (write_output B) outs w =
     w\<lparr>wire := wire w @ concat (map (\<lambda>out. frame_of_lines (output_lines B out)) outs)\<rparr>"
  by (induction outs arbitrary: w) (simp_all add: write_output_wire)

lemma transmitted_frames:
  "brandid_ok B \<Longrightarrow>
   transmitted B outs = concat (map (\<lambda>out. frame_of_lines (output_lines B out)) outs)"
  by (simp add: transmitted_def fold_write_output)

lemma output_lines_no_eol:
  "sendable B out \<Longrightarrow> l \<in> set (output_lines B out) \<Longrightarrow> no_eol l \<and> l \<noteq> []"
  by (cases out)
    (auto simp: event_lines_def field_line_def data_lines_no_eol split: if_splits)

lemma stream_lines_frame:
  "\<forall>l \<in> set ls. no_eol l \<Longrightarrow> stream_lines e (frame_of_lines ls @ s) = ls @ [] # stream_lines e s"
  using stream_lines_LF [of "[]" e s]
  by (induction ls) (simp_all add: frame_of_lines_Nil frame_of_lines_Cons stream_lines_LF
      del: stream_lines.simps)

lemma lines_fit_frame:
  "\<forall>l \<in> set ls. no_eol l \<and> length l < m \<Longrightarrow> 0 < m \<Longrightarrow> lines_fit m s \<Longrightarrow>
   lines_fit m (frame_of_lines ls @ s)"
  by (induction ls) (simp_all add: frame_of_lines_Nil frame_of_lines_Cons fits_from_skip Suc_leI)

lemma stream_lines_transmitted:
  assumes "brandid_ok B" "\<forall>out \<in> set outs. sendable B out"
  shows "stream_lines e (transmitted B outs) = concat (map (\<lambda>out. output_lines B out @ [[]]) outs)"
  using assms(2) unfolding transmitted_frames [OF assms(1)]
proof (induction outs)
  case (Cons out outs)
  then have "\<forall>l \<in> set (output_lines B out). no_eol l" using output_lines_no_eol by auto
  from stream_lines_frame [OF this] Cons show ?case by (simp del: stream_lines.simps)
qed simp

lemma lines_fit_transmitted:
  assumes "brandid_ok B" "0 < m"
    "\<forall>out \<in> set outs. sendable B out \<and> (\<forall>l \<in> set (output_lines B out). length l < m)"
  shows "lines_fit m (transmitted B outs)"
  using assms(3) unfolding transmitted_frames [OF assms(1)]
proof (induction outs)
  case (Cons out outs)
  then have "\<forall>l \<in> set (output_lines B out). no_eol l \<and> length l < m" using output_lines_no_eol by auto
  with Cons assms(2) show ?case by (simp add: lines_fit_frame)
qed (simp add: assms(2))

text \<open>No frame starts with a byte-order mark.\<close>

lemma strip_bom_transmitted:
  assumes "brandid_ok B"
  shows "strip_bom (transmitted B outs) = transmitted B outs"
proof (cases outs)
  case (Cons out outs')
  have "\<exists>c s. frame_of_lines (output_lines B out) = c # s \<and> c \<noteq> CHR 0xEF"
    by (cases out; cases "data_lines (ev_Data (case out of OutEvent e \<Rightarrow> e))")
      (auto simp: event_lines_def field_line_def frame_of_lines_def)
  then show ?thesis
    using Cons by (auto simp: transmitted_frames [OF assms] strip_bom_def TrimPrefix_def utf8BOM_def)
qed (simp add: transmitted_frames [OF assms] strip_bom_def TrimPrefix_def utf8BOM_def)

subsection \<open>Parsing a transmission\<close>

lemma acceptLine_field:
  assumes "COLON \<notin> set name" "name \<noteq> []"
  shows "acceptLine p (field_line name v) =
    (if name = ''event'' then p\<lparr>sp_frame := (sp_frame p)\<lparr>pe_Type := v\<rparr>\<rparr>
     else if name = ''data'' then
       p\<lparr>sp_frame := (sp_frame p)\<lparr>pe_DataLines := pe_DataLines (sp_frame p) @ [v]\<rparr>\<rparr>
     else if name = ''id'' then (if NUL \<notin> set v then p\<lparr>sp_lastID := v\<rparr> else p)
     else if name = ''retry'' then
       (case ParseUint v of Inr ms \<Rightarrow> p\<lparr>sp_retry := ms\<rparr> | Inl err \<Rightarrow> p)
     else p)"
proof -
  have "\<not> HasPrefix (field_line name v) [COLON]" using assms by (cases name) (auto simp: field_line_def)
  moreover have "parseSSEField (field_line name v) = (name, v)"
    using assms(1) by (simp add: parseSSEField_def field_line_def TrimPrefix_def)
  ultimately show ?thesis
    using assms(2) by (simp add: acceptLine_def applyField_def field_line_def [of name] ContainsByte_def Let_def)
qed

lemma acceptLines_data:
  "acceptLines p (map (field_line ''data'') ls) =
     p\<lparr>sp_frame := (sp_frame p)\<lparr>pe_DataLines := pe_DataLines (sp_frame p) @ ls\<rparr>\<rparr>"
  by (induction ls arbitrary: p) (simp_all add: acceptLine_field)

text \<open>The parser between two frames.\<close>

definition idle_parser :: "ParsedEvent list \<Rightarrow> string \<Rightarrow> uint \<Rightarrow> streamParser" where
  "idle_parser evs i r = \<lparr>sp_events = evs, sp_frame = zeroEvent, sp_lastID = i, sp_retry = r\<rparr>"

lemma acceptLines_event:
  assumes "sendable B (OutEvent e)"
  shows "acceptLines (idle_parser evs i r) (event_lines B e @ [[]]) =
    idle_parser
      (evs @ [\<lparr>pe_Type = ev_Event e, pe_DataLines = data_lines (ev_Data e),
         pe_ID = (if GetID B (ev_ID e) = [] then i else GetID B (ev_ID e)),
         pe_Retry = (if ev_Retry e = 0 then r else ev_Retry e)\<rparr>])
      (if GetID B (ev_ID e) = [] then i else GetID B (ev_ID e))
      (if ev_Retry e = 0 then r else ev_Retry e)"
  using assms data_lines_nonempty [of "ev_Data e"]
  by (simp add: event_lines_def acceptLines_data acceptLine_field idle_parser_def
      acceptLine_def [of _ "[]"] dispatchFrame_def zeroEvent_def Let_def)

lemma acceptLines_received:
  "\<forall>out \<in> set outs. sendable B out \<Longrightarrow>
   sp_events (acceptLines (idle_parser evs i r) (concat (map (\<lambda>out. output_lines B out @ [[]]) outs))) =
     evs @ received B i r outs"
proof (induction outs arbitrary: evs i r)
  case (Cons out outs)
  show ?case
  proof (cases out)
    case (OutEvent e)
    then show ?thesis
      using Cons acceptLines_event [of B e evs i r] by (simp add: Let_def)
  next
    case OutHeartbeat
    have "acceptLines (idle_parser evs i r) ['': heartbeat'', []] = idle_parser evs i r"
      by (simp add: acceptLine_def applyField_def dispatchFrame_def idle_parser_def zeroEvent_def)
    then show ?thesis using Cons OutHeartbeat by simp
  next
    case (OutRetry ms)
    have "acceptLines (idle_parser evs i r) [field_line ''retry'' (FormatUint ms), []] =
        idle_parser evs i ms"
      by (simp add: acceptLine_field acceptLine_def [of _ "[]"] dispatchFrame_def idle_parser_def
          zeroEvent_def)
    then show ?thesis using Cons OutRetry by simp
  qed
qed (simp add: idle_parser_def)

text \<open>A source that delivers a transmission, in any pieces.\<close>

definition delivers :: "source \<Rightarrow> 'i brandid \<Rightarrow> 'i transmission list \<Rightarrow> ReadOption list \<Rightarrow> bool" where
  "delivers src B outs opts \<longleftrightarrow>
     source_ready src \<and> plain_end (source_ending src) \<and> source_stream src = transmitted B outs \<and>
     limit_ok opts \<and>
     (\<forall>out \<in> set outs. sendable B out \<and> (\<forall>l \<in> set (output_lines B out). length l < line_limit opts))"

lemma delivers_readable: "brandid_ok B \<Longrightarrow> delivers src B outs opts \<Longrightarrow> readable src opts"
  by (simp add: delivers_def readable_def strip_bom_transmitted lines_fit_transmitted limit_ok_def)

lemma delivers_events:
  assumes "brandid_ok B" "delivers src B outs opts"
  shows "source_events src = received B [] 0 outs"
proof -
  have s: "\<forall>out \<in> set outs. sendable B out" "source_stream src = transmitted B outs"
    using assms(2) by (auto simp: delivers_def)
  have "source_lines src = concat (map (\<lambda>out. output_lines B out @ [[]]) outs)"
    using stream_lines_transmitted [OF assms(1) s(1)] s(2)
    by (simp add: source_lines_def strip_bom_transmitted [OF assms(1)])
  moreover have "zeroParser = idle_parser [] [] 0" by (simp add: zeroParser_def idle_parser_def)
  ultimately show ?thesis
    using acceptLines_received [OF s(1), of "[]" "[]" 0] acceptLines_spec [of "source_lines src"]
    by (simp add: source_events_def)
qed

text \<open>
  C3. The client reads what the server wrote: after any sequence of \<open>WriteEvent\<close>,
  \<open>WriteHeartbeat\<close> and \<open>WriteRetry\<close> calls, \<open>ReadEvents\<close> on the bytes returns exactly the
  events sent, in order, with their names, the lines of their payloads, and the identifier
  and retry time in effect. Payloads are arbitrary: no payload can inject a field, a frame
  or an event. Heartbeats are invisible.
\<close>

theorem ReadEvents_reads_what_was_written:
  assumes "brandid_ok B" "delivers src B outs opts" "source_ending src = Ends EOF"
  shows "ReadEvents source_Read src opts = Some (Ret (Inr (received B [] 0 outs)))"
  using ReadEvents_result [OF delivers_readable [OF assms(1,2)] assms(3)]
  by (simp add: delivers_events [OF assms(1,2)])

text \<open>A transmission with a payload that looks like fields and frames, cut into two reads.\<close>

definition sample_outputs :: "string transmission list" where
  "sample_outputs =
     [OutRetry 3000, OutEvent sample_event, OutHeartbeat,
      OutEvent \<lparr>ev_Event = [], ev_Data = ''x'' @ [LF, LF] @ ''id: 9'', ev_ID = [], ev_Retry = 0\<rparr>]"

definition cut_source :: "nat \<Rightarrow> string \<Rightarrow> source" where
  "cut_source n s = [Chunk (take n s) None, Chunk (drop n s) None]"

lemma cut_source_simps:
  assumes "0 < n" "n < length s"
  shows "source_ready (cut_source n s @ ss) = source_ready ss"
    and "source_stream (cut_source n s @ ss) = s @ source_stream ss"
    and "source_ending (cut_source n s @ ss) = source_ending ss"
proof -
  have "s \<noteq> []" using assms by auto
  then show "source_ready (cut_source n s @ ss) = source_ready ss"
    using assms by (simp add: cut_source_def)
  have "take n s @ drop n s @ t = s @ t" for t by (metis append.assoc append_take_drop_id)
  then show "source_stream (cut_source n s @ ss) = s @ source_stream ss"
    by (simp add: cut_source_def)
qed (simp add: cut_source_def)

definition sample_wire :: source where
  "sample_wire = cut_source 40 (transmitted string_id sample_outputs)"

lemma sample_output_lines:
  "concat (map (output_lines string_id) sample_outputs) =
     [''retry: 3000'', ''event: tick'', ''data: a'', ''data: b'', ''id: 7'', ''retry: 3000'',
      '': heartbeat'', ''data: x'', ''data: '', ''data: id: 9'']"
proof -
  have "data_lines (''x'' @ [LF, LF] @ ''id: 9'') = [''x'', [], ''id: 9'']" by code_simp
  then show ?thesis
    using sample_lines format_3000
    by (simp add: sample_outputs_def event_lines_def field_line_def)
qed

lemma sample_wire_simps:
  "source_ready (sample_wire @ ss) = source_ready ss"
  "source_stream (sample_wire @ ss) = transmitted string_id sample_outputs @ source_stream ss"
  "source_ending (sample_wire @ ss) = source_ending ss"
proof -
  have "40 < length (transmitted string_id sample_outputs)"
    using sample_lines format_3000
    by (simp add: sample_outputs_def transmitted_frames frame_of_lines_def field_line_def)
  then show "source_ready (sample_wire @ ss) = source_ready ss"
    "source_stream (sample_wire @ ss) = transmitted string_id sample_outputs @ source_stream ss"
    "source_ending (sample_wire @ ss) = source_ending ss"
    unfolding sample_wire_def by (intro cut_source_simps; simp)+
qed

lemma sample_wire_delivers:
  assumes "source_ready ss" "plain_end (source_ending ss)" "source_stream ss = []"
  shows "delivers (sample_wire @ ss) string_id sample_outputs [WithMaxLineBytes 64]"
proof -
  have "\<forall>l \<in> set (concat (map (output_lines string_id) sample_outputs)). length l < 64"
    unfolding sample_output_lines by simp
  moreover have "\<forall>out \<in> set sample_outputs. sendable string_id out"
    by (simp add: sample_outputs_def)
  ultimately show ?thesis
    using assms by (auto simp: delivers_def sample_wire_simps limit_simps)
qed

theorem ReadEvents_reads_what_was_written_witness:
  "ReadEvents source_Read sample_wire [WithMaxLineBytes 64] = Some (Ret (Inr
     [\<lparr>pe_Type = ''tick'', pe_DataLines = [''a'', ''b''], pe_ID = ''7'', pe_Retry = 3000\<rparr>,
      \<lparr>pe_Type = [], pe_DataLines = [''x'', [], ''id: 9''], pe_ID = ''7'', pe_Retry = 3000\<rparr>]))"
proof -
  have "data_lines (''x'' @ [LF, LF] @ ''id: 9'') = [''x'', [], ''id: 9'']" by code_simp
  moreover have "source_ending sample_wire = Ends EOF" using sample_wire_simps(3) [of "[]"] by simp
  moreover have "delivers sample_wire string_id sample_outputs [WithMaxLineBytes 64]"
    using sample_wire_delivers [of "[]"] by simp
  ultimately show ?thesis
    using ReadEvents_reads_what_was_written [OF string_id_ok, of sample_wire] sample_data_lines
    by (simp add: sample_outputs_def Let_def)
qed

text \<open>
  C19. On a connection that stays open a \<open>StreamReader\<close> hands out every event that has been
  written, one per call of \<open>Next\<close>, without waiting for more.
\<close>

theorem StreamReader_follows_live_stream:
  assumes "brandid_ok B" "delivers src B outs opts" "n \<le> length (received B [] 0 outs)"
  shows "map_option fst (nexts source_Read n (NewStreamReader src opts)) =
    Some (map (\<lambda>evt. Ret (Inr evt)) (take n (received B [] 0 outs)))"
  using nexts_NewStreamReader [OF delivers_readable [OF assms(1,2)], of n] assms(3)
  by (simp add: delivers_events [OF assms(1,2)] next_results_def)

theorem StreamReader_follows_live_stream_witness:
  "map_option fst (nexts source_Read 1 (NewStreamReader (sample_wire @ [Block]) [WithMaxLineBytes 64])) =
   Some [Ret (Inr \<lparr>pe_Type = ''tick'', pe_DataLines = [''a'', ''b''], pe_ID = ''7'', pe_Retry = 3000\<rparr>)]"
proof -
  have "delivers (sample_wire @ [Block]) string_id sample_outputs [WithMaxLineBytes 64]"
    using sample_wire_delivers [of "[Block]"] by simp
  from StreamReader_follows_live_stream [OF string_id_ok this, of 1] show ?thesis
    using sample_data_lines by (simp add: sample_outputs_def Let_def)
qed

lemma received_data:
  "\<forall>e \<in> set es. CR \<notin> set (ev_Data e) \<and> (ev_Data e = [] \<or> last (ev_Data e) \<noteq> LF) \<Longrightarrow>
   map Data (received B i r (map OutEvent es)) = map ev_Data es"
  by (induction es arbitrary: i r) (simp_all add: Let_def Data_def Join_data_lines)

text \<open>
  C31. Payloads survive the trip: the client reads as many events as were written, and the
  rejoined data of each is byte for byte the payload sent, for payloads that end their lines
  with LF and do not end with a terminator (the stream's own line ends cannot be told from
  others).
\<close>

theorem payload_round_trip:
  assumes "brandid_ok B" "delivers src B (map OutEvent es) opts" "source_ending src = Ends EOF"
    and "\<forall>e \<in> set es. CR \<notin> set (ev_Data e) \<and> (ev_Data e = [] \<or> last (ev_Data e) \<noteq> LF)"
  shows "\<exists>events. ReadEvents source_Read src opts = Some (Ret (Inr events)) \<and>
    map Data events = map ev_Data es"
  using ReadEvents_result [OF delivers_readable [OF assms(1,2)] assms(3)] received_data [OF assms(4)]
  by (simp add: delivers_events [OF assms(1,2)])

definition sample_letters :: "string Event list" where
  "sample_letters =
     [\<lparr>ev_Event = ''e'', ev_Data = ''x'' @ [LF, LF] @ ''y'', ev_ID = [], ev_Retry = 0\<rparr>,
      \<lparr>ev_Event = [], ev_Data = [], ev_ID = [], ev_Retry = 0\<rparr>]"

theorem payload_round_trip_witness:
  "\<exists>events. ReadEvents source_Read
      [Chunk (transmitted string_id (map OutEvent sample_letters)) None] [WithMaxLineBytes 64] =
     Some (Ret (Inr events)) \<and> map Data events = [''x'' @ [LF, LF] @ ''y'', []]"
proof -
  have lines: "concat (map (event_lines string_id) sample_letters) =
      [''event: e'', ''data: x'', ''data: '', ''data: y'', ''data: '']"
  proof -
    have "data_lines (''x'' @ [LF, LF] @ ''y'') = [''x'', [], ''y'']" "data_lines [] = [[]]" by code_simp+
    then show ?thesis by (simp add: sample_letters_def event_lines_def field_line_def)
  qed
  have "\<forall>l \<in> set (concat (map (event_lines string_id) sample_letters)). length l < 64"
    unfolding lines by simp
  moreover have "transmitted string_id (map OutEvent sample_letters) \<noteq> []"
    by (simp add: transmitted_frames sample_letters_def frame_of_lines_def)
  moreover have "\<forall>e \<in> set sample_letters. sendable string_id (OutEvent e)"
    by (simp add: sample_letters_def)
  ultimately have "delivers [Chunk (transmitted string_id (map OutEvent sample_letters)) None] string_id
      (map OutEvent sample_letters) [WithMaxLineBytes 64]"
    by (auto simp: delivers_def limit_simps)
  from payload_round_trip [OF string_id_ok this] show ?thesis by (simp add: sample_letters_def)
qed

end
