(* ===== verification/Connection.thy ===== *)
theory Connection
  imports Streams RoundTrip
begin

text \<open>
  One connection from end to end: a handler sending on a \<open>Stream\<close> while the heartbeat goroutine
  writes its pings, and the client's reader at the other end.
\<close>

subsection \<open>Interleavings\<close>

text \<open>
  The stream's mutex makes each \<open>Send\<close>, each tick and \<open>Close\<close> one step; an execution is a
  sequence of steps of the two goroutines.
\<close>

datatype 'i conn_step = Handler "'i stream_op" | Tick

fun run_conn :: "'i brandid \<Rightarrow> 'i conn_step \<Rightarrow> Stream \<Rightarrow> Stream" where
  "run_conn B (Handler op) s = run_stream_op B op s"
| "run_conn B Tick s = snd (heartbeatTick s)"

text \<open>What the steps write, given whether the stream is closed already.\<close>

fun conn_outputs :: "bool \<Rightarrow> 'i conn_step list \<Rightarrow> 'i transmission list" where
  "conn_outputs closed [] = []"
| "conn_outputs closed (Handler (StSend e) # steps) = OutEvent e # conn_outputs closed steps"
| "conn_outputs closed (Handler StClose # steps) = conn_outputs True steps"
| "conn_outputs closed (Handler op # steps) = conn_outputs closed steps"
| "conn_outputs closed (Tick # steps) =
     (if closed then conn_outputs closed steps else OutHeartbeat # conn_outputs closed steps)"

fun sent_events :: "'i conn_step list \<Rightarrow> 'i Event list" where
  "sent_events [] = []"
| "sent_events (Handler (StSend e) # steps) = e # sent_events steps"
| "sent_events (step # steps) = sent_events steps"

lemma received_outputs:
  "received B i r (conn_outputs closed steps) = received B i r (map OutEvent (sent_events steps))"
  by (induction closed steps arbitrary: i r rule: conn_outputs.induct) (simp_all add: Let_def)

lemma conn_outputs_events:
  "out \<in> set (conn_outputs closed steps) \<Longrightarrow> out = OutHeartbeat \<or> (\<exists>e \<in> set (sent_events steps). out = OutEvent e)"
  by (induction closed steps rule: conn_outputs.induct) (auto split: if_splits)

text \<open>A connection that accepts every write.\<close>

definition accepting :: "Stream \<Rightarrow> bool" where
  "accepting s \<longleftrightarrow> \<not> rw_finished (st_w s) \<and> outcomes (rw_w (st_w s)) = []"

lemma wire_of_Send:
  assumes "brandid_ok B" "accepting s"
  shows "accepting (snd (Send B s e)) \<and> st_closed (snd (Send B s e)) = st_closed s \<and>
    wire (rw_w (st_w (snd (Send B s e)))) = wire (rw_w (st_w s)) @ frame_of_lines (event_lines B e)"
  using assms
  by (cases "st_fw s") (simp_all add: accepting_def Send_def onWriter_def streamFlush_live WriteEvent_def
      Write_def eventBuffer_frame [OF assms(1)] event_frame_def)

lemma wire_of_Tick:
  assumes "accepting s"
  shows "accepting (snd (heartbeatTick s)) \<and> st_closed (snd (heartbeatTick s)) = st_closed s \<and>
    wire (rw_w (st_w (snd (heartbeatTick s)))) = wire (rw_w (st_w s)) @
      (if st_closed s then [] else frame_of_lines ['': heartbeat''])"
  using assms
  by (cases "st_fw s") (simp_all add: accepting_def heartbeatTick_def onWriter_def streamFlush_live
      WriteHeartbeat_def Write_def heartbeatFrame_def frame_of_lines_def)

lemma wire_of_Close:
  "accepting s \<Longrightarrow> accepting (snd (Stream_Close s)) \<and> st_closed (snd (Stream_Close s)) \<and>
   wire (rw_w (st_w (snd (Stream_Close s)))) = wire (rw_w (st_w s))"
  by (cases "st_fw s") (simp_all add: accepting_def Stream_Close_spec streamFlush_live)

lemma wire_of_steps:
  assumes "brandid_ok B"
  shows "accepting s \<Longrightarrow> Handler StFinish \<notin> set steps \<Longrightarrow>
    wire (rw_w (st_w (fold (run_conn B) steps s))) = wire (rw_w (st_w s)) @
      concat (map (\<lambda>out. frame_of_lines (output_lines B out)) (conn_outputs (st_closed s) steps))"
proof (induction steps arbitrary: s)
  case (Cons step steps)
  have live: "\<not> rw_finished (st_w s)" using Cons.prems(1) by (simp add: accepting_def)
  show ?case
  proof (cases step)
    case (Handler op)
    then show ?thesis
      using Cons live wire_of_Send [OF assms Cons.prems(1)] wire_of_Close [OF Cons.prems(1)]
      by (cases op) (auto simp: OnDisconnect_def accepting_def)
  next
    case Tick
    then show ?thesis using Cons wire_of_Tick [OF Cons.prems(1)] by simp
  qed
qed simp

text \<open>
  C2. A connection delivers what its handler sends: however the heartbeat's ticks and the
  handler's sends interleave, and however the network cuts the bytes, the client's
  \<open>ReadEvents\<close> returns exactly the events given to \<open>Send\<close>, in order. Pings are invisible, no
  frame is torn by another, and arbitrary payloads cannot forge events.
\<close>

theorem connection_delivers_sent_events:
  assumes "brandid_ok B" "accepting (NewStream w r)" "wire (rw_w w) = []"
    and "Handler StFinish \<notin> set steps"
    and "\<forall>e \<in> set (sent_events steps). sendable B (OutEvent e) \<and>
           (\<forall>l \<in> set (event_lines B e). length l < line_limit opts)"
    and "limit_ok opts" "12 \<le> line_limit opts"
    and "source_ready src" "source_ending src = Ends EOF"
    and "source_stream src = wire (rw_w (st_w (fold (run_conn B) steps (NewStream w r))))"
  shows "ReadEvents source_Read src opts =
    Some (Ret (Inr (received B [] 0 (map OutEvent (sent_events steps)))))"
proof -
  let ?outs = "conn_outputs False steps"
  have "\<not> st_closed (NewStream w r)" "rw_w (st_w (NewStream w r)) = rw_w w"
    by (simp_all add: NewStream_def Let_def SetHeaders_def headerSet_def writeHeader_def)
  then have "source_stream src = transmitted B ?outs"
    using wire_of_steps [OF assms(1,2,4)] assms(3,10) by (simp add: transmitted_frames [OF assms(1)])
  moreover have "sendable B out \<and> (\<forall>l \<in> set (output_lines B out). length l < line_limit opts)"
    if "out \<in> set ?outs" for out
    using conn_outputs_events [OF that] assms(5,7) by auto
  ultimately have d: "delivers src B ?outs opts"
    using assms(6,8,9) by (simp add: delivers_def)
  show ?thesis
    using ReadEvents_result [OF delivers_readable [OF assms(1) d] assms(9)]
    by (simp add: delivers_events [OF assms(1) d] received_outputs)
qed

definition sample_steps :: "string conn_step list" where
  "sample_steps = [Tick, Handler (StSend sample_event), Tick, Handler StClose, Tick]"

definition sample_bytes :: string where
  "sample_bytes = wire (rw_w (st_w (fold (run_conn string_id) sample_steps (sample_stream []))))"

theorem connection_delivers_sent_events_witness:
  "ReadEvents source_Read [Chunk sample_bytes None] [WithMaxLineBytes 64] = Some (Ret (Inr
     [\<lparr>pe_Type = ''tick'', pe_DataLines = [''a'', ''b''], pe_ID = ''7'', pe_Retry = 3000\<rparr>]))"
proof -
  have acc: "accepting (sample_stream [])"
    by (simp add: accepting_def stream_sample_defs)
  have "sample_bytes \<noteq> []"
    using wire_of_steps [OF string_id_ok acc, of sample_steps]
    by (simp add: sample_bytes_def sample_steps_def stream_sample_defs frame_of_lines_def)
  moreover have "\<forall>l \<in> set (event_lines string_id sample_event). length l < 64"
    unfolding sample_lines by simp
  ultimately have "ReadEvents source_Read [Chunk sample_bytes None] [WithMaxLineBytes 64] =
      Some (Ret (Inr (received string_id [] 0 (map OutEvent (sent_events sample_steps)))))"
    using acc unfolding sample_stream_def
    by (intro connection_delivers_sent_events [where w = "sample_response []" and r = sample_request])
      (simp_all add: sample_steps_def limit_simps sample_bytes_def sample_stream_def sample_response_def)
  then show ?thesis
    using sample_data_lines by (simp add: sample_steps_def Let_def)
qed

end
