(* ===== verification/Forwarding.thy ===== *)
theory Forwarding
  imports Connection Lifecycle
begin

text \<open>
  The loop every handler of the examples ends with: forward what the hub puts into the
  handler's channel to its stream, until the client is gone. Other goroutines broadcast and
  the heartbeat ticks meanwhile.
\<close>

subsection \<open>The loop\<close>

text \<open>
  What happens while the loop of a handler waits in its select: calls of other goroutines on
  the broadcaster, ticks of the heartbeat goroutine, and whether the branch of the cancelled
  context is then taken.
\<close>

record 'i wait =
  w_ops :: "'i Event hub_op list"
  w_ticks :: nat
  w_done :: bool

partial_function (option) forwardLoop ::
    "'i brandid \<Rightarrow> (nat \<Rightarrow> 'i wait) \<Rightarrow> nat \<Rightarrow> nat \<Rightarrow> 'i Event world \<Rightarrow> Stream \<Rightarrow>
     (unit outcome \<times> 'i Event world \<times> Stream) option" where
  "forwardLoop B env k ch w s =
     (let w = run_ops (w_ops (env k)) w;
          s = ((\<lambda>s. snd (heartbeatTick s)) ^^ w_ticks (env k)) s
      in if w_done (env k) then Some (Ret (), w, s)
         else (case recvAt ch w of
            None \<Rightarrow> forwardLoop B env (k + 1) ch w s
          | Some (None, w) \<Rightarrow> Some (Ret (), w, s)
          | Some (Some evt, w) \<Rightarrow>
              (case Send B s evt of
                 (Panic m, s) \<Rightarrow> Some (Panic m, w, s)
               | (Ret (Some err), s) \<Rightarrow> Some (Ret (), w, s)
               | (Ret None, s) \<Rightarrow> forwardLoop B env (k + 1) ch w s)))"

subsection \<open>What a handler writes\<close>

text \<open>The messages broadcast by some calls, and whether a subscription's predicate lets one pass.\<close>

fun broadcast_of :: "'a hub_op \<Rightarrow> 'a list" where
  "broadcast_of (OpBroadcast ord msg) = [msg]"
| "broadcast_of op = []"

definition wanted :: "'a pred_fn option \<Rightarrow> 'a \<Rightarrow> bool" where
  "wanted pred msg \<longleftrightarrow> (case pred of None \<Rightarrow> True | Some p \<Rightarrow> p msg = Some True)"

lemma wanted_None [simp]: "wanted None = (\<lambda>msg. True)"
  by (simp add: wanted_def fun_eq_iff)

lemma accepts_wanted: "accepts s = wanted (sub_pred s)"
  by (simp add: accepts_def wanted_def fun_eq_iff)

definition broadcasts :: "'a hub_op list \<Rightarrow> 'a list" where
  "broadcasts ops = concat (map broadcast_of ops)"

text \<open>
  A call of another goroutine that leaves the handler its channel: nobody else receives from
  it or unsubscribes it, and the hub is not closed.
\<close>

fun peer_op :: "nat \<Rightarrow> 'a hub_op \<Rightarrow> bool" where
  "peer_op ch (OpBroadcast ord msg) = order_ok ord"
| "peer_op ch (OpUnsubscribe a) = (a \<noteq> ch)"
| "peer_op ch (OpRecv a) = (a \<noteq> ch)"
| "peer_op ch (OpClose ord) = False"
| "peer_op ch op = True"

lemma peer_op_ok: "peer_op ch op \<Longrightarrow> op_ok op"
  by (cases op) simp_all

text \<open>The handler's channel is tracked, with its predicate, and holds \<open>q\<close>.\<close>

definition listening :: "nat \<Rightarrow> 'a pred_fn option \<Rightarrow> nat \<Rightarrow> 'a list \<Rightarrow> 'a world \<Rightarrow> bool" where
  "listening ch pred cap q w \<longleftrightarrow>
     world_ok w \<and> (ch, \<lparr>sub_ch = ch, sub_pred = pred\<rparr>) \<in> set (subs_of w) \<and>
     ch_cap (heap w ch) = cap \<and> ch_buf (heap w ch) = q"

lemma listeningD:
  assumes "listening ch pred cap q w"
  shows "\<not> ch_closed (heap w ch)" "length q \<le> cap" "ch < nxt w"
    "map_of (subs_of w) ch = Some \<lparr>sub_ch = ch, sub_pred = pred\<rparr>"
proof -
  have w: "world_ok w" "(ch, \<lparr>sub_ch = ch, sub_pred = pred\<rparr>) \<in> set (subs_of w)"
      "ch_cap (heap w ch) = cap" "ch_buf (heap w ch) = q"
    using assms by (simp_all add: listening_def)
  from world_okD(2) [OF w(1,2)] show o: "\<not> ch_closed (heap w ch)" "ch < nxt w" by simp_all
  from world_okD(3) [OF w(1) o(2)] w(3,4) show "length q \<le> cap" by simp
  from w(2) world_okD(1) [OF w(1)] show "map_of (subs_of w) ch = Some \<lparr>sub_ch = ch, sub_pred = pred\<rparr>"
    by simp
qed

lemma listening_run_op:
  assumes "listening ch pred cap q w" "peer_op ch op"
  shows "listening ch pred cap (take cap (q @ filter (wanted pred) (broadcast_of op))) (run_op op w)"
proof -
  note l = listeningD [OF assms(1)]
  have w: "world_ok w" "world_ok (run_op op w)"
    using assms run_op_ok peer_op_ok unfolding listening_def by blast+
  show ?thesis
  proof (cases op)
    case (OpBroadcast ord msg)
    then have "run_op op w = after_broadcast msg w"
      using sendAllLocked_spec [OF w(1), of ord msg] assms(2) by (simp add: Broadcast_def)
    then show ?thesis
      using OpBroadcast assms(1) w l
      by (auto simp: listening_def after_broadcast_def deliver_def accepts_wanted offer_def trySend_def subs_of_def)
  next
    case (OpRecv a)
    then show ?thesis
      using assms w l recv_heap [of a w]
      by (cases "recvAt a w") (auto simp: listening_def subs_of_def)
  next
    case (OpSubscribe pred)
    then show ?thesis
      using assms w l
      by (auto simp: listening_def SubscribeFilter_spec after_subscribe_def after_refused_def subs_of_def)
  next
    case (OpUnsubscribe a)
    then show ?thesis
      using assms w l by (auto simp: listening_def Unsubscribe_spec subs_of_untrack subs_of_def deleteSub_def
        split: option.splits if_splits)
  qed (use assms w l in \<open>auto simp: listening_def OnSubscribe_def OnUnsubscribe_def OnDrop_def subs_of_def\<close>)
qed

lemma take_take_append: "take n (take n xs @ ys) = take n (xs @ ys)"
  by (simp add: min_def)

lemma listening_run_ops:
  "listening ch pred cap q w \<Longrightarrow> list_all (peer_op ch) ops \<Longrightarrow>
   listening ch pred cap (take cap (q @ filter (wanted pred) (broadcasts ops))) (run_ops ops w)"
proof (induction ops arbitrary: q w)
  case Nil
  then show ?case using listeningD(2) [OF Nil(1)] by (simp add: run_ops_def broadcasts_def)
next
  case (Cons op ops)
  have "listening ch pred cap (take cap (take cap (q @ filter (wanted pred) (broadcast_of op)) @ filter (wanted pred) (broadcasts ops))) (run_ops ops (run_op op w))"
    using Cons.prems by (intro Cons.IH listening_run_op) auto
  then show ?case
    unfolding take_take_append by (simp add: run_ops_def broadcasts_def)
qed

fun events_in :: "'i transmission list \<Rightarrow> 'i Event list" where
  "events_in [] = []"
| "events_in (OutEvent e # outs) = e # events_in outs"
| "events_in (out # outs) = events_in outs"

lemma events_in_append [simp]: "events_in (outs @ outs') = events_in outs @ events_in outs'"
  by (induction outs rule: events_in.induct) simp_all

lemma events_in_events [simp]: "events_in (map OutEvent es) = es"
  by (induction es) simp_all

lemma events_in_beats [simp]: "events_in (replicate n OutHeartbeat) = []"
  by (induction n) simp_all

abbreviation frames_of :: "'i brandid \<Rightarrow> 'i transmission list \<Rightarrow> string" where
  "frames_of B outs \<equiv> concat (map (\<lambda>out. frame_of_lines (output_lines B out)) outs)"

lemma ticks_wire:
  "accepting s \<Longrightarrow> \<exists>j. accepting (((\<lambda>s. snd (heartbeatTick s)) ^^ n) s) \<and>
     wire (rw_w (st_w (((\<lambda>s. snd (heartbeatTick s)) ^^ n) s))) =
       wire (rw_w (st_w s)) @ frames_of B (replicate j OutHeartbeat)"
proof (induction n arbitrary: s)
  case (Suc n)
  note t = wire_of_Tick [OF Suc.prems]
  obtain j where j: "accepting (((\<lambda>s. snd (heartbeatTick s)) ^^ n) (snd (heartbeatTick s)))"
    "wire (rw_w (st_w (((\<lambda>s. snd (heartbeatTick s)) ^^ n) (snd (heartbeatTick s))))) =
       wire (rw_w (st_w (snd (heartbeatTick s)))) @ frames_of B (replicate j OutHeartbeat)"
    using Suc.IH [of "snd (heartbeatTick s)"] t by auto
  obtain j' where "wire (rw_w (st_w (snd (heartbeatTick s)))) @ frames_of B (replicate j OutHeartbeat) =
      wire (rw_w (st_w s)) @ frames_of B (replicate j' OutHeartbeat)"
  proof (cases "st_closed s")
    case True
    then show ?thesis using t that [of j] by simp
  next
    case False
    then show ?thesis using t that [of "Suc j"] by simp
  qed
  with j show ?case by (intro exI [of _ j']) (simp add: funpow_Suc_right del: funpow.simps(2))
qed (auto intro: exI [of _ 0])

text \<open>
  The specification of the loop: in each of \<open>n\<close> rounds the messages broadcast meanwhile join the
  queue as far as they fit, and the oldest of the queue is sent.
\<close>

fun forwarded :: "'i Event pred_fn option \<Rightarrow> nat \<Rightarrow> (nat \<Rightarrow> 'i wait) \<Rightarrow> nat \<Rightarrow> nat \<Rightarrow> 'i Event list \<Rightarrow> 'i Event list" where
  "forwarded pred cap env k 0 q = []"
| "forwarded pred cap env k (Suc n) q =
     (case take cap (q @ filter (wanted pred) (broadcasts (w_ops (env k)))) of
        [] \<Rightarrow> forwarded pred cap env (k + 1) n []
      | e # q \<Rightarrow> e # forwarded pred cap env (k + 1) n q)"

lemma Send_accepting:
  assumes "brandid_ok B" "accepting s"
  shows "fst (Send B s e) = Ret None"
  using assms
  by (cases "st_fw s") (simp_all add: accepting_def Send_def onWriter_def streamFlush_live WriteEvent_def
      Write_def eventBuffer_frame [OF assms(1)] event_frame_def)

definition forwards ::
    "('i Event world \<Rightarrow> bool) \<Rightarrow> 'i brandid \<Rightarrow> nat \<Rightarrow> 'i Event pred_fn option \<Rightarrow> nat \<Rightarrow> Stream \<Rightarrow> 'i Event list \<Rightarrow>
     (unit outcome \<times> 'i Event world \<times> Stream) option \<Rightarrow> bool" where
  "forwards I B ch pred cap s es y \<longleftrightarrow>
     (\<exists>w' s' q outs. y = Some (Ret (), w', s') \<and> accepting s' \<and> listening ch pred cap q w' \<and> I w' \<and>
        wire (rw_w (st_w s')) = wire (rw_w (st_w s)) @ frames_of B outs \<and> events_in outs = es \<and>
        set outs \<subseteq> {OutHeartbeat} \<union> range OutEvent)"

lemma forwards_prefix:
  assumes "forwards I B ch pred cap s' es y" "wire (rw_w (st_w s')) = wire (rw_w (st_w s)) @ frames_of B outs"
    and "set outs \<subseteq> {OutHeartbeat} \<union> range OutEvent"
  shows "forwards I B ch pred cap s (events_in outs @ es) y"
proof -
  from assms(1) obtain w2 s2 q outs' where "y = Some (Ret (), w2, s2)" "accepting s2" "listening ch pred cap q w2" "I w2"
      "wire (rw_w (st_w s2)) = wire (rw_w (st_w s')) @ frames_of B outs'" "events_in outs' = es"
      "set outs' \<subseteq> {OutHeartbeat} \<union> range OutEvent"
    unfolding forwards_def by blast
  then show ?thesis
    using assms(2,3) unfolding forwards_def by (intro exI [of _ w2] exI [of _ s2] exI [of _ q]
      exI [of _ "outs @ outs'"]) simp
qed

lemma forwardLoop_forwards:
  assumes "brandid_ok B" and "\<forall>k. list_all (peer_op ch) (w_ops (env k))"
    and I_ops: "\<And>k w. world_ok w \<Longrightarrow> I w \<Longrightarrow> I (run_ops (w_ops (env k)) w)"
    and I_recv: "\<And>w v w'. recvAt ch w = Some (v, w') \<Longrightarrow> I w \<Longrightarrow> I w'"
  shows "listening ch pred cap q w \<Longrightarrow> I w \<Longrightarrow> accepting s \<Longrightarrow> \<forall>i < n. \<not> w_done (env (k + i)) \<Longrightarrow> w_done (env (k + n)) \<Longrightarrow>
    forwards I B ch pred cap s (forwarded pred cap env k n q) (forwardLoop B env k ch w s)"
proof (induction n arbitrary: k q w s)
  case 0
  obtain j where "accepting (((\<lambda>s. snd (heartbeatTick s)) ^^ w_ticks (env k)) s)"
    "wire (rw_w (st_w (((\<lambda>s. snd (heartbeatTick s)) ^^ w_ticks (env k)) s))) =
       wire (rw_w (st_w s)) @ frames_of B (replicate j OutHeartbeat)"
    using ticks_wire [OF 0(3)] by blast
  then show ?case
    using listening_run_ops [OF 0(1)] assms(2) I_ops [OF _ 0(2)] 0(1,5) unfolding forwards_def
    by (subst forwardLoop.simps) (fastforce simp: Let_def listening_def intro: exI [of _ "replicate j OutHeartbeat"])
next
  case (Suc n)
  define w1 where "w1 = run_ops (w_ops (env k)) w"
  define q1 where "q1 = take cap (q @ filter (wanted pred) (broadcasts (w_ops (env k))))"
  define s1 where "s1 = ((\<lambda>s. snd (heartbeatTick s)) ^^ w_ticks (env k)) s"
  obtain j where s1: "accepting s1"
    "wire (rw_w (st_w s1)) = wire (rw_w (st_w s)) @ frames_of B (replicate j OutHeartbeat)"
    unfolding s1_def using ticks_wire [OF Suc.prems(3)] by blast
  have w1: "listening ch pred cap q1 w1"
    unfolding w1_def q1_def using listening_run_ops [OF Suc.prems(1)] assms(2) by blast
  have I1: "I w1" unfolding w1_def using I_ops Suc.prems(1,2) by (simp add: listening_def)
  have env: "\<not> w_done (env k)" "\<forall>i < n. \<not> w_done (env (k + 1 + i))" "w_done (env (k + 1 + n))"
    using Suc.prems(4,5) by (auto dest: spec [of _ 0] spec [of _ "Suc _"])
  show ?case
  proof (cases q1)
    case Nil
    then have "forwardLoop B env k ch w s = forwardLoop B env (k + 1) ch w1 s1"
      using w1 env(1) listeningD(1) [OF w1]
      by (subst forwardLoop.simps)
        (simp add: Let_def w1_def [symmetric] s1_def [symmetric] recvAt_def recvChan_def listening_def)
    moreover have "forwards I B ch pred cap s1 (forwarded pred cap env (k + 1) n []) (forwardLoop B env (k + 1) ch w1 s1)"
      using Suc.IH [OF _ I1 s1(1) env(2,3)] w1 Nil by simp
    ultimately show ?thesis
      using forwards_prefix [OF _ s1(2)] Nil by (fastforce simp: q1_def)
  next
    case (Cons e q2)
    define w2 where "w2 = w1\<lparr>heap := (heap w1)(ch := (heap w1 ch)\<lparr>ch_buf := q2\<rparr>)\<rparr>"
    obtain s2 where send: "Send B s1 e = (Ret None, s2)"
      using Send_accepting [OF assms(1) s1(1), of e] by (cases "Send B s1 e") auto
    have s2: "accepting s2" "wire (rw_w (st_w s2)) = wire (rw_w (st_w s)) @
        frames_of B (replicate j OutHeartbeat @ [OutEvent e])"
      using wire_of_Send [OF assms(1) s1(1), of e] send s1(2) by simp_all
    have recv: "recvAt ch w1 = Some (Some e, w2)"
      using w1 Cons by (simp add: recvAt_def recvChan_def listening_def w2_def)
    then have "forwardLoop B env k ch w s = forwardLoop B env (k + 1) ch w2 s2"
      using env(1) send
      by (subst forwardLoop.simps) (simp add: Let_def w1_def [symmetric] s1_def [symmetric])
    moreover have "listening ch pred cap q2 w2"
      using w1 Cons run_op_ok [of w1 "OpRecv ch"] recv by (simp add: listening_def w2_def subs_of_def)
    ultimately have "forwards I B ch pred cap s2 (forwarded pred cap env (k + 1) n q2) (forwardLoop B env k ch w s)"
      using Suc.IH [OF _ I_recv [OF recv I1] s2(1) env(2,3)] by simp
    from forwards_prefix [OF this s2(2)] show ?thesis
      using Cons by (simp add: q1_def image_subset_iff set_replicate_conv_if)
  qed
qed

lemma listening_subscribed:
  assumes "world_ok w" "open_hub w"
  shows "listening (nxt w) pred (nat (effectiveBufferSize (hub w))) [] (after_subscribe pred w)"
  using after_subscribe_ok [OF assms(1), of pred]
  by (simp add: listening_def after_subscribe_def subs_of_def makeChan_def)

lemma Unsubscribe_listening:
  assumes "listening ch pred cap q w"
  obtains res w' where "Unsubscribe ch w = (res, w')" "world_ok w'" "ch \<notin> fst ` set (subs_of w')"
    "ch_closed (heap w' ch)" "res = Ret () \<or> callback_panics (onUnsubscribe (hub w'))"
proof -
  have w: "world_ok w" "ch \<in> fst ` set (subs_of w)"
    using assms by (auto simp: listening_def intro: rev_image_eqI)
  let ?w = "(untrack ch w)\<lparr>calls := calls w @ callback_calls CallUnsubscribe (onUnsubscribe (hub w))\<rparr>"
  have "Unsubscribe ch w = (if callback_panics (onUnsubscribe (hub w)) then Panic ''callback'' else Ret (), ?w)"
    using Unsubscribe_spec [OF w(1), of ch] w(2) by simp
  moreover have "world_ok ?w" "ch \<notin> fst ` set (subs_of ?w)" "ch_closed (heap ?w ch)"
      "onUnsubscribe (hub ?w) = onUnsubscribe (hub w)"
    using untrack_ok [OF w(1), of ch] by (auto simp: subs_of_untrack deleteSub_def)
  ultimately show thesis
    by (intro that [of "if callback_panics (onUnsubscribe (hub w)) then Panic ''callback'' else Ret ()" ?w])
      simp_all
qed

text \<open>The messages for the handler broadcast during \<open>n\<close> rounds, from round \<open>k\<close> on.\<close>

primrec history :: "'i Event pred_fn option \<Rightarrow> (nat \<Rightarrow> 'i wait) \<Rightarrow> nat \<Rightarrow> nat \<Rightarrow> 'i Event list" where
  "history pred env k 0 = []"
| "history pred env k (Suc n) = filter (wanted pred) (broadcasts (w_ops (env k))) @ history pred env (k + 1) n"

text \<open>If they fit the buffer all together, the handler skips none of them.\<close>

lemma forwarded_prefix:
  "length q + length (history pred env k n) \<le> cap \<Longrightarrow>
   \<exists>unread. q @ history pred env k n = forwarded pred cap env k n q @ unread"
proof (induction n arbitrary: k q)
  case (Suc n)
  let ?q = "q @ filter (wanted pred) (broadcasts (w_ops (env k)))"
  have take: "take cap ?q = ?q" using Suc.prems by simp
  show ?case
  proof (cases ?q)
    case Nil
    then show ?thesis using Suc.IH [of "[]" "k + 1"] Suc.prems by auto
  next
    case (Cons e q')
    moreover have "length ?q + length (history pred env (k + 1) n) \<le> cap" using Suc.prems by simp
    ultimately have "length q' + length (history pred env (k + 1) n) \<le> cap" by simp
    from Suc.IH [OF this] obtain unread where "q' @ history pred env (k + 1) n = forwarded pred cap env (k + 1) n q' @ unread"
      by blast
    then have "?q @ history pred env (k + 1) n = forwarded pred cap env k (Suc n) q @ unread"
      using Cons unfolding forwarded.simps take by simp
    then show ?thesis by auto
  qed
qed simp

lemma received_events_in:
  "set outs \<subseteq> {OutHeartbeat} \<union> range OutEvent \<Longrightarrow>
   received B i r outs = received B i r (map OutEvent (events_in outs))"
  by (induction B i r outs rule: received.induct) (auto simp: Let_def)

lemma in_events_in: "OutEvent e \<in> set outs \<Longrightarrow> e \<in> set (events_in outs)"
  by (induction outs rule: events_in.induct) auto

text \<open>What the client of a connection reads that carries events and pings.\<close>

lemma client_reads:
  assumes "brandid_ok B" "wire (rw_w (st_w s')) = wire (rw_w rw) @ frames_of B outs" "events_in outs = es"
    and "set outs \<subseteq> {OutHeartbeat} \<union> range OutEvent"
    and "\<forall>e \<in> set es. sendable B (OutEvent e) \<and> (\<forall>l \<in> set (event_lines B e). length l < line_limit opts)"
    and "limit_ok opts" "12 \<le> line_limit opts" "source_ready src" "source_ending src = Ends EOF"
    and "wire (rw_w rw) = []" "source_stream src = wire (rw_w (st_w s'))"
  shows "ReadEvents source_Read src opts = Some (Ret (Inr (received B [] 0 (map OutEvent es))))"
proof -
  have stream: "source_stream src = transmitted B outs"
    using assms(2,10,11) by (simp add: transmitted_frames [OF assms(1)])
  have "sendable B out \<and> (\<forall>l \<in> set (output_lines B out). length l < line_limit opts)"
    if "out \<in> set outs" for out
  proof (cases out)
    case (OutEvent e)
    then show ?thesis using in_events_in [of e outs] that assms(3,5) by auto
  qed (use that assms(4,7) in auto)
  then have d: "delivers src B outs opts"
    using assms(6,8,9) stream by (simp add: delivers_def)
  have "ReadEvents source_Read src opts = Some (Ret (Inr (received B [] 0 outs)))"
    using ReadEvents_result [OF delivers_readable [OF assms(1) d] assms(9)]
    by (simp add: delivers_events [OF assms(1) d])
  then show ?thesis using received_events_in [OF assms(4), of B "[]" 0] assms(3) by simp
qed

end
