(* ===== verification/Activity.thy ===== *)
theory Activity
  imports Producer Forwarding
begin

text \<open>
  The server of \<open>example/datastar/handlers.go\<close>: its broadcaster announces the number of clients
  through callbacks, its event handler replays what a reconnecting client missed, subscribes
  it with or without the alert filter, and forwards.
\<close>

subsection \<open>The server\<close>

text \<open>
  The two closures \<open>newActivityServer\<close> registers; their tags are 0 and 1. A closure runs when
  the hub's method has released its lock and recorded the call.
\<close>

definition onSubscribeClosure :: "'i brandid \<Rightarrow> (nat \<Rightarrow> 'i Event order) \<Rightarrow> 'i Event world \<Rightarrow> unit outcome \<times> 'i Event world" where
  "onSubscribeClosure B ords w =
     BroadcastMany ords [replayEvent B 0, countEvent B (SubscriberCount (hub w))] w"

definition onUnsubscribeClosure :: "'i brandid \<Rightarrow> (nat \<Rightarrow> 'i Event order) \<Rightarrow> 'i Event world \<Rightarrow> unit outcome \<times> 'i Event world" where
  "onUnsubscribeClosure B ords w = Broadcast (ords 0) (countEvent B (SubscriberCount (hub w))) w"

definition newActivityServer :: "'i activity" where
  "newActivityServer =
     \<lparr>act_world = OnUnsubscribe (Some \<lparr>cb_tag = 1, cb_panics = (\<lambda>_. False)\<rparr>)
        (OnSubscribe (Some \<lparr>cb_tag = 0, cb_panics = (\<lambda>_. False)\<rparr>) (initWorld [])),
      act_store = newMemStore maxStoredEvents\<rparr>"

text \<open>Running the closures of the calls recorded since \<open>w0\<close>.\<close>

fun runClosures ::
    "'i brandid \<Rightarrow> (nat \<Rightarrow> 'i Event order) \<Rightarrow> 'i Event hub_call list \<Rightarrow> 'i Event world \<Rightarrow> unit outcome \<times> 'i Event world" where
  "runClosures B ords [] w = (Ret (), w)"
| "runClosures B ords (c # cs) w =
     (case (case c of
              CallSubscribe _ \<Rightarrow> onSubscribeClosure B ords w
            | CallUnsubscribe _ \<Rightarrow> onUnsubscribeClosure B ords w
            | CallDrop _ _ \<Rightarrow> (Ret (), w)) of
        (Panic m, w) \<Rightarrow> (Panic m, w)
      | (Ret _, w) \<Rightarrow> runClosures B ords cs w)"

definition withClosures ::
    "'i brandid \<Rightarrow> (nat \<Rightarrow> 'i Event order) \<Rightarrow> 'i Event world \<Rightarrow> 'b outcome \<times> 'i Event world \<Rightarrow>
     'b outcome \<times> 'i Event world" where
  "withClosures B ords w0 = (\<lambda>(res, w).
     (case runClosures B ords (drop (length (calls w0)) (calls w)) w of
        (Panic m, w) \<Rightarrow> (Panic m, w)
      | (Ret _, w) \<Rightarrow> (res, w)))"

subsection \<open>Handlers\<close>

text \<open>The predicate of the alert view: events without identifier pass.\<close>

definition alertsPred :: "'i brandid \<Rightarrow> 'i Event pred_fn" where
  "alertsPred B evt =
     Some (if IsZero B (ev_ID evt) then True
           else Contains (ev_Data evt) (''category '' @ categoryAlert))"

definition subscribeForRequest ::
    "'i brandid \<Rightarrow> (nat \<Rightarrow> 'i Event order) \<Rightarrow> string \<Rightarrow> 'i Event world \<Rightarrow> nat outcome \<times> 'i Event world" where
  "subscribeForRequest B ords filterParam w =
     withClosures B ords w
       (if filterParam \<noteq> ''alerts'' then Subscribe w
        else SubscribeFilter (Some (alertsPred B)) w)"

definition replayMissedEvents ::
    "'i brandid \<Rightarrow> Stream \<Rightarrow> 'i memStore \<Rightarrow> bool outcome \<times> Stream" where
  "replayMissedEvents B s store =
     (let lastID = LastEventID B s
      in if IsZero B lastID then (Ret True, s)
         else (case Replay B s (memEventStore B store) lastID of
             (Panic m, s) \<Rightarrow> (Panic m, s)
           | (Ret (n, Some err), s) \<Rightarrow> (Ret True, s)
           | (Ret (n, None), s) \<Rightarrow>
               (if n = 0 then (Ret True, s)
                else (case Send B s (replayEvent B n) of
                    (Panic m, s) \<Rightarrow> (Panic m, s)
                  | (Ret (Some err), s) \<Rightarrow> (Ret False, s)
                  | (Ret None, s) \<Rightarrow> (Ret True, s)))))"

text \<open>
  \<open>eventsHandler\<close>. The argument \<open>gap\<close> is what other goroutines do to the broadcaster after the
  replay has read the store and before the subscription; \<open>filterParam\<close> is the query parameter.
\<close>

definition activityHandler ::
    "'i brandid \<Rightarrow> (nat \<Rightarrow> 'i Event order) \<Rightarrow> 'i Event hub_op list \<Rightarrow> (nat \<Rightarrow> 'i wait) \<Rightarrow> string \<Rightarrow>
     respWriter \<Rightarrow> request \<Rightarrow> 'i activity \<Rightarrow> (unit outcome \<times> 'i Event world \<times> Stream) option" where
  "activityHandler B ords gap env filterParam rw r a =
     (let s = NewStream (headerSet ''Access-Control-Allow-Origin'' ''*'' rw) r
      in case replayMissedEvents B s (act_store a) of
           (Panic m, s) \<Rightarrow> Some (Panic m, act_world a, snd (Stream_Close s))
         | (Ret False, s) \<Rightarrow> Some (Ret (), act_world a, snd (Stream_Close s))
         | (Ret True, s) \<Rightarrow>
             (case subscribeForRequest B ords filterParam (run_ops gap (act_world a)) of
                (Panic m, w) \<Rightarrow> Some (Panic m, w, snd (Stream_Close s))
              | (Ret ch, w) \<Rightarrow>
                  Option.bind (forwardLoop B env 0 ch w s)
                    (\<lambda>(res, w, s). case withClosures B ords w (Unsubscribe ch w) of
                       (Panic m, w) \<Rightarrow> Some (Panic m, w, snd (Stream_Close s))
                     | (Ret _, w) \<Rightarrow> Some (res, w, snd (Stream_Close s)))))"

text \<open>\<open>indexHandler\<close>: the page is rendered by a template of the third-party package templ.\<close>

definition indexHandler ::
    "(bool \<Rightarrow> writer \<Rightarrow> goerr option \<times> writer) \<Rightarrow> string \<Rightarrow> respWriter \<Rightarrow> unit outcome \<times> respWriter" where
  "indexHandler indexPage filterParam rw =
     (case onWriter (indexPage (filterParam = ''alerts''))
             (headerSet ''Content-Type'' ''text/html; charset=utf-8'' rw) of
        (Panic m, rw) \<Rightarrow> (Panic m, rw)
      | (Ret _, rw) \<Rightarrow> (Ret (), rw))"

definition defaultDatastarPort :: string where "defaultDatastarPort = ''8765''"

definition datastarListenAddr :: "(string \<Rightarrow> string) \<Rightarrow> string" where
  "datastarListenAddr getenv =
     (if getenv ''PORT'' \<noteq> [] then '':'' @ getenv ''PORT'' else '':'' @ defaultDatastarPort)"

subsection \<open>The alert filter\<close>

lemma alertsPred_feed:
  assumes "brandid_ok B" "generated item" "GetID B i \<noteq> []"
  shows "wanted (Some (alertsPred B)) (feedItemEvent i item) \<longleftrightarrow> category item = categoryAlert"
  using feed_alert [OF assms(2), of i] assms(1,3)
  by (simp add: wanted_def alertsPred_def categoryAlert_def feedItemEvent_def brandid_okD)

text \<open>
  The alert view is exact: of the events the producer emits, a filtered subscription gets
  exactly those of category alert (no message, badge or time can make another one pass), and
  the meta events that carry no identifier always pass.
\<close>

lemma alerts_view_exact:
  assumes "brandid_ok B" and "GetID B i \<noteq> []"
  shows "alertsPred B (feedItemEvent i (fst (generateItem now r))) =
      Some (category (fst (generateItem now r)) = categoryAlert) \<and>
    alertsPred B (countEvent B n) = Some True \<and> alertsPred B (replayEvent B n) = Some True \<and>
    alertsPred B (totalEventSignal B m) = Some True"
  using alertsPred_feed [OF assms(1) generateItem_generated assms(2), of now r] assms(1)
  by (auto simp: wanted_def alertsPred_def countEvent_def replayEvent_def totalEventSignal_def brandid_okD)

definition midnight :: clock where
  "midnight = \<lparr>hour = 0, minute = 0, second = 0\<rparr>"

subsection \<open>Subscribing with callbacks\<close>

text \<open>The callbacks of the server are in place, and no drop callback is.\<close>

definition callbacks_set :: "'i Event world \<Rightarrow> bool" where
  "callbacks_set w \<longleftrightarrow> onDrop (hub w) = None \<and>
     onSubscribe (hub w) = Some \<lparr>cb_tag = 0, cb_panics = (\<lambda>_. False)\<rparr> \<and>
     onUnsubscribe (hub w) = Some \<lparr>cb_tag = 1, cb_panics = (\<lambda>_. False)\<rparr>"

text \<open>The calls a program makes on it that leave the callbacks alone.\<close>

fun plain_op :: "'a hub_op \<Rightarrow> bool" where
  "plain_op (OpOnSubscribe fn) = False"
| "plain_op (OpOnUnsubscribe fn) = False"
| "plain_op (OpOnDrop fn) = False"
| "plain_op op = op_ok op"

lemma plain_op_ok: "plain_op op \<Longrightarrow> op_ok op"
  by (cases op) simp_all

lemma callbacks_set_hub:
  "onDrop f = onDrop (hub w) \<Longrightarrow> onSubscribe f = onSubscribe (hub w) \<Longrightarrow>
   onUnsubscribe f = onUnsubscribe (hub w) \<Longrightarrow> f = hub w' \<Longrightarrow> callbacks_set w \<Longrightarrow> callbacks_set w'"
  by (simp add: callbacks_set_def)

lemma callbacks_set_run_op:
  assumes "world_ok w" "plain_op op" "callbacks_set w"
  shows "callbacks_set (run_op op w)"
proof (cases op)
  case (OpBroadcast ord msg)
  then have "run_op op w = after_broadcast msg w"
    using sendAllLocked_spec [OF assms(1), of ord msg] assms(2) by (simp add: Broadcast_def)
  then show ?thesis using assms(3) by (simp add: callbacks_set_def)
next
  case (OpRecv a)
  then show ?thesis
    using assms(3) recv_heap [of a w] by (cases "recvAt a w") (auto simp: callbacks_set_def)
next
  case (OpSubscribe pred)
  then show ?thesis
    using assms(3) by (auto simp: SubscribeFilter_spec callbacks_set_def after_subscribe_def after_refused_def)
next
  case (OpUnsubscribe a)
  then show ?thesis using assms by (auto simp: Unsubscribe_spec callbacks_set_def deleteSub_def)
next
  case (OpClose ord)
  then show ?thesis using assms Close_spec [of w ord] by (simp add: callbacks_set_def)
qed (use assms(2) in auto)

lemma callbacks_set_run_ops:
  "world_ok w \<Longrightarrow> list_all plain_op ops \<Longrightarrow> callbacks_set w \<Longrightarrow>
   callbacks_set (run_ops ops w) \<and> world_ok (run_ops ops w)"
  by (induction ops arbitrary: w) (auto simp: run_ops_def callbacks_set_run_op run_op_ok plain_op_ok)

text \<open>What the hub sends at once to a client that joins: the banner's reset and the new count.\<close>

definition greeting :: "'i brandid \<Rightarrow> 'i Event world \<Rightarrow> 'i Event list" where
  "greeting B w = [replayEvent B 0, countEvent B (length (subs_of w) + 1)]"

definition view_pred :: "'i brandid \<Rightarrow> string \<Rightarrow> 'i Event pred_fn option" where
  "view_pred B filterParam = (if filterParam \<noteq> ''alerts'' then None else Some (alertsPred B))"

lemma subscribeForRequest_spec:
  assumes "brandid_ok B" "world_ok w" "open_hub w" "callbacks_set w" "\<forall>i. order_ok (ords i)"
  shows "\<exists>w'. subscribeForRequest B ords filterParam w = (Ret (nxt w), w') \<and> callbacks_set w' \<and>
    listening (nxt w) (view_pred B filterParam) (nat (effectiveBufferSize (hub w)))
      (take (nat (effectiveBufferSize (hub w))) (greeting B w)) w'"
proof -
  let ?pred = "view_pred B filterParam"
  let ?w = "after_subscribe ?pred w"
  let ?ops = "[OpBroadcast (ords 0) (replayEvent B 0), OpBroadcast (ords 1) (countEvent B (length (subs_of w) + 1))]"
  have sub: "(if filterParam \<noteq> ''alerts'' then Subscribe w else SubscribeFilter (Some (alertsPred B)) w) = (Ret (nxt w), ?w)"
    using assms(3,4) by (simp add: Subscribe_def SubscribeFilter_spec view_pred_def callbacks_set_def callback_panics_def)
  have calls: "drop (length (calls w)) (calls ?w) = [CallSubscribe 0]"
    using assms(4) by (simp add: after_subscribe_def callbacks_set_def callback_calls_def)
  have ok: "world_ok ?w" using after_subscribe_ok [OF assms(2)] .
  have n: "SubscriberCount (hub ?w) = length (subs_of w) + 1"
    by (simp add: SubscriberCount_def after_subscribe_def)
  have ops: "run_ops ?ops ?w = fold after_broadcast (greeting B w) ?w"
    using sendAllLocked_spec [OF ok, of "ords 0" "replayEvent B 0"]
      sendAllLocked_spec [OF after_broadcast_ok [OF ok], of "ords 1"] assms(5)
    by (simp add: run_ops_def Broadcast_def greeting_def)
  have "runClosures B ords [CallSubscribe 0] ?w = (Ret (), run_ops ?ops ?w)"
    using BroadcastMany_spec [OF ok assms(5)] n unfolding ops
    by (simp add: onSubscribeClosure_def greeting_def del: BroadcastMany.simps)
  then have eq: "subscribeForRequest B ords filterParam w = (Ret (nxt w), run_ops ?ops ?w)"
    using sub calls by (simp add: subscribeForRequest_def withClosures_def)
  have "listening (nxt w) (view_pred B filterParam) (nat (effectiveBufferSize (hub w)))
      (take (nat (effectiveBufferSize (hub w))) ([] @ filter (wanted ?pred) (broadcasts ?ops))) (run_ops ?ops ?w)"
    using assms(5) by (intro listening_run_ops listening_subscribed assms(2,3)) simp_all
  moreover have "filter (wanted ?pred) (broadcasts ?ops) = greeting B w"
    using assms(1) by (simp add: broadcasts_def greeting_def view_pred_def wanted_def alertsPred_def
        replayEvent_def countEvent_def brandid_okD)
  moreover have "callbacks_set (run_ops ?ops ?w)"
    using callbacks_set_run_ops [OF ok, of ?ops] assms(4,5)
    by (simp add: callbacks_set_def after_subscribe_def)
  ultimately show ?thesis using eq by auto
qed

subsection \<open>Catching up\<close>

text \<open>What a client is sent before the live events: what it missed, and how much that was.\<close>

definition catch_up :: "'i brandid \<Rightarrow> 'i memStore \<Rightarrow> 'i \<Rightarrow> 'i Event list" where
  "catch_up B store i =
     (if GetID B i = [] then []
      else (case memEventsAfter B store i of
         Inl err \<Rightarrow> []
       | Inr es \<Rightarrow> if es = [] then [] else es @ [replayEvent B (length es)]))"

lemma event_frames: "concat (map (event_frame B) es) = frames_of B (map OutEvent es)"
  by (induction es) (simp_all add: event_frame_def)

lemma replayMissedEvents_spec:
  assumes "brandid_ok B" "accepting s"
  shows "\<exists>s'. replayMissedEvents B s store = (Ret True, s') \<and> accepting s' \<and>
    wire (rw_w (st_w s')) = wire (rw_w (st_w s)) @ frames_of B (map OutEvent (catch_up B store (LastEventID B s)))"
proof (cases "GetID B (LastEventID B s) = []")
  case True
  then show ?thesis using assms by (simp add: replayMissedEvents_def catch_up_def brandid_okD)
next
  case False
  obtain es where es: "memEventsAfter B store (LastEventID B s) = Inr es"
    by (simp add: memEventsAfter_def)
  from Replay_stored [OF assms(1) es, of s] assms(2) obtain s1 where
    s1: "Replay B s (memEventStore B store) (LastEventID B s) = (Ret (length es, None), s1)" "accepting s1"
      "wire (rw_w (st_w s1)) = wire (rw_w (st_w s)) @ frames_of B (map OutEvent es)"
    by (auto simp: accepting_def event_frames)
  obtain s2 where send: "Send B s1 (replayEvent B (length es)) = (Ret None, s2)"
    using Send_accepting [OF assms(1) s1(2), of "replayEvent B (length es)"]
    by (cases "Send B s1 (replayEvent B (length es))") auto
  have "accepting s2 \<and> wire (rw_w (st_w s2)) = wire (rw_w (st_w s)) @ frames_of B (map OutEvent (es @ [replayEvent B (length es)]))"
    using wire_of_Send [OF assms(1) s1(2), of "replayEvent B (length es)"] send s1(3) by simp
  then show ?thesis
    using False es s1 send assms(1)
    by (cases "es = []") (simp_all add: replayMissedEvents_def catch_up_def brandid_okD Let_def)
qed

subsection \<open>A client served\<close>

definition activity_served ::
    "'i brandid \<Rightarrow> (nat \<Rightarrow> 'i Event order) \<Rightarrow> 'i Event hub_op list \<Rightarrow> (nat \<Rightarrow> 'i wait) \<Rightarrow> nat \<Rightarrow>
     respWriter \<Rightarrow> request \<Rightarrow> 'i activity \<Rightarrow> bool" where
  "activity_served B ords gap env n rw r a \<longleftrightarrow>
     brandid_ok B \<and> (\<forall>i. order_ok (ords i)) \<and> accepting (NewStream rw r) \<and>
     world_ok (act_world a) \<and> callbacks_set (act_world a) \<and> list_all plain_op gap \<and>
     open_hub (run_ops gap (act_world a)) \<and>
     (\<forall>k. list_all (\<lambda>op. plain_op op \<and> peer_op (nxt (run_ops gap (act_world a))) op) (w_ops (env k))) \<and>
     (\<forall>k < n. \<not> w_done (env k)) \<and> w_done (env n)"

text \<open>Everything the client is sent, in order.\<close>

definition activity_events ::
    "'i brandid \<Rightarrow> 'i Event hub_op list \<Rightarrow> (nat \<Rightarrow> 'i wait) \<Rightarrow> nat \<Rightarrow> string \<Rightarrow> request \<Rightarrow> 'i activity \<Rightarrow> 'i Event list" where
  "activity_events B gap env n filterParam r a =
     (let w = run_ops gap (act_world a); cap = nat (effectiveBufferSize (hub w))
      in catch_up B (act_store a) (LastEventIDFromRequest B r) @
         forwarded (view_pred B filterParam) cap env 0 n (take cap (greeting B w)))"

lemma callbacks_set_recv: "recvAt ch w = Some (v, w') \<Longrightarrow> callbacks_set w \<Longrightarrow> callbacks_set w'"
  by (auto simp: callbacks_set_def dest: recv_heap)

lemma leave_spec:
  assumes "listening ch pred cap q w" "callbacks_set w" "\<forall>i. order_ok (ords i)"
  shows "\<exists>w'. withClosures B ords w (Unsubscribe ch w) = (Ret (), w') \<and> world_ok w' \<and>
    subs_of w' = filter (\<lambda>(k, s). k \<noteq> ch) (subs_of w) \<and> ch_closed (heap w' ch) \<and>
    (\<forall>(k, s) \<in> set (subs_of w'). wanted (sub_pred s) (countEvent B (length (subs_of w'))) \<longrightarrow>
       ch_buf (heap w' k) = take (ch_cap (heap w k)) (ch_buf (heap w k) @ [countEvent B (length (subs_of w'))]))"
proof -
  let ?w = "(untrack ch w)\<lparr>calls := calls w @ [CallUnsubscribe 1]\<rparr>"
  let ?c = "countEvent B (length (subs_of ?w))"
  have w: "world_ok w" "ch \<in> fst ` set (subs_of w)"
    using assms(1) by (auto simp: listening_def intro: rev_image_eqI)
  have u: "Unsubscribe ch w = (Ret (), ?w)"
    using Unsubscribe_spec [OF w(1), of ch] w(2) assms(2)
    by (simp add: callbacks_set_def callback_panics_def callback_calls_def)
  have ok: "world_ok ?w" using untrack_ok [OF w(1), of ch] by simp
  have n: "SubscriberCount (hub ?w) = length (subs_of ?w)"
    by (simp add: SubscriberCount_def subs_of_def split: option.splits)
  have r: "withClosures B ords w (Unsubscribe ch w) = (Ret (), after_broadcast ?c ?w)"
    using sendAllLocked_spec [OF ok, of "ords 0" ?c] assms(3) n unfolding u
    by (simp add: withClosures_def onUnsubscribeClosure_def Broadcast_def)
  have sub: "subs_of (after_broadcast ?c ?w) = filter (\<lambda>(k, s). k \<noteq> ch) (subs_of w)"
    by (simp add: subs_of_untrack)
  have buf: "ch_buf (heap (after_broadcast ?c ?w) k) = take (ch_cap (heap w k)) (ch_buf (heap w k) @ [?c])"
    if "(k, s) \<in> set (subs_of ?w)" "wanted (sub_pred s) ?c" for k s
  proof -
    have "map_of (subs_of ?w) k = Some s" "\<not> ch_closed (heap ?w k)" "k \<noteq> ch"
      using that(1) world_okD(1) [OF ok] world_okD(2) [OF ok that(1)] by (auto simp: subs_of_untrack)
    moreover have "length (ch_buf (heap ?w k)) \<le> ch_cap (heap ?w k)"
      using world_okD(3) [OF ok] world_okD(2) [OF ok that(1)] by blast
    ultimately show ?thesis
      using that(2) by (simp add: after_broadcast_def deliver_def accepts_wanted chanq.push_contents)
  qed
  have "ch_closed (heap (after_broadcast ?c ?w) ch)"
    by (simp add: after_broadcast_def deliver_keeps)
  then show ?thesis
    using r sub buf after_broadcast_ok [OF ok, of ?c]
    by (intro exI [of _ "after_broadcast ?c ?w"]) auto
qed

lemma activityHandler_runs:
  assumes "activity_served B ords gap env n rw r a"
  obtains w' s' outs where "activityHandler B ords gap env filterParam rw r a = Some (Ret (), w', s')"
    "world_ok w'" "nxt (run_ops gap (act_world a)) \<notin> fst ` set (subs_of w')" "st_closed s'"
    "wire (rw_w (st_w s')) = wire (rw_w rw) @ frames_of B outs"
    "events_in outs = activity_events B gap env n filterParam r a"
    "set outs \<subseteq> {OutHeartbeat} \<union> range OutEvent"
proof -
  let ?w1 = "run_ops gap (act_world a)"
  let ?cap = "nat (effectiveBufferSize (hub ?w1))"
  let ?rw = "headerSet ''Access-Control-Allow-Origin'' ''*'' rw"
  have B: "brandid_ok B" and ords: "\<forall>i. order_ok (ords i)" and acc: "accepting (NewStream ?rw r)"
    and w: "world_ok ?w1" "open_hub ?w1" "callbacks_set ?w1"
    and env: "\<forall>k. list_all (peer_op (nxt ?w1)) (w_ops (env k))" "\<And>k. list_all plain_op (w_ops (env k))"
      "\<forall>i < n. \<not> w_done (env (0 + i))" "w_done (env (0 + n))"
    using assms callbacks_set_run_ops [of "act_world a" gap]
    by (auto simp: activity_served_def list_all_iff accepting_def NewStream_def SetHeaders_def headerSet_def
        writeHeader_def Let_def)
  have st: "rw_w (st_w (NewStream ?rw r)) = rw_w rw" "LastEventID B (NewStream ?rw r) = LastEventIDFromRequest B r"
    by (simp_all add: NewStream_def Let_def SetHeaders_def headerSet_def writeHeader_def LastEventID_def)
  obtain s1 where s1: "replayMissedEvents B (NewStream ?rw r) (act_store a) = (Ret True, s1)" "accepting s1"
      "wire (rw_w (st_w s1)) = wire (rw_w rw) @
         frames_of B (map OutEvent (catch_up B (act_store a) (LastEventIDFromRequest B r)))"
    using replayMissedEvents_spec [OF B acc, of "act_store a"] unfolding st by auto
  obtain w2 where w2: "subscribeForRequest B ords filterParam ?w1 = (Ret (nxt ?w1), w2)" "callbacks_set w2"
      "listening (nxt ?w1) (view_pred B filterParam) ?cap (take ?cap (greeting B ?w1)) w2"
    using subscribeForRequest_spec [OF B w ords] by blast
  have ops: "callbacks_set (run_ops (w_ops (env k)) v)" if "world_ok v" "callbacks_set v" for k v
    using callbacks_set_run_ops [OF that(1) env(2) that(2)] by blast
  have "forwards callbacks_set B (nxt ?w1) (view_pred B filterParam) ?cap s1
      (forwarded (view_pred B filterParam) ?cap env 0 n (take ?cap (greeting B ?w1)))
      (forwardLoop B env 0 (nxt ?w1) w2 s1)"
    by (rule forwardLoop_forwards [where I = callbacks_set, OF B env(1) _ _ w2(3,2) s1(2) env(3,4)])
      (blast intro: ops callbacks_set_recv)+
  then obtain w3 s3 q outs where loop: "forwardLoop B env 0 (nxt ?w1) w2 s1 = Some (Ret (), w3, s3)" "accepting s3"
      "listening (nxt ?w1) (view_pred B filterParam) ?cap q w3" "callbacks_set w3"
      "wire (rw_w (st_w s3)) = wire (rw_w (st_w s1)) @ frames_of B outs"
      "events_in outs = forwarded (view_pred B filterParam) ?cap env 0 n (take ?cap (greeting B ?w1))"
      "set outs \<subseteq> {OutHeartbeat} \<union> range OutEvent"
    unfolding forwards_def by blast
  obtain w4 where w4: "withClosures B ords w3 (Unsubscribe (nxt ?w1) w3) = (Ret (), w4)" "world_ok w4"
      "subs_of w4 = filter (\<lambda>(k, s). k \<noteq> nxt ?w1) (subs_of w3)"
    using leave_spec [OF loop(3,4) ords, of B] by blast
  let ?outs = "map OutEvent (catch_up B (act_store a) (LastEventIDFromRequest B r)) @ outs"
  have "activityHandler B ords gap env filterParam rw r a = Some (Ret (), w4, snd (Stream_Close s3))"
    using s1(1) w2(1) loop(1) w4(1) by (simp add: activityHandler_def Let_def)
  moreover have "wire (rw_w (st_w (snd (Stream_Close s3)))) = wire (rw_w rw) @ frames_of B ?outs"
    using wire_of_Close [OF loop(2)] loop(5) s1(3) by simp
  moreover have "events_in ?outs = activity_events B gap env n filterParam r a"
    using loop(6) by (simp add: activity_events_def Let_def)
  moreover have "nxt ?w1 \<notin> fst ` set (subs_of w4)" unfolding w4(3) by auto
  ultimately show thesis
    using w4(2) wire_of_Close [OF loop(2)] loop(7)
    by (intro that [of w4 "snd (Stream_Close s3)" ?outs]) auto
qed


definition sample_rejoin :: request where
  "sample_rejoin = \<lparr>rq_header = (\<lambda>_. None)(''Last-Event-ID'' := Some ''2'')\<rparr>"

definition sample_activity :: "string activity" where
  "sample_activity = newActivityServer\<lparr>act_store := sample_store\<rparr>"

definition quiet_waits :: "nat \<Rightarrow> string wait" where
  "quiet_waits k = \<lparr>w_ops = [], w_ticks = 1, w_done = (k = 2)\<rparr>"

lemmas sample_activity_defs = sample_activity_def newActivityServer_def OnSubscribe_def OnUnsubscribe_def
  initWorld_def NewBroadcaster_def newFanOut_def

lemma sample_activity_served:
  "activity_served string_id (\<lambda>_. rev) [] quiet_waits 2 (sample_response []) sample_rejoin sample_activity"
proof -
  have "world_ok (act_world sample_activity)"
    by (simp add: sample_activity_defs world_ok_def subs_of_def)
  moreover have "open_hub (act_world sample_activity)" "callbacks_set (act_world sample_activity)"
    by (simp_all add: sample_activity_defs open_hub_def callbacks_set_def)
  moreover have "accepting (NewStream (sample_response []) sample_rejoin)"
    by (simp add: accepting_def stream_sample_defs)
  ultimately show ?thesis
    by (simp add: activity_served_def quiet_waits_def order_ok_samples run_ops_def)
qed

lemma sample_activity_events:
  "activity_events string_id [] quiet_waits 2 [] sample_rejoin sample_activity =
     [sample_stored ''3'', replayEvent string_id 1, replayEvent string_id 0, countEvent string_id 1]"
proof -
  have "LastEventIDFromRequest string_id sample_rejoin = ''2''"
    by (simp add: LastEventIDFromRequest_def ParseEventID_def NewEventID_def ContainsAny_event_id
        sample_rejoin_def headerGet_def)
  moreover have "memEventsAfter string_id sample_store ''2'' = Inr [sample_stored ''3'']"
    by (simp add: memEventsAfter_def sample_store_simps sample_stored_def sample_atoi)
  ultimately have "catch_up string_id sample_store (LastEventIDFromRequest string_id sample_rejoin) =
      [sample_stored ''3'', replayEvent string_id 1]"
    by (simp add: catch_up_def)
  moreover have "nat (effectiveBufferSize (hub (act_world sample_activity))) = 64"
    by (simp add: sample_activity_defs effectiveBufferSize_def DefaultSubscriberBuffer_def)
  moreover have "subs_of (act_world sample_activity) = []" by (simp add: sample_activity_defs subs_of_def)
  ultimately show ?thesis
    by (simp add: activity_events_def run_ops_def greeting_def numeral_2_eq_2 quiet_waits_def broadcasts_def Let_def)
      (simp add: sample_activity_def)
qed


end
