(* ===== verification/Server.thy ===== *)
theory Server
  imports Forwarding
begin

text \<open>
  The handlers of \<open>example/server.go\<close>: a client's connection from \<open>NewStream\<close> over the forwarding
  loop to the deferred clean-up, and the handler that broadcasts a message. They put the
  stream, the hub and the wire format together.
\<close>

subsection \<open>Handlers\<close>

definition defaultPort :: string where "defaultPort = ''8080''"

definition listenAddr :: "(string \<Rightarrow> string) \<Rightarrow> string" where
  "listenAddr getenv = (if getenv ''PORT'' \<noteq> [] then '':'' @ getenv ''PORT'' else '':'' @ defaultPort)"

definition connectedEvent :: "'i brandid \<Rightarrow> 'i Event" where
  "connectedEvent B =
     \<lparr>ev_Event = EventConnected, ev_Data = ''connected'', ev_ID = NewEventID B ''0'', ev_Retry = 0\<rparr>"

text \<open>
  The deferred calls run in reverse order: first \<open>Unsubscribe\<close>, then \<open>Close\<close>, also when an
  earlier one panics.
\<close>

definition eventsHandler ::
    "'i brandid \<Rightarrow> (nat \<Rightarrow> 'i wait) \<Rightarrow> respWriter \<Rightarrow> request \<Rightarrow> 'i Event world \<Rightarrow>
     (unit outcome \<times> 'i Event world \<times> Stream) option" where
  "eventsHandler B env rw r w =
     (let s = NewStream rw r
      in case Send B s (connectedEvent B) of
           (Panic m, s) \<Rightarrow> Some (Panic m, w, snd (Stream_Close s))
         | (Ret (Some err), s) \<Rightarrow> Some (Ret (), w, snd (Stream_Close s))
         | (Ret None, s) \<Rightarrow>
             (case Subscribe w of
                (Panic m, w) \<Rightarrow> Some (Panic m, w, snd (Stream_Close s))
              | (Ret ch, w) \<Rightarrow>
                  Option.bind (forwardLoop B env 0 ch w s)
                    (\<lambda>(res, w, s). case Unsubscribe ch w of
                       (Panic m, w) \<Rightarrow> Some (Panic m, w, snd (Stream_Close s))
                     | (Ret _, w) \<Rightarrow> Some (res, w, snd (Stream_Close s)))))"

text \<open>\<open>http.Error\<close> of the standard library: plain text with the given status.\<close>

definition httpError :: "string \<Rightarrow> nat \<Rightarrow> respWriter \<Rightarrow> unit outcome \<times> respWriter" where
  "httpError msg code rw =
     (let rw = rw\<lparr>rw_header := (rw_header rw)(''Content-Length'' := None)\<rparr>;
          rw = headerSet ''X-Content-Type-Options'' ''nosniff''
                 (headerSet ''Content-Type'' ''text/plain; charset=utf-8'' rw)
      in case onWriter (\<lambda>w. snd (Write w (msg @ [LF]))) (writeHeader code rw) of
           (Panic m, rw) \<Rightarrow> (Panic m, rw)
         | (Ret _, rw) \<Rightarrow> (Ret (), rw))"

text \<open>\<open>broadcastHandler\<close>: the query parameter, the clock, and the status it answers with.\<close>

definition broadcastHandler ::
    "'i brandid \<Rightarrow> 'i Event order \<Rightarrow> int \<Rightarrow> string \<Rightarrow> respWriter \<Rightarrow> 'i Event world \<Rightarrow>
     unit outcome \<times> respWriter \<times> 'i Event world" where
  "broadcastHandler B ord now msg rw w =
     (if msg = [] then
        (case httpError ''missing msg query parameter'' 400 rw of (res, rw) \<Rightarrow> (res, rw, w))
      else (case Broadcast ord \<lparr>ev_Event = ''message'', ev_Data = msg,
              ev_ID = NewEventID B (FormatInt now), ev_Retry = 0\<rparr> w of
          (Panic m, w) \<Rightarrow> (Panic m, rw, w)
        | (Ret _, w) \<Rightarrow> (Ret (), writeHeader 202 rw, w)))"

subsection \<open>A connection served\<close>

text \<open>
  A run of a handler on a live connection: the other goroutines leave its channel alone, and
  the client's context is seen as cancelled in round \<open>n\<close>.
\<close>

definition served ::
    "'i brandid \<Rightarrow> (nat \<Rightarrow> 'i wait) \<Rightarrow> nat \<Rightarrow> respWriter \<Rightarrow> request \<Rightarrow> 'i Event world \<Rightarrow> bool" where
  "served B env n rw r w \<longleftrightarrow>
     brandid_ok B \<and> accepting (NewStream rw r) \<and> world_ok w \<and> open_hub w \<and>
     \<not> callback_panics (onSubscribe (hub w)) \<and>
     (\<forall>k. list_all (peer_op (nxt w)) (w_ops (env k))) \<and>
     (\<forall>k < n. \<not> w_done (env k)) \<and> w_done (env n)"

abbreviation forwarded_to :: "(nat \<Rightarrow> 'i wait) \<Rightarrow> nat \<Rightarrow> 'i Event world \<Rightarrow> 'i Event list" where
  "forwarded_to env n w \<equiv> forwarded None (nat (effectiveBufferSize (hub w))) env 0 n []"

lemma eventsHandler_runs:
  assumes "served B env n rw r w"
  obtains res w' s' outs where "eventsHandler B env rw r w = Some (res, w', s')"
    "res = Ret () \<or> callback_panics (onUnsubscribe (hub w'))" "world_ok w'"
    "nxt w \<notin> fst ` set (subs_of w')" "ch_closed (heap w' (nxt w))" "st_closed s'"
    "wire (rw_w (st_w s')) = wire (rw_w rw) @ frames_of B outs"
    "events_in outs = connectedEvent B # forwarded_to env n w"
    "set outs \<subseteq> {OutHeartbeat} \<union> range OutEvent"
proof -
  have B: "brandid_ok B" and acc: "accepting (NewStream rw r)"
    and w: "world_ok w" "open_hub w" "\<not> callback_panics (onSubscribe (hub w))"
    and env: "\<forall>k. list_all (peer_op (nxt w)) (w_ops (env k))"
      "\<forall>i < n. \<not> w_done (env (0 + i))" "w_done (env (0 + n))"
    using assms by (simp_all add: served_def)
  obtain s1 where send: "Send B (NewStream rw r) (connectedEvent B) = (Ret None, s1)"
    using Send_accepting [OF B acc, of "connectedEvent B"]
    by (cases "Send B (NewStream rw r) (connectedEvent B)") auto
  have "rw_w (st_w (NewStream rw r)) = rw_w rw"
    by (simp add: NewStream_def Let_def SetHeaders_def headerSet_def writeHeader_def)
  then have s1: "accepting s1" "wire (rw_w (st_w s1)) = wire (rw_w rw) @ frames_of B [OutEvent (connectedEvent B)]"
    using wire_of_Send [OF B acc, of "connectedEvent B"] send by simp_all
  have sub: "Subscribe w = (Ret (nxt w), after_subscribe None w)"
    using w by (simp add: Subscribe_def SubscribeFilter_spec)
  from forwardLoop_forwards [of B "nxt w" env "\<lambda>w. True", OF B env(1) _ _ listening_subscribed [OF w(1,2)] _ s1(1) env(2,3)]
  obtain w2 s2 q outs where loop: "forwardLoop B env 0 (nxt w) (after_subscribe None w) s1 = Some (Ret (), w2, s2)"
      "accepting s2" "listening (nxt w) None (nat (effectiveBufferSize (hub w))) q w2"
      "wire (rw_w (st_w s2)) = wire (rw_w (st_w s1)) @ frames_of B outs"
      "events_in outs = forwarded_to env n w" "set outs \<subseteq> {OutHeartbeat} \<union> range OutEvent"
    unfolding forwards_def by blast
  obtain res w' where un: "Unsubscribe (nxt w) w2 = (res, w')" "world_ok w'"
      "nxt w \<notin> fst ` set (subs_of w')" "ch_closed (heap w' (nxt w))"
      "res = Ret () \<or> callback_panics (onUnsubscribe (hub w'))"
    using Unsubscribe_listening [OF loop(3)] by blast
  have "eventsHandler B env rw r w = Some (res, w', snd (Stream_Close s2))"
    using send sub loop(1) un(1) by (cases res) (simp_all add: eventsHandler_def Let_def)
  moreover have "wire (rw_w (st_w (snd (Stream_Close s2)))) =
      wire (rw_w rw) @ frames_of B (OutEvent (connectedEvent B) # outs)"
    using wire_of_Close [OF loop(2)] loop(4) s1(2) by simp
  ultimately show thesis
    using un(2-5) wire_of_Close [OF loop(2)] loop(5,6)
    by (intro that [of res w' "snd (Stream_Close s2)" "OutEvent (connectedEvent B) # outs"]) auto
qed

text \<open>
  C21. A handler leaves nothing behind: it returns as soon as its client is gone, and then its
  channel is closed and no longer tracked, so the hub sends nothing to it, and its stream is
  closed, so the heartbeat goroutine stays silent. Nothing can panic but an unsubscribe
  callback of the application.
\<close>

theorem eventsHandler_cleans_up:
  assumes "served B env n rw r w"
  shows "\<exists>res w' s'. eventsHandler B env rw r w = Some (res, w', s') \<and>
    (res = Ret () \<or> callback_panics (onUnsubscribe (hub w'))) \<and> world_ok w' \<and>
    nxt w \<notin> fst ` set (subs_of w') \<and> ch_closed (heap w' (nxt w)) \<and>
    st_closed s' \<and> heartbeatTick s' = (Ret False, s')"
proof -
  obtain res w' s' outs where h: "eventsHandler B env rw r w = Some (res, w', s')"
    "res = Ret () \<or> callback_panics (onUnsubscribe (hub w'))" "world_ok w'"
    "nxt w \<notin> fst ` set (subs_of w')" "ch_closed (heap w' (nxt w))" "st_closed s'"
    using eventsHandler_runs [OF assms] by metis
  then show ?thesis by (intro exI [of _ res] exI [of _ w'] exI [of _ s']) (simp add: heartbeatTick_def)
qed

text \<open>
  C1. From a broadcast to the browser: the client of a served connection, reading what the
  handler wrote through a network that cuts the bytes anywhere, gets the connected event and
  then, in order, the events that other goroutines broadcast on the hub: exactly those the
  bounded queue of the subscription took, and every one of them, up to those still unread
  when the client left, when they fit the buffer together.
\<close>

theorem client_receives_broadcasts:
  assumes "served B env n rw r w" and "wire (rw_w rw) = []"
    and "\<forall>e \<in> set (connectedEvent B # forwarded_to env n w). sendable B (OutEvent e) \<and>
           (\<forall>l \<in> set (event_lines B e). length l < line_limit opts)"
    and "limit_ok opts" "12 \<le> line_limit opts"
  shows "\<exists>res w' s'. eventsHandler B env rw r w = Some (res, w', s') \<and>
    (\<forall>src. source_ready src \<and> source_ending src = Ends EOF \<and> source_stream src = wire (rw_w (st_w s')) \<longrightarrow>
       ReadEvents source_Read src opts =
         Some (Ret (Inr (received B [] 0 (map OutEvent (connectedEvent B # forwarded_to env n w)))))) \<and>
    (int (length (history None env 0 n)) \<le> effectiveBufferSize (hub w) \<longrightarrow>
      (\<exists>unread. history None env 0 n = forwarded_to env n w @ unread))"
proof -
  have B: "brandid_ok B" using assms(1) by (simp add: served_def)
  obtain res w' s' outs where h: "eventsHandler B env rw r w = Some (res, w', s')"
    and o: "wire (rw_w (st_w s')) = wire (rw_w rw) @ frames_of B outs"
    "events_in outs = connectedEvent B # forwarded_to env n w"
    "set outs \<subseteq> {OutHeartbeat} \<union> range OutEvent"
    by (rule eventsHandler_runs [OF assms(1)])
  have "ReadEvents source_Read src opts =
      Some (Ret (Inr (received B [] 0 (map OutEvent (connectedEvent B # forwarded_to env n w)))))"
    if "source_ready src" "source_ending src = Ends EOF" "source_stream src = wire (rw_w (st_w s'))" for src
    by (rule client_reads [OF B o assms(3-5) that(1,2) assms(2) that(3)])
  moreover have "int (length (history None env 0 n)) \<le> effectiveBufferSize (hub w) \<longrightarrow>
      (\<exists>unread. history None env 0 n = forwarded_to env n w @ unread)"
    using forwarded_prefix [of "[]" None env 0 n "nat (effectiveBufferSize (hub w))"]
    by (auto simp: nat_le_iff le_nat_iff)
  ultimately show ?thesis
    using h by (intro exI [of _ res] exI [of _ w'] exI [of _ s'] conjI) blast+
qed

definition sample_waits :: "nat \<Rightarrow> string wait" where
  "sample_waits k =
     \<lparr>w_ops = (if k = 0 then [OpSubscribe None, OpBroadcast rev sample_event] else []),
      w_ticks = 2, w_done = (k = 1)\<rparr>"

definition fresh_hub :: "string Event world" where
  "fresh_hub = initWorld [WithBufferSize 8]"

lemma sample_served: "served string_id sample_waits 1 (sample_response []) sample_request fresh_hub"
  by (simp add: served_def string_id_ok accepting_def stream_sample_defs fresh_hub_def initWorld_def
      NewBroadcaster_def newFanOut_def WithBufferSize_def world_ok_def subs_of_def open_hub_def
      callback_panics_def sample_waits_def order_ok_def)

theorem eventsHandler_cleans_up_witness:
  "\<exists>res w' s'. eventsHandler string_id sample_waits (sample_response []) sample_request fresh_hub =
      Some (res, w', s') \<and> 0 \<notin> fst ` set (subs_of w') \<and> ch_closed (heap w' 0) \<and> st_closed s'"
  using eventsHandler_cleans_up [OF sample_served] by (auto simp: fresh_hub_def initWorld_def)

lemma sample_forwarded:
  "forwarded_to sample_waits 1 fresh_hub = [sample_event]"
  by (simp add: sample_waits_def fresh_hub_def initWorld_def NewBroadcaster_def newFanOut_def
      WithBufferSize_def effectiveBufferSize_def broadcasts_def)

lemma connected_data: "data_lines ''connected'' = [''connected'']"
  by (simp add: data_lines_def lines_at_eof_def terminated_def pending_def eol_split.simps)

lemma connected_lines:
  "event_lines string_id (connectedEvent string_id) =
     [''event: connected'', ''data: connected'', ''id: 0'']"
  by (simp add: event_lines_def field_line_def connectedEvent_def EventConnected_def NewEventID_def connected_data)

theorem client_receives_broadcasts_witness:
  "\<exists>res w' s'. eventsHandler string_id sample_waits (sample_response []) sample_request fresh_hub =
      Some (res, w', s') \<and>
    ReadEvents source_Read [Chunk (wire (rw_w (st_w s'))) None] [WithMaxLineBytes 64] = Some (Ret (Inr
     [\<lparr>pe_Type = ''connected'', pe_DataLines = [''connected''], pe_ID = ''0'', pe_Retry = 0\<rparr>,
      \<lparr>pe_Type = ''tick'', pe_DataLines = [''a'', ''b''], pe_ID = ''7'', pe_Retry = 3000\<rparr>]))"
proof -
  let ?es = "connectedEvent string_id # forwarded_to sample_waits 1 fresh_hub"
  have fit: "\<forall>e \<in> set ?es. sendable string_id (OutEvent e) \<and>
      (\<forall>l \<in> set (event_lines string_id e). length l < line_limit [WithMaxLineBytes 64])"
  proof -
    have "\<forall>l \<in> set (event_lines string_id sample_event). length l < 64" unfolding sample_lines by simp
    moreover have "\<forall>l \<in> set (event_lines string_id (connectedEvent string_id)). length l < 64"
      unfolding connected_lines by simp
    moreover have "sendable string_id (OutEvent (connectedEvent string_id))" "sendable string_id (OutEvent sample_event)"
      by (simp_all add: connectedEvent_def EventConnected_def NewEventID_def no_eol_def)
    ultimately show ?thesis unfolding sample_forwarded by (simp add: limit_simps)
  qed
  have rw: "wire (rw_w (sample_response [])) = []" "limit_ok [WithMaxLineBytes 64]" "12 \<le> line_limit [WithMaxLineBytes 64]"
    by (simp_all add: sample_response_def limit_simps)
  from client_receives_broadcasts [OF sample_served rw(1) fit rw(2,3)] obtain res w' s' where
    h: "eventsHandler string_id sample_waits (sample_response []) sample_request fresh_hub = Some (res, w', s')"
      "\<forall>src. source_ready src \<and> source_ending src = Ends EOF \<and> source_stream src = wire (rw_w (st_w s')) \<longrightarrow>
         ReadEvents source_Read src [WithMaxLineBytes 64] = Some (Ret (Inr (received string_id [] 0 (map OutEvent ?es))))"
    by (elim exE conjE)
  obtain res2 w2 s2 outs where r:
    "eventsHandler string_id sample_waits (sample_response []) sample_request fresh_hub = Some (res2, w2, s2)"
    "wire (rw_w (st_w s2)) = wire (rw_w (sample_response [])) @ frames_of string_id outs"
    "events_in outs = ?es"
    by (rule eventsHandler_runs [OF sample_served])
  have "wire (rw_w (st_w s2)) \<noteq> []" using r(2,3) by (cases outs) (auto simp: frame_of_lines_def)
  moreover have "s2 = s'" using h(1) r(1) by simp
  ultimately have "ReadEvents source_Read [Chunk (wire (rw_w (st_w s'))) None] [WithMaxLineBytes 64] =
      Some (Ret (Inr (received string_id [] 0 (map OutEvent ?es))))"
    using h(2) by simp
  then show ?thesis
    using h(1) sample_data_lines connected_data unfolding sample_forwarded
    by (simp add: connectedEvent_def EventConnected_def NewEventID_def Let_def)
qed

text \<open>
  \<open>broadcastHandler\<close> answers 400 with a plain-text body and leaves the hub alone when the
  message is empty; otherwise it answers 202 and hands the hub one event of type \<open>message\<close> that
  carries the text as its data and the clock as its identifier, which every subscriber that
  has room gets as its newest message.
\<close>

lemma broadcastHandler_publishes:
  assumes "world_ok w" "order_ok ord" "\<not> rw_finished rw" "rw_status rw = None"
    and "broadcastHandler B ord now msg rw w = (res, rw', w')"
  shows "res = Ret () \<and> world_ok w' \<and> hub w' = hub w \<and>
    (if msg = [] then rw_status rw' = Some 400 \<and> w' = w \<and>
       (outcomes (rw_w rw) = [] \<longrightarrow> wire (rw_w rw') = wire (rw_w rw) @ ''missing msg query parameter'' @ [LF])
     else rw_status rw' = Some 202 \<and> rw_w rw' = rw_w rw \<and>
       (\<forall>k. (k, \<lparr>sub_ch = k, sub_pred = None\<rparr>) \<in> set (subs_of w) \<and>
            length (ch_buf (heap w k)) < ch_cap (heap w k) \<longrightarrow>
          ch_buf (heap w' k) = ch_buf (heap w k) @
            [\<lparr>ev_Event = ''message'', ev_Data = msg, ev_ID = NewEventID B (FormatInt now), ev_Retry = 0\<rparr>]))"
proof (cases "msg = []")
  case True
  then show ?thesis
    using assms by (auto simp: broadcastHandler_def httpError_def onWriter_def headerSet_def writeHeader_def
        Write_def Let_def split: list.splits prod.splits)
next
  case False
  let ?evt = "\<lparr>ev_Event = ''message'', ev_Data = msg, ev_ID = NewEventID B (FormatInt now), ev_Retry = 0\<rparr>"
  have "w' = after_broadcast ?evt w" "res = Ret ()" "rw' = writeHeader 202 rw"
    using False sendAllLocked_spec [OF assms(1,2), of ?evt] assms(5)
    by (simp_all add: broadcastHandler_def Broadcast_def)
  moreover have "ch_buf (heap (after_broadcast ?evt w) k) = ch_buf (heap w k) @ [?evt]"
    if "(k, \<lparr>sub_ch = k, sub_pred = None\<rparr>) \<in> set (subs_of w)" "length (ch_buf (heap w k)) < ch_cap (heap w k)"
    for k
  proof -
    have "map_of (subs_of w) k = Some \<lparr>sub_ch = k, sub_pred = None\<rparr>" "\<not> ch_closed (heap w k)"
      using that(1) world_okD(1) [OF assms(1)] world_okD(2) [OF assms(1) that(1)] by simp_all
    then show ?thesis
      using that(2) by (simp add: after_broadcast_def deliver_def accepts_def chanq.push_contents)
  qed
  ultimately show ?thesis
    using False assms(4) after_broadcast_ok [OF assms(1), of ?evt] by (simp add: writeHeader_def)
qed

end
