(* ===== verification/Progress.thy ===== *)
theory Progress
  imports Forwarding
begin

text \<open>
  The handlers of \<open>example/htmx/main.go\<close>: a job's progress streamed as HTML fragments. The
  fragments are rendered by templates of the third-party package templ, a parameter here.
\<close>

subsection \<open>Handlers\<close>

definition progressStep :: nat where "progressStep = 10"
definition maxProgress :: nat where "maxProgress = 100"

text \<open>\<open>progressContent(progress).Render(ctx, &buf)\<close> gives the rendered text or an error.\<close>

type_synonym render = "nat \<Rightarrow> goerr + string"

definition renderProgress :: "render \<Rightarrow> nat \<Rightarrow> string" where
  "renderProgress render progress = (case render progress of Inl err \<Rightarrow> [] | Inr html \<Rightarrow> html)"

definition progressEvent :: "'i brandid \<Rightarrow> render \<Rightarrow> nat \<Rightarrow> 'i Event" where
  "progressEvent B render progress =
     \<lparr>ev_Event = ''progress'', ev_Data = renderProgress render progress, ev_ID = zeroID B, ev_Retry = 0\<rparr>"

text \<open>
  The loop. \<open>cancelled progress\<close> tells whether the context is found cancelled at the check before
  the event, and during the delay after it.
\<close>

function progressLoop ::
    "'i brandid \<Rightarrow> render \<Rightarrow> (nat \<Rightarrow> bool \<times> bool) \<Rightarrow> nat \<Rightarrow> Stream \<Rightarrow> unit outcome \<times> Stream" where
  "progressLoop B render cancelled progress s =
     (if progress \<le> maxProgress then
        (if fst (cancelled progress) then (Ret (), s)
         else (case Send B s (progressEvent B render progress) of
             (Panic m, s) \<Rightarrow> (Panic m, s)
           | (Ret (Some err), s) \<Rightarrow> (Ret (), s)
           | (Ret None, s) \<Rightarrow>
               (if progress < maxProgress \<and> snd (cancelled progress) then (Ret (), s)
                else progressLoop B render cancelled (progress + progressStep) s)))
      else (Ret (), s))"
  by pat_completeness auto
termination
  by (relation "measure (\<lambda>(B, render, cancelled, progress, s). Suc maxProgress - progress)")
    (auto simp: progressStep_def maxProgress_def)

declare progressLoop.simps [simp del]

definition progressHandler ::
    "'i brandid \<Rightarrow> render \<Rightarrow> (nat \<Rightarrow> bool \<times> bool) \<Rightarrow> respWriter \<Rightarrow> request \<Rightarrow> unit outcome \<times> Stream" where
  "progressHandler B render cancelled rw r =
     (case progressLoop B render cancelled 0 (NewStream rw r) of
        (res, s) \<Rightarrow> (res, snd (Stream_Close s)))"

text \<open>The handlers of the page and of the container it reloads: a header and a rendered page.\<close>

definition pageHandler :: "(writer \<Rightarrow> goerr option \<times> writer) \<Rightarrow> respWriter \<Rightarrow> unit outcome \<times> respWriter" where
  "pageHandler page rw =
     (case onWriter page (headerSet ''Content-Type'' ''text/html; charset=utf-8'' rw) of
        (Panic m, rw) \<Rightarrow> (Panic m, rw)
      | (Ret _, rw) \<Rightarrow> (Ret (), rw))"

definition htmxIndexHandler :: "(writer \<Rightarrow> goerr option \<times> writer) \<Rightarrow> respWriter \<Rightarrow> unit outcome \<times> respWriter" where
  "htmxIndexHandler indexPage rw = pageHandler indexPage rw"

definition containerHandler :: "(writer \<Rightarrow> goerr option \<times> writer) \<Rightarrow> respWriter \<Rightarrow> unit outcome \<times> respWriter" where
  "containerHandler sseContainer rw = pageHandler sseContainer rw"

definition defaultHtmxPort :: string where "defaultHtmxPort = ''8766''"

text \<open>\<open>os.Getenv\<close> gives the empty string for an unset variable.\<close>

definition htmxListenAddr :: "(string \<Rightarrow> string) \<Rightarrow> string" where
  "htmxListenAddr getenv = (if getenv ''PORT'' \<noteq> [] then '':'' @ getenv ''PORT'' else '':'' @ defaultHtmxPort)"

subsection \<open>What the client sees\<close>

text \<open>The progress values reached before the context is cancelled.\<close>

fun reached :: "(nat \<Rightarrow> bool \<times> bool) \<Rightarrow> nat list \<Rightarrow> nat list" where
  "reached cancelled [] = []"
| "reached cancelled (p # ps) =
     (if fst (cancelled p) then []
      else p # (if p < maxProgress \<and> snd (cancelled p) then [] else reached cancelled ps))"

definition milestones :: "nat list" where
  "milestones = map ((*) progressStep) [0..<11]"

lemma progressLoop_spec:
  assumes "brandid_ok B"
  shows "accepting s \<Longrightarrow> k \<le> 11 \<Longrightarrow>
    \<exists>s'. progressLoop B render cancelled (progressStep * k) s = (Ret (), s') \<and> accepting s' \<and>
      wire (rw_w (st_w s')) = wire (rw_w (st_w s)) @ frames_of B (map (OutEvent \<circ> progressEvent B render)
        (reached cancelled (map ((*) progressStep) [k..<11])))"
proof (induction "11 - k" arbitrary: k s)
  case 0
  then have "k = 11" by simp
  then show ?case
    using 0(2) by (subst progressLoop.simps) (simp add: progressStep_def maxProgress_def)
next
  case (Suc n)
  then have k: "k < 11" "n = 11 - Suc k" by simp_all
  then have upt: "[k..<11] = k # [Suc k..<11]" by (simp add: upt_rec)
  have le: "progressStep * k \<le> maxProgress" using k(1) by (simp add: progressStep_def maxProgress_def)
  obtain s1 where send: "Send B s (progressEvent B render (progressStep * k)) = (Ret None, s1)"
    using Send_accepting [OF assms Suc.prems(1), of "progressEvent B render (progressStep * k)"]
    by (cases "Send B s (progressEvent B render (progressStep * k))") auto
  have s1: "accepting s1" "wire (rw_w (st_w s1)) = wire (rw_w (st_w s)) @
      frames_of B [OutEvent (progressEvent B render (progressStep * k))]"
    using wire_of_Send [OF assms Suc.prems(1), of "progressEvent B render (progressStep * k)"] send by simp_all
  obtain s2 where s2: "progressLoop B render cancelled (progressStep * Suc k) s1 = (Ret (), s2)" "accepting s2"
      "wire (rw_w (st_w s2)) = wire (rw_w (st_w s1)) @ frames_of B (map (OutEvent \<circ> progressEvent B render)
        (reached cancelled (map ((*) progressStep) [Suc k..<11])))"
    using Suc.hyps(1) [OF k(2) s1(1)] k(1) by auto
  have step: "progressStep * Suc k = progressStep * k + progressStep" by simp
  show ?case
    using le send s1 s2 Suc.prems(1) unfolding upt step
    by (subst progressLoop.simps) (auto simp: comp_def)
qed

lemma progressHandler_runs:
  assumes "brandid_ok B" "accepting (NewStream rw r)"
  shows "\<exists>s'. progressHandler B render cancelled rw r = (Ret (), s') \<and> st_closed s' \<and>
    wire (rw_w (st_w s')) = wire (rw_w rw) @ frames_of B
      (map OutEvent (map (progressEvent B render) (reached cancelled milestones)))"
proof -
  have "rw_w (st_w (NewStream rw r)) = rw_w rw"
    by (simp add: NewStream_def Let_def SetHeaders_def headerSet_def writeHeader_def)
  then show ?thesis
    using progressLoop_spec [OF assms, of 0 render cancelled] wire_of_Close
    by (fastforce simp: progressHandler_def milestones_def)
qed

text \<open>
  The job's client sees its whole course: the handler always returns, with its stream
  closed; without a cancellation the client reads exactly eleven progress events, for 0, 10,
  20, ..., 100 percent in order, each with its rendered fragment (an empty one where rendering
  failed); when the client leaves earlier, an initial part of them has been sent.
\<close>

lemma progress_client_receives:
  assumes "brandid_ok B" "accepting (NewStream rw r)" "wire (rw_w rw) = []"
    and "progressHandler B render cancelled rw r = (res, s')"
    and "\<forall>p \<in> set milestones. \<forall>l \<in> set (event_lines B (progressEvent B render p)). length l < line_limit opts"
    and "limit_ok opts" "12 \<le> line_limit opts" "source_ready src" "source_ending src = Ends EOF"
    and "source_stream src = wire (rw_w (st_w s'))"
  shows "res = Ret () \<and> st_closed s' \<and> (\<exists>later. milestones = reached cancelled milestones @ later) \<and>
    ReadEvents source_Read src opts = Some (Ret (Inr (map (\<lambda>p.
      \<lparr>pe_Type = ''progress'', pe_DataLines = splitLines (renderProgress render p), pe_ID = [], pe_Retry = 0\<rparr>)
      (reached cancelled milestones)))) \<and>
    ((\<forall>p. cancelled p = (False, False)) \<longrightarrow> reached cancelled milestones = [0, 10, 20, 30, 40, 50, 60, 70, 80, 90, 100])"
proof -
  let ?es = "map (progressEvent B render) (reached cancelled milestones)"
  have h: "res = Ret ()" "st_closed s'"
      "wire (rw_w (st_w s')) = wire (rw_w rw) @ frames_of B (map OutEvent ?es)"
    using progressHandler_runs [OF assms(1,2), of render cancelled] assms(4) by auto
  have prefix: "\<exists>later. ps = reached cancelled ps @ later" for ps
    by (induction ps) auto
  have rec: "received B [] 0 (map OutEvent (map (progressEvent B render) ps)) = map (\<lambda>p.
      \<lparr>pe_Type = ''progress'', pe_DataLines = splitLines (renderProgress render p), pe_ID = [], pe_Retry = 0\<rparr>) ps" for ps
    using assms(1) by (induction ps) (simp_all add: progressEvent_def Let_def brandid_okD splitLines_data_lines)
  have sendable: "sendable B (OutEvent (progressEvent B render p))" for p
    using assms(1) by (simp add: progressEvent_def brandid_okD)
  have "set (reached cancelled ps) \<subseteq> set ps" for ps by (induction ps) auto
  then have "set (reached cancelled milestones) \<subseteq> set milestones" .
  then have "ReadEvents source_Read src opts = Some (Ret (Inr (received B [] 0 (map OutEvent ?es))))"
    using sendable assms(5) by (intro client_reads [OF assms(1) h(3) events_in_events _ _ assms(6-9,3,10)]) auto
  moreover have "reached cancelled milestones = milestones" if "\<forall>p. cancelled p = (False, False)"
  proof -
    have "reached cancelled ps = ps" for ps using that by (induction ps) simp_all
    then show ?thesis .
  qed
  ultimately show ?thesis
    using h(1,2) prefix [of milestones] rec by (auto simp: milestones_def progressStep_def upt_rec)
qed

definition sample_cancel :: "nat \<Rightarrow> bool \<times> bool" where
  "sample_cancel p = (False, p = 10)"

end
