(* ===== verification/Programs.thy ===== *)
theory Programs
  imports Activity Server Progress
begin

text \<open>
  The \<open>main\<close> functions of the three examples: the routes they register with \<open>http.ServeMux\<close>, the
  server they configure, and the shutdown of the DataStar example when a signal arrives.
\<close>

subsection \<open>ServeMux\<close>

text \<open>
  The part of \<open>net/http\<close>'s request multiplexer the programs use: patterns of a method and a
  literal path. A path that ends in a slash matches everything below it; of several matching
  patterns the more specific, that is the longer, one wins; \<open>GET\<close> also matches \<open>HEAD\<close>. Paths are
  as in the request, without percent-escapes.
\<close>

record 'h route =
  rt_method :: string
  rt_path :: string
  rt_handler :: 'h

datatype 'h dispatch =
    Found 'h
  | Redirect string
  | NotFound
  | MethodNotAllowed "string list"

definition ends_slash :: "string \<Rightarrow> bool" where
  "ends_slash p \<longleftrightarrow> p \<noteq> [] \<and> last p = CHR ''/''"

definition path_matches :: "string \<Rightarrow> string \<Rightarrow> bool" where
  "path_matches pat p = (if ends_slash pat then HasPrefix p pat else p = pat)"

definition method_matches :: "string \<Rightarrow> string \<Rightarrow> bool" where
  "method_matches m meth \<longleftrightarrow> meth = m \<or> m = ''GET'' \<and> meth = ''HEAD''"

fun mostSpecific :: "'h route list \<Rightarrow> 'h route option" where
  "mostSpecific [] = None"
| "mostSpecific (r # rs) = (case mostSpecific rs of
     None \<Rightarrow> Some r
   | Some r' \<Rightarrow> Some (if length (rt_path r) \<ge> length (rt_path r') then r else r'))"

definition treeMatch :: "'h route list \<Rightarrow> string \<Rightarrow> string \<Rightarrow> 'h route option" where
  "treeMatch rs meth p =
     mostSpecific (filter (\<lambda>r. method_matches (rt_method r) meth \<and> path_matches (rt_path r) p) rs)"

text \<open>The pattern of an exact match ends where the path ends.\<close>

definition exactMatch :: "'h route option \<Rightarrow> string \<Rightarrow> bool" where
  "exactMatch n p = (case n of None \<Rightarrow> False | Some r \<Rightarrow> rt_path r = p)"

text \<open>The second component is the path with a slash appended, when that is to be tried instead.\<close>

definition matchOrRedirect :: "'h route list \<Rightarrow> string \<Rightarrow> string \<Rightarrow> 'h route option \<times> string option" where
  "matchOrRedirect rs meth p =
     (let n = treeMatch rs meth p
      in if \<not> exactMatch n p \<and> \<not> ends_slash p \<and> exactMatch (treeMatch rs meth (p @ ''/'')) (p @ ''/'')
         then (None, Some (p @ ''/'')) else (n, None))"

definition allowedMethods :: "'h route list \<Rightarrow> string \<Rightarrow> string list" where
  "allowedMethods rs p =
     (let ms = map rt_method (filter (\<lambda>r. path_matches (rt_path r) p \<or>
                 \<not> ends_slash p \<and> path_matches (rt_path r) (p @ ''/'')) rs)
      in filter (\<lambda>m. m \<in> set ms \<or> m = ''HEAD'' \<and> ''GET'' \<in> set ms) [''GET'', ''HEAD'', ''POST''])"

text \<open>\<open>cleanPath\<close>: no empty, \<open>.\<close> or \<open>..\<close> element; a trailing slash is kept.\<close>

fun splitSlash :: "string \<Rightarrow> string \<Rightarrow> string list" where
  "splitSlash acc [] = [rev acc]"
| "splitSlash acc (c # cs) = (if c = CHR ''/'' then rev acc # splitSlash [] cs else splitSlash (c # acc) cs)"

definition cleanElem :: "string \<Rightarrow> string list \<Rightarrow> string list" where
  "cleanElem e stack = (if e = [] \<or> e = ''.'' then stack else if e = ''..'' then tl stack else e # stack)"

definition cleanPath :: "string \<Rightarrow> string" where
  "cleanPath p =
     (if p = [] then ''/''
      else
        let p = (if hd p \<noteq> CHR ''/'' then CHR ''/'' # p else p);
            elems = rev (fold cleanElem (splitSlash [] p) []);
            np = (if elems = [] then ''/'' else concat (map (\<lambda>e. CHR ''/'' # e) elems))
        in if ends_slash p \<and> np \<noteq> ''/'' then np @ ''/'' else np)"

definition muxHandler :: "'h route list \<Rightarrow> string \<Rightarrow> string \<Rightarrow> 'h dispatch" where
  "muxHandler rs meth path =
     (let p = (if meth = ''CONNECT'' then path else cleanPath path)
      in case matchOrRedirect rs meth p of
           (_, Some p') \<Rightarrow> Redirect p'
         | (n, None) \<Rightarrow>
             if p \<noteq> path then Redirect p
             else (case n of
                 Some r \<Rightarrow> Found (rt_handler r)
               | None \<Rightarrow> (case allowedMethods rs p of [] \<Rightarrow> NotFound | ms \<Rightarrow> MethodNotAllowed ms)))"

subsection \<open>The routes of the programs\<close>

datatype example_handler = HEvents | HBroadcast

definition exampleRoutes :: "example_handler route list" where
  "exampleRoutes =
     [\<lparr>rt_method = ''GET'', rt_path = ''/events'', rt_handler = HEvents\<rparr>,
      \<lparr>rt_method = ''POST'', rt_path = ''/broadcast'', rt_handler = HBroadcast\<rparr>]"

text \<open>
  \<open>main\<close> of the example server: one broadcaster, and a server of these routes at the address of the
  environment (\<open>http.ListenAndServe\<close> sets no timeouts).
\<close>

definition exampleMain :: "(string \<Rightarrow> string) \<Rightarrow> 'i Event world \<times> string \<times> example_handler route list" where
  "exampleMain getenv = (initWorld [], listenAddr getenv, exampleRoutes)"

text \<open>
  A request to it, from the multiplexer to the handler: the query parameter \<open>msg\<close>, the clock, and
  for an event stream what happens while the handler waits.
\<close>

definition exampleServe ::
    "'i brandid \<Rightarrow> (nat \<Rightarrow> 'i wait) \<Rightarrow> 'i Event order \<Rightarrow> int \<Rightarrow> string \<Rightarrow> string \<Rightarrow> string \<Rightarrow> respWriter \<Rightarrow> request \<Rightarrow>
     'i Event world \<Rightarrow> (unit outcome \<times> respWriter \<times> 'i Event world) option" where
  "exampleServe B env ord now meth path msg rw r w =
     (case muxHandler exampleRoutes meth path of
        Found HEvents \<Rightarrow> map_option (\<lambda>(res, w, s). (res, st_w s, w)) (eventsHandler B env rw r w)
      | Found HBroadcast \<Rightarrow> Some (broadcastHandler B ord now msg rw w)
      | Redirect p \<Rightarrow> Some (Ret (), writeHeader 307 (headerSet ''Location'' p rw), w)
      | NotFound \<Rightarrow> Some (case httpError ''404 page not found'' 404 rw of (res, rw) \<Rightarrow> (res, rw, w))
      | MethodNotAllowed ms \<Rightarrow> Some (case httpError ''Method Not Allowed'' 405
          (headerSet ''Allow'' (Join ms '', '') rw) of (res, rw) \<Rightarrow> (res, rw, w)))"

datatype datastar_handler = HDatastarIndex | HDatastarEvents | HDatastarStatic

definition datastarRoutes :: "datastar_handler route list" where
  "datastarRoutes =
     [\<lparr>rt_method = ''GET'', rt_path = ''/'', rt_handler = HDatastarIndex\<rparr>,
      \<lparr>rt_method = ''GET'', rt_path = ''/events'', rt_handler = HDatastarEvents\<rparr>,
      \<lparr>rt_method = ''GET'', rt_path = ''/static/'', rt_handler = HDatastarStatic\<rparr>]"

datatype htmx_handler = HHtmxIndex | HContainer | HProgress | HHtmxStatic

definition htmxRoutes :: "htmx_handler route list" where
  "htmxRoutes =
     [\<lparr>rt_method = ''GET'', rt_path = ''/'', rt_handler = HHtmxIndex\<rparr>,
      \<lparr>rt_method = ''GET'', rt_path = ''/sse-container'', rt_handler = HContainer\<rparr>,
      \<lparr>rt_method = ''GET'', rt_path = ''/events'', rt_handler = HProgress\<rparr>,
      \<lparr>rt_method = ''GET'', rt_path = ''/static/'', rt_handler = HHtmxStatic\<rparr>]"

text \<open>\<open>main\<close> of the htmx example: it gives up when the embedded files have no \<open>static\<close> directory.\<close>

definition htmxMain :: "(string \<Rightarrow> string) \<Rightarrow> goerr + 'f \<Rightarrow> goerr + string \<times> htmx_handler route list" where
  "htmxMain getenv staticSub = (case staticSub of
     Inl err \<Rightarrow> Inl err
   | Inr staticFS \<Rightarrow> Inr (htmxListenAddr getenv, htmxRoutes))"

subsection \<open>Where requests go\<close>

lemma cleanPath_rooted: "\<exists>q. cleanPath p = CHR ''/'' # q"
proof (cases "p = []")
  case False
  define p' where "p' = (if hd p \<noteq> CHR ''/'' then CHR ''/'' # p else p)"
  define elems where "elems = rev (fold cleanElem (splitSlash [] p') [])"
  define np where "np = (if elems = [] then ''/'' else concat (map (\<lambda>e. CHR ''/'' # e) elems))"
  have "cleanPath p = (if ends_slash p' \<and> np \<noteq> ''/'' then np @ ''/'' else np)"
    using False unfolding cleanPath_def p'_def elems_def np_def Let_def by (simp only: if_False)
  moreover have "\<exists>q. np = CHR ''/'' # q" by (cases elems) (simp_all add: np_def)
  ultimately show ?thesis by auto
qed (simp add: cleanPath_def)

definition getOrHead :: "string \<Rightarrow> bool" where
  "getOrHead meth \<longleftrightarrow> meth = ''GET'' \<or> meth = ''HEAD''"

lemma HasPrefix_slash [simp]: "HasPrefix p ''/'' \<longleftrightarrow> (\<exists>q. p = CHR ''/'' # q)"
  by (cases p) (auto simp: HasPrefix_iff)

lemma append_slash [simp]: "p @ ''/'' = ''/static/'' \<longleftrightarrow> p = ''/static''" "p @ ''/'' = ''/'' \<longleftrightarrow> p = []"
proof -
  have "''/static/'' = ''/static'' @ ''/''" by simp
  then show "p @ ''/'' = ''/static/'' \<longleftrightarrow> p = ''/static''" by (metis append_same_eq)
qed simp

lemma ends_slash_simps [simp]:
  "ends_slash ''/''" "ends_slash ''/static/''" "\<not> ends_slash ''/events''" "\<not> ends_slash ''/broadcast''"
  "\<not> ends_slash ''/sse-container''" "\<not> ends_slash ''/static''"
  by (simp_all add: ends_slash_def)

lemma not_static [simp]:
  "\<not> HasPrefix ''/events'' ''/static/''" "\<not> HasPrefix ''/sse-container'' ''/static/''"
  "\<not> HasPrefix ''/static'' ''/static/''" "\<not> HasPrefix ''/'' ''/static/''"
  by (simp_all add: HasPrefix_iff)

lemma matches_slash [simp]: "path_matches ''/'' (CHR ''/'' # q)"
  by (simp add: path_matches_def)

lemma matches_literal [simp]:
  "path_matches ''/events'' p \<longleftrightarrow> p = ''/events''" "path_matches ''/broadcast'' p \<longleftrightarrow> p = ''/broadcast''"
  "path_matches ''/sse-container'' p \<longleftrightarrow> p = ''/sse-container''"
  "path_matches ''/static/'' p \<longleftrightarrow> HasPrefix p ''/static/''"
  by (simp_all add: path_matches_def)

lemma method_get [simp]: "method_matches ''GET'' meth \<longleftrightarrow> getOrHead meth"
  "method_matches ''POST'' meth \<longleftrightarrow> meth = ''POST''"
  by (auto simp: method_matches_def getOrHead_def)

lemma datastar_match:
  "p = CHR ''/'' # q \<Longrightarrow> treeMatch datastarRoutes meth p =
     (if \<not> getOrHead meth then None
      else Some (if p = ''/events'' then datastarRoutes ! 1
        else if HasPrefix p ''/static/'' then datastarRoutes ! 2 else datastarRoutes ! 0))"
  by (auto simp: treeMatch_def datastarRoutes_def)

lemma htmx_match:
  "p = CHR ''/'' # q \<Longrightarrow> treeMatch htmxRoutes meth p =
     (if \<not> getOrHead meth then None
      else Some (if p = ''/sse-container'' then htmxRoutes ! 1 else if p = ''/events'' then htmxRoutes ! 2
        else if HasPrefix p ''/static/'' then htmxRoutes ! 3 else htmxRoutes ! 0))"
  by (auto simp: treeMatch_def htmxRoutes_def)

lemma example_match:
  "treeMatch exampleRoutes meth p =
     (if getOrHead meth \<and> p = ''/events'' then Some (exampleRoutes ! 0)
      else if meth = ''POST'' \<and> p = ''/broadcast'' then Some (exampleRoutes ! 1) else None)"
  by (auto simp: treeMatch_def exampleRoutes_def getOrHead_def)

lemma exactMatch_simps [simp]: "\<not> exactMatch None p" "exactMatch (Some r) p \<longleftrightarrow> rt_path r = p"
  by (simp_all add: exactMatch_def)

text \<open>Of the three tables only the subtree \<open>/static/\<close> makes the multiplexer redirect.\<close>

lemma static_redirect:
  assumes "p = CHR ''/'' # q"
  shows "matchOrRedirect datastarRoutes meth p =
      (if getOrHead meth \<and> p = ''/static'' then (None, Some ''/static/'') else (treeMatch datastarRoutes meth p, None))"
    and "matchOrRedirect htmxRoutes meth p =
      (if getOrHead meth \<and> p = ''/static'' then (None, Some ''/static/'') else (treeMatch htmxRoutes meth p, None))"
proof -
  have p: "p @ ''/'' = CHR ''/'' # (q @ ''/'')" "p @ ''/'' \<noteq> ''/events''" "p @ ''/'' \<noteq> ''/sse-container''" "p \<noteq> []"
    using assms ends_slash_simps(3,5) by (auto simp: ends_slash_def)
  show "matchOrRedirect datastarRoutes meth p =
      (if getOrHead meth \<and> p = ''/static'' then (None, Some ''/static/'') else (treeMatch datastarRoutes meth p, None))"
    unfolding matchOrRedirect_def datastar_match [OF assms] datastar_match [OF p(1)] Let_def using p
    by (simp add: datastarRoutes_def)
  show "matchOrRedirect htmxRoutes meth p =
      (if getOrHead meth \<and> p = ''/static'' then (None, Some ''/static/'') else (treeMatch htmxRoutes meth p, None))"
    unfolding matchOrRedirect_def htmx_match [OF assms] htmx_match [OF p(1)] Let_def using p
    by (simp add: htmxRoutes_def)
qed

lemma example_no_redirect: "matchOrRedirect exampleRoutes meth p = (treeMatch exampleRoutes meth p, None)"
proof -
  have "p @ ''/'' \<noteq> ''/events''" "p @ ''/'' \<noteq> ''/broadcast''"
    using ends_slash_simps(3,4) by (metis ends_slash_def last_snoc snoc_eq_iff_butlast)+
  then show ?thesis by (simp add: matchOrRedirect_def example_match Let_def)
qed

lemma allowed_get:
  assumes "p = CHR ''/'' # q"
  shows "allowedMethods datastarRoutes p = [''GET'', ''HEAD'']" "allowedMethods htmxRoutes p = [''GET'', ''HEAD'']"
  unfolding assms by (simp_all add: allowedMethods_def datastarRoutes_def htmxRoutes_def)

lemma allowed_example:
  "allowedMethods exampleRoutes p =
     (if p = ''/events'' then [''GET'', ''HEAD''] else if p = ''/broadcast'' then [''POST''] else [])"
proof -
  have "p @ ''/'' \<noteq> ''/events''" "p @ ''/'' \<noteq> ''/broadcast''"
    using ends_slash_simps(3,4) by (metis ends_slash_def last_snoc snoc_eq_iff_butlast)+
  then show ?thesis by (auto simp: allowedMethods_def exampleRoutes_def)
qed

lemma muxHandler_clean:
  assumes "meth \<noteq> ''CONNECT''" "cleanPath path = p"
  shows "muxHandler rs meth path = (case matchOrRedirect rs meth p of
      (_, Some p') \<Rightarrow> Redirect p'
    | (n, None) \<Rightarrow> if p \<noteq> path then Redirect p
        else (case n of Some r \<Rightarrow> Found (rt_handler r)
          | None \<Rightarrow> (case allowedMethods rs p of [] \<Rightarrow> NotFound | ms \<Rightarrow> MethodNotAllowed ms)))"
  using assms by (simp add: muxHandler_def Let_def)

text \<open>
  C27. Where the requests of the three programs go, for every method but \<open>CONNECT\<close> and every path,
  up to the clean-up of the path that redirects the client first. The example server answers
  its two routes, tells the allowed methods on a wrong one, and knows nothing else. The pages of the
  other two are at every path that is not the event stream, the container or below
  \<open>/static/\<close>; they answer \<open>GET\<close> and \<open>HEAD\<close> only.
\<close>

theorem routes_dispatch:
  assumes "meth \<noteq> ''CONNECT''" "cleanPath path = p"
  shows "muxHandler exampleRoutes meth path =
      (if p \<noteq> path then Redirect p
       else if p = ''/events'' then (if getOrHead meth then Found HEvents else MethodNotAllowed [''GET'', ''HEAD''])
       else if p = ''/broadcast'' then (if meth = ''POST'' then Found HBroadcast else MethodNotAllowed [''POST''])
       else NotFound) \<and>
    muxHandler datastarRoutes meth path =
      (if getOrHead meth \<and> p = ''/static'' then Redirect ''/static/''
       else if p \<noteq> path then Redirect p
       else if \<not> getOrHead meth then MethodNotAllowed [''GET'', ''HEAD'']
       else if p = ''/events'' then Found HDatastarEvents
       else if HasPrefix p ''/static/'' then Found HDatastarStatic else Found HDatastarIndex) \<and>
    muxHandler htmxRoutes meth path =
      (if getOrHead meth \<and> p = ''/static'' then Redirect ''/static/''
       else if p \<noteq> path then Redirect p
       else if \<not> getOrHead meth then MethodNotAllowed [''GET'', ''HEAD'']
       else if p = ''/sse-container'' then Found HContainer
       else if p = ''/events'' then Found HProgress
       else if HasPrefix p ''/static/'' then Found HHtmxStatic else Found HHtmxIndex)"
proof -
  obtain q where q: "p = CHR ''/'' # q" using cleanPath_rooted [of path] assms(2) by auto
  have ex: "muxHandler exampleRoutes meth path =
      (if p \<noteq> path then Redirect p
       else if p = ''/events'' then (if getOrHead meth then Found HEvents else MethodNotAllowed [''GET'', ''HEAD''])
       else if p = ''/broadcast'' then (if meth = ''POST'' then Found HBroadcast else MethodNotAllowed [''POST''])
       else NotFound)"
    unfolding muxHandler_clean [OF assms] example_no_redirect example_match allowed_example
    by (simp add: exampleRoutes_def getOrHead_def)
  have ds: "muxHandler datastarRoutes meth path =
      (if getOrHead meth \<and> p = ''/static'' then Redirect ''/static/''
       else if p \<noteq> path then Redirect p
       else if \<not> getOrHead meth then MethodNotAllowed [''GET'', ''HEAD'']
       else if p = ''/events'' then Found HDatastarEvents
       else if HasPrefix p ''/static/'' then Found HDatastarStatic else Found HDatastarIndex)"
    unfolding muxHandler_clean [OF assms] static_redirect(1) [OF q] datastar_match [OF q] allowed_get(1) [OF q]
    by (simp add: datastarRoutes_def)
  have hx: "muxHandler htmxRoutes meth path =
      (if getOrHead meth \<and> p = ''/static'' then Redirect ''/static/''
       else if p \<noteq> path then Redirect p
       else if \<not> getOrHead meth then MethodNotAllowed [''GET'', ''HEAD'']
       else if p = ''/sse-container'' then Found HContainer
       else if p = ''/events'' then Found HProgress
       else if HasPrefix p ''/static/'' then Found HHtmxStatic else Found HHtmxIndex)"
    unfolding muxHandler_clean [OF assms] static_redirect(2) [OF q] htmx_match [OF q] allowed_get(2) [OF q]
    by (simp add: htmxRoutes_def)
  from ex ds hx show ?thesis by (intro conjI)
qed

theorem routes_dispatch_witness:
  "muxHandler exampleRoutes ''GET'' ''/broadcast'' = MethodNotAllowed [''POST''] \<and>
   muxHandler datastarRoutes ''HEAD'' ''/a//../events'' = Redirect ''/events''"
proof -
  have "cleanPath ''/broadcast'' = ''/broadcast''" "cleanPath ''/a//../events'' = ''/events''" by code_simp+
  then show ?thesis
    using routes_dispatch [of "''GET''" "''/broadcast''" "''/broadcast''"]
      routes_dispatch [of "''HEAD''" "''/a//../events''" "''/events''"]
    by (simp add: getOrHead_def)
qed

subsection \<open>The shutdown of the DataStar server\<close>

definition shutdownTimeout :: int where "shutdownTimeout = 5 * 1000000000"
definition readHeaderLimit :: int where "readHeaderLimit = 5 * 1000000000"
definition idleTimeout :: int where "idleTimeout = 5 * 60 * 1000000000"

record 'h httpServer =
  srv_Addr :: string
  srv_Handler :: "'h route list"
  srv_ReadHeaderTimeout :: int
  srv_IdleTimeout :: int

definition datastarServer :: "(string \<Rightarrow> string) \<Rightarrow> datastar_handler httpServer" where
  "datastarServer getenv =
     \<lparr>srv_Addr = datastarListenAddr getenv, srv_Handler = datastarRoutes,
      srv_ReadHeaderTimeout = readHeaderLimit, srv_IdleTimeout = idleTimeout\<rparr>"

text \<open>
  \<open>http.Server.Shutdown\<close>: it closes the listeners and polls until every connection is idle, or
  the context is done. It does not cancel the contexts of the requests being served. Time is
  counted in polls; the result has the poll in which it returned.
\<close>

partial_function (option) httpShutdown ::
    "goerr option \<Rightarrow> (nat \<Rightarrow> nat) \<Rightarrow> (nat \<Rightarrow> goerr option) \<Rightarrow> nat \<Rightarrow> (goerr option \<times> nat) option" where
  "httpShutdown lnErr active ctx k =
     (if active k = 0 then Some (lnErr, k)
      else (case ctx k of Some e \<Rightarrow> Some (Some e, k) | None \<Rightarrow> httpShutdown lnErr active ctx (k + 1)))"

text \<open>
  The connections being served when the signal arrives: what the handler of each returns, if it
  does, and the poll by which it has returned.
\<close>

definition activeConns :: "('r option \<times> nat) list \<Rightarrow> nat \<Rightarrow> nat" where
  "activeConns conns k = length (filter (\<lambda>(res, t). res = None \<or> k < t) conns)"

text \<open>
  The end of \<open>main\<close>: first the HTTP server, then the broadcaster, with one context for both.
  \<open>worldAt k\<close> is the broadcaster with its channels at poll \<open>k\<close>, and \<open>ops\<close> what other goroutines do
  to it during its shutdown.
\<close>

definition gracefulShutdown ::
    "goerr option \<Rightarrow> ('r option \<times> nat) list \<Rightarrow> (nat \<Rightarrow> goerr option) \<Rightarrow> (nat \<Rightarrow> 'a world) \<Rightarrow>
     (nat \<Rightarrow> 'a hub_op list) \<Rightarrow> 'a order \<Rightarrow> (goerr option \<times> goerr option outcome \<times> 'a world) option" where
  "gracefulShutdown lnErr conns shutdownCtx worldAt ops ord =
     Option.bind (httpShutdown lnErr (activeConns conns) shutdownCtx 0)
       (\<lambda>(httpErr, k). Option.bind (Broadcaster_Shutdown ord (\<lambda>j. (ops j, shutdownCtx (k + j))) (worldAt k))
          (\<lambda>(res, w). Some (httpErr, res, w)))"

definition ErrServerClosed :: goerr where
  "ErrServerClosed = NewError ''http: Server closed''"

text \<open>
  \<open>main\<close> waits for a signal or for \<open>ListenAndServe\<close> to fail (the goroutine calls \<open>stop\<close> then).
  \<open>run\<close> is what producer and handlers do to the server until then and while it shuts down.
\<close>

datatype 'w exit = Fatal goerr | Exits "goerr option" "goerr option outcome" 'w

definition datastarMain ::
    "goerr + 'f \<Rightarrow> bool \<Rightarrow> goerr option \<Rightarrow> ('i activity \<Rightarrow> nat \<Rightarrow> 'i Event world) \<Rightarrow>
     goerr option \<Rightarrow> ('r option \<times> nat) list \<Rightarrow> (nat \<Rightarrow> goerr option) \<Rightarrow> (nat \<Rightarrow> 'i Event hub_op list) \<Rightarrow>
     'i Event order \<Rightarrow> 'i Event world exit option" where
  "datastarMain staticSub signal listen run lnErr conns shutdownCtx ops ord =
     (case staticSub of
        Inl err \<Rightarrow> Some (Fatal err)
      | Inr staticFS \<Rightarrow>
          if signal \<or> (case listen of None \<Rightarrow> False | Some err \<Rightarrow> \<not> errorsIs err ErrServerClosed) then
            map_option (\<lambda>(httpErr, res, w). Exits httpErr res w)
              (gracefulShutdown lnErr conns shutdownCtx (run newActivityServer) ops ord)
          else None)"

lemma httpShutdown_waits:
  assumes "\<forall>k \<le> n. active k \<noteq> 0" "\<forall>k < n. ctx k = None" "ctx n = Some e" "k \<le> n"
  shows "httpShutdown lnErr active ctx k = Some (Some e, n)"
  using assms(4)
proof (induction "n - k" arbitrary: k)
  case 0
  then show ?case using assms(1,3) by (subst httpShutdown.simps) auto
next
  case (Suc j)
  then have "k < n" by linarith
  then show ?case using assms(1,2) Suc by (subst httpShutdown.simps) auto
qed

lemma httpShutdown_idle:
  assumes "active n = 0" "\<forall>k < n. active k \<noteq> 0 \<and> ctx k = None" "k \<le> n"
  shows "httpShutdown lnErr active ctx k = Some (lnErr, n)"
  using assms(3)
proof (induction "n - k" arbitrary: k)
  case 0
  then show ?case using assms(1) by (subst httpShutdown.simps) auto
next
  case (Suc j)
  then have "k < n" by linarith
  then show ?case using assms(2) Suc by (subst httpShutdown.simps) auto
qed

subsection \<open>A client that stays connected\<close>

text \<open>A handler that has subscribed, on a connection that takes every write, whose client stays.\<close>

definition stays ::
    "'i brandid \<Rightarrow> (nat \<Rightarrow> 'i wait) \<Rightarrow> nat \<Rightarrow> 'i Event pred_fn option \<Rightarrow> nat \<Rightarrow> 'i Event world \<Rightarrow> Stream \<Rightarrow> bool" where
  "stays B env ch pred cap w s \<longleftrightarrow>
     brandid_ok B \<and> (\<forall>k. list_all (peer_op ch) (w_ops (env k)) \<and> \<not> w_done (env k)) \<and>
     (\<exists>q. listening ch pred cap q w) \<and> accepting s"

lemma listening_receives:
  assumes "listening ch pred cap q w" "recvAt ch w = Some (v, w')"
  shows "\<exists>e q'. v = Some e \<and> listening ch pred cap q' w'"
proof (cases q)
  case Nil
  then show ?thesis using assms listeningD(1) [OF assms(1)] by (simp add: recvAt_def recvChan_def listening_def)
next
  case (Cons e q')
  have w': "w' = w\<lparr>heap := (heap w)(ch := (heap w ch)\<lparr>ch_buf := q'\<rparr>)\<rparr>" "v = Some e"
    using assms Cons by (auto simp: recvAt_def recvChan_def listening_def)
  have "world_ok w'" using assms run_op_ok [of w "OpRecv ch"] by (simp add: listening_def)
  then show ?thesis using assms(1) w' by (auto simp: listening_def subs_of_def)
qed

lemma forwardLoop_stays:
  assumes "forwardLoop B env k ch w s = Some y"
  shows "\<not> stays B env ch pred cap w s"
proof (rule forwardLoop.raw_induct [where P = "\<lambda>B env k ch w s y. \<not> stays B env ch pred cap w s", OF _ assms])
  fix loop :: "'a brandid \<Rightarrow> (nat \<Rightarrow> 'a wait) \<Rightarrow> nat \<Rightarrow> nat \<Rightarrow> 'a Event world \<Rightarrow> Stream \<Rightarrow>
       (unit outcome \<times> 'a Event world \<times> Stream) option"
    and B env k ch w s y
  assume IH: "\<And>B env k ch w s y. loop B env k ch w s = Some y \<Longrightarrow> \<not> stays B env ch pred cap w s"
    and eq: "(let w = run_ops (w_ops (env k)) w;
          s = ((\<lambda>s. snd (heartbeatTick s)) ^^ w_ticks (env k)) s
      in if w_done (env k) then Some (Ret (), w, s)
         else (case recvAt ch w of
            None \<Rightarrow> loop B env (k + 1) ch w s
          | Some (None, w) \<Rightarrow> Some (Ret (), w, s)
          | Some (Some evt, w) \<Rightarrow>
              (case Send B s evt of
                 (Panic m, s) \<Rightarrow> Some (Panic m, w, s)
               | (Ret (Some err), s) \<Rightarrow> Some (Ret (), w, s)
               | (Ret None, s) \<Rightarrow> loop B env (k + 1) ch w s))) = Some y"
  show "\<not> stays B env ch pred cap w s"
  proof
    assume st: "stays B env ch pred cap w s"
    define w1 where "w1 = run_ops (w_ops (env k)) w"
    define s1 where "s1 = ((\<lambda>s. snd (heartbeatTick s)) ^^ w_ticks (env k)) s"
    have B: "brandid_ok B" and env: "\<forall>k. list_all (peer_op ch) (w_ops (env k)) \<and> \<not> w_done (env k)"
      and acc: "accepting s1"
      using st ticks_wire [of s "w_ticks (env k)" B] by (auto simp: stays_def s1_def)
    obtain q where q: "listening ch pred cap q w1"
      using st env listening_run_ops [of ch pred cap _ w "w_ops (env k)"] by (auto simp: stays_def w1_def)
    have again: "stays B env ch pred cap w2 s2" if "listening ch pred cap q2 w2" "accepting s2" for w2 s2 q2
      using that B env by (auto simp: stays_def)
    show False
    proof (cases "recvAt ch w1")
      case None
      then have "loop B env (k + 1) ch w1 s1 = Some y" using eq env by (simp add: w1_def s1_def Let_def)
      then show False using IH again [OF q acc] by blast
    next
      case (Some vw)
      obtain e q2 w2 where e: "vw = (Some e, w2)" "listening ch pred cap q2 w2"
        using listening_receives [OF q] Some by (metis prod.collapse)
      obtain s2 where send: "Send B s1 e = (Ret None, s2)"
        using Send_accepting [OF B acc, of e] by (cases "Send B s1 e") auto
      have "accepting s2" using wire_of_Send [OF B acc, of e] send by simp
      moreover have "loop B env (k + 1) ch w2 s2 = Some y"
        using eq env Some e send by (simp add: w1_def s1_def Let_def)
      ultimately show False using IH again [OF e(2)] by blast
    qed
  qed
qed

text \<open>The conditions of a served DataStar client (\<^const>\<open>activity_served\<close>) that never goes away.\<close>

definition activity_stays ::
    "'i brandid \<Rightarrow> (nat \<Rightarrow> 'i Event order) \<Rightarrow> 'i Event hub_op list \<Rightarrow> (nat \<Rightarrow> 'i wait) \<Rightarrow>
     respWriter \<Rightarrow> request \<Rightarrow> 'i activity \<Rightarrow> bool" where
  "activity_stays B ords gap env rw r a \<longleftrightarrow>
     brandid_ok B \<and> (\<forall>i. order_ok (ords i)) \<and> accepting (NewStream rw r) \<and>
     world_ok (act_world a) \<and> callbacks_set (act_world a) \<and> list_all plain_op gap \<and>
     open_hub (run_ops gap (act_world a)) \<and>
     (\<forall>k. list_all (peer_op (nxt (run_ops gap (act_world a)))) (w_ops (env k)) \<and> \<not> w_done (env k))"

lemma activityHandler_stays:
  assumes "activity_stays B ords gap env rw r a"
  shows "activityHandler B ords gap env filterParam rw r a = None"
proof -
  let ?w1 = "run_ops gap (act_world a)"
  let ?rw = "headerSet ''Access-Control-Allow-Origin'' ''*'' rw"
  have B: "brandid_ok B" and ords: "\<forall>i. order_ok (ords i)" and acc: "accepting (NewStream ?rw r)"
    and w: "world_ok ?w1" "open_hub ?w1" "callbacks_set ?w1"
    and env: "\<forall>k. list_all (peer_op (nxt ?w1)) (w_ops (env k)) \<and> \<not> w_done (env k)"
    using assms callbacks_set_run_ops [of "act_world a" gap]
    by (auto simp: activity_stays_def list_all_iff accepting_def NewStream_def SetHeaders_def headerSet_def
        writeHeader_def Let_def)
  obtain s1 where s1: "replayMissedEvents B (NewStream ?rw r) (act_store a) = (Ret True, s1)" "accepting s1"
    using replayMissedEvents_spec [OF B acc, of "act_store a"] by auto
  obtain w2 q where w2: "subscribeForRequest B ords filterParam ?w1 = (Ret (nxt ?w1), w2)"
      "listening (nxt ?w1) (view_pred B filterParam) (nat (effectiveBufferSize (hub ?w1))) q w2"
    using subscribeForRequest_spec [OF B w ords] by blast
  have "stays B env (nxt ?w1) (view_pred B filterParam) (nat (effectiveBufferSize (hub ?w1))) w2 s1"
    using B env w2(2) s1(2) by (auto simp: stays_def)
  then have "forwardLoop B env 0 (nxt ?w1) w2 s1 = None"
    using forwardLoop_stays by (cases "forwardLoop B env 0 (nxt ?w1) w2 s1") blast+
  then show ?thesis using s1(1) w2(1) by (simp add: activityHandler_def Let_def)
qed

text \<open>A shutdown of the broadcaster with a context that is already done looks at the buffers once.\<close>

lemma Shutdown_expired:
  assumes "world_ok w" "order_ok ord" "subscribers (hub w) = Some m" "snd (env 0) = Some e"
  shows "\<exists>res w'. Shutdown ord env w = Some (res, w') \<and>
    (if \<forall>(k, s) \<in> set m. ch_buf (heap w k) = []
     then res = Ret None \<and> subscribers (hub w') = None
     else (\<exists>err. res = Ret (Some err) \<and> errorsIs err e) \<and> w' = run_ops (fst (env 0)) (start_drain w))"
proof -
  let ?subs = "map snd (ord m)"
  note st = start_drain_inv [OF assms(1,3,2)]
  have subs: "subs_of w = m" using assms(3) by (simp add: subs_of_def)
  have "sub_ch s = k" if "(k, s) \<in> set m" for k s
    using world_okD(2) [OF assms(1), unfolded subs, OF that] by simp
  then have empty: "notDrained ?subs (start_drain w) = 0 \<longleftrightarrow> (\<forall>(k, s) \<in> set m. ch_buf (heap w k) = [])"
    unfolding st(3) notDrained_zero by (force simp: start_drain_def)
  show ?thesis
  proof (cases "notDrained ?subs (start_drain w) = 0")
    case True
    have "waitForDrain env 0 ?subs (start_drain w) = Some (None, start_drain w)"
      using True by (subst waitForDrain.simps) simp
    moreover obtain w' where "shutdownFinish ?subs (start_drain w) = (Ret (), w')" "subscribers (hub w') = None"
      using shutdownFinish_spec [OF st(2) True] by auto
    ultimately show ?thesis using st(1) True empty by (simp add: Shutdown_def)
  next
    case False
    obtain ops where ops: "env 0 = (ops, Some e)" using assms(4) by (cases "env 0") auto
    then have "waitForDrain env 0 ?subs (start_drain w) =
        Some (Some (drainError e (notDrained ?subs (start_drain w)) (length ?subs)), run_ops ops (start_drain w))"
      using False by (subst waitForDrain.simps) simp
    then show ?thesis
      using st(1) False empty ops by (auto simp: Shutdown_def go_errors)
  qed
qed

text \<open>
  C26. The DataStar server does not shut down gracefully while a client is connected. The handler
  of a client that stays never returns: only the end of the client's request or of its channel
  ends it, \<open>http.Server.Shutdown\<close> brings about neither, and the broadcaster, whose shutdown
  closes the channel, is shut down only afterwards. So \<open>httpServer.Shutdown\<close> always runs
  into the deadline and fails with its error, and the broadcaster is given an expired context:
  it closes the hub only if every buffer happens to be empty at that moment, and otherwise
  fails at once and leaves it open.
\<close>

theorem datastar_shutdown_runs_into_deadline:
  assumes "activity_stays B ords gap env rw r a"
    and "(activityHandler B ords gap env filterParam rw r a, t) \<in> set conns"
    and "\<forall>k < n. ctx k = None" "ctx n = Some e"
    and "world_ok (run newActivityServer n)" "subscribers (hub (run newActivityServer n)) = Some m" "order_ok ord"
  shows "\<exists>res w'. datastarMain (Inr staticFS) True listen run lnErr conns ctx ops ord =
      Some (Exits (Some e) res w') \<and>
    (if \<forall>(k, s) \<in> set m. ch_buf (heap (run newActivityServer n) k) = []
     then res = Ret None \<and> Closed (Broadcaster_Health (hub w'))
     else (\<exists>err. res = Ret (Some err) \<and> errorsIs err e) \<and>
       w' = run_ops (ops 0) (start_drain (run newActivityServer n)))"
proof -
  have "(None, t) \<in> set conns" using assms(2) activityHandler_stays [OF assms(1)] by simp
  then have "activeConns conns k \<noteq> 0" for k by (force simp: activeConns_def filter_empty_conv)
  then have http: "httpShutdown lnErr (activeConns conns) ctx 0 = Some (Some e, n)"
    using assms(3,4) by (intro httpShutdown_waits) auto
  obtain res w' where res: "Shutdown ord (\<lambda>j. (ops j, ctx (n + j))) (run newActivityServer n) = Some (res, w')"
      "if \<forall>(k, s) \<in> set m. ch_buf (heap (run newActivityServer n) k) = []
       then res = Ret None \<and> subscribers (hub w') = None
       else (\<exists>err. res = Ret (Some err) \<and> errorsIs err e) \<and>
         w' = run_ops (ops 0) (start_drain (run newActivityServer n))"
    using Shutdown_expired [OF assms(5,7,6), of "\<lambda>j. (ops j, ctx (n + j))" e] assms(4) by auto
  have "datastarMain (Inr staticFS) True listen run lnErr conns ctx ops ord = Some (Exits (Some e) res w')"
    using http res(1) by (simp add: datastarMain_def gracefulShutdown_def Broadcaster_Shutdown_def)
  moreover have "Closed (Broadcaster_Health (hub w')) = (subscribers (hub w') = None)"
    by (simp add: Broadcaster_Health_def Health_def)
  ultimately show ?thesis using res(2) by (intro exI [of _ res] exI [of _ w']) simp
qed

text \<open>A client that stays, a deadline at the third poll, and an unread message at that time.\<close>

definition patient_waits :: "nat \<Rightarrow> string wait" where
  "patient_waits k = \<lparr>w_ops = [], w_ticks = 1, w_done = False\<rparr>"

definition sample_client :: "(unit outcome \<times> string Event world \<times> Stream) option \<times> nat" where
  "sample_client = (activityHandler string_id (\<lambda>_. rev) [] patient_waits [] (sample_response []) sample_rejoin
     sample_activity, 0)"

definition sample_deadline :: "nat \<Rightarrow> goerr option" where
  "sample_deadline k = (if k < 2 then None else Some ContextCanceled)"

definition sample_run :: "string activity \<Rightarrow> nat \<Rightarrow> string Event world" where
  "sample_run a k = after_broadcast sample_event (after_subscribe None (act_world a))"

lemma sample_client_stays:
  "activity_stays string_id (\<lambda>_. rev) [] patient_waits (sample_response []) sample_rejoin sample_activity"
proof -
  have "world_ok (act_world sample_activity)"
    by (simp add: sample_activity_defs world_ok_def subs_of_def)
  moreover have "open_hub (act_world sample_activity)" "callbacks_set (act_world sample_activity)"
    by (simp_all add: sample_activity_defs open_hub_def callbacks_set_def)
  moreover have "accepting (NewStream (sample_response []) sample_rejoin)"
    by (simp add: accepting_def stream_sample_defs)
  ultimately show ?thesis
    by (simp add: activity_stays_def patient_waits_def order_ok_samples run_ops_def)
qed

theorem datastar_shutdown_runs_into_deadline_witness:
  "\<exists>err w'. datastarMain (Inr ()) True None sample_run None [sample_client] sample_deadline (\<lambda>_. []) rev =
     Some (Exits (Some ContextCanceled) (Ret (Some err)) w') \<and> errorsIs err ContextCanceled"
proof -
  let ?a = "newActivityServer :: string activity" and ?sub = "\<lparr>sub_ch = 0, sub_pred = None\<rparr> :: string Event subscriber"
  have "world_ok (act_world ?a)"
    by (simp add: newActivityServer_def OnSubscribe_def OnUnsubscribe_def initWorld_def NewBroadcaster_def
        newFanOut_def world_ok_def subs_of_def)
  then have ok: "world_ok (sample_run newActivityServer 2)"
    by (simp add: sample_run_def after_broadcast_ok after_subscribe_ok)
  have n: "nxt (act_world ?a) = 0" "subs_of (act_world ?a) = []"
    by (simp_all add: newActivityServer_def OnSubscribe_def OnUnsubscribe_def initWorld_def NewBroadcaster_def
        newFanOut_def subs_of_def)
  then have subs: "subscribers (hub (sample_run newActivityServer 2)) = Some [(0, ?sub)]"
    by (simp add: sample_run_def after_subscribe_def)
  have "subs_of (after_subscribe None (act_world ?a)) = [(0, ?sub)]"
    using n by (simp add: after_subscribe_def subs_of_def)
  moreover have "0 < nat (effectiveBufferSize (hub (act_world ?a)))"
    by (simp add: effectiveBufferSize_def DefaultSubscriberBuffer_def)
  ultimately have "ch_buf (heap (sample_run newActivityServer 2) 0) \<noteq> []"
    using n by (simp add: sample_run_def after_broadcast_def deliver_def accepts_def offer_def trySend_def
        after_subscribe_def makeChan_def)
  moreover have "(activityHandler string_id (\<lambda>_. rev) [] patient_waits [] (sample_response []) sample_rejoin
      sample_activity, 0) \<in> set [sample_client]" by (simp add: sample_client_def)
  ultimately show ?thesis
    using datastar_shutdown_runs_into_deadline [OF sample_client_stays, of "[]" 0 "[sample_client]" 2 sample_deadline
        ContextCanceled sample_run, OF _ _ _ ok subs order_ok_samples(1), of "()" None None "\<lambda>_. []"]
    by (auto simp: sample_deadline_def)
qed

subsection \<open>When all clients have left\<close>

text \<open>The good case: the handlers return in time, and both shutdowns succeed.\<close>

lemma datastar_shutdown_after_clients:
  assumes "\<forall>(res, t) \<in> set conns. res \<noteq> None \<and> t \<le> n" "\<forall>k \<le> n. ctx k = None"
    and "\<And>k. world_ok (run newActivityServer k)" "\<And>k. subscribers (hub (run newActivityServer k)) = Some []"
    and "order_ok ord"
  shows "\<exists>w'. datastarMain (Inr staticFS) True listen run None conns ctx ops ord =
    Some (Exits None (Ret None) w') \<and> Closed (Broadcaster_Health (hub w'))"
proof -
  have "activeConns conns n = 0" using assms(1) by (force simp: activeConns_def filter_empty_conv)
  then obtain k where k: "activeConns conns k = 0" "\<forall>j < k. activeConns conns j \<noteq> 0" "k \<le> n"
    using ex_least_nat_le [of "\<lambda>k. activeConns conns k = 0" n] by blast
  then have http: "httpShutdown None (activeConns conns) ctx 0 = Some (None, k)"
    using assms(2) by (intro httpShutdown_idle) auto
  let ?w = "run newActivityServer k"
  have none: "map snd (ord []) = []" using order_okD(1) [OF assms(5), of "[]"] by simp
  have zero: "notDrained [] v = 0" for v :: "'d Event world" by (simp add: notDrained_zero)
  note st = start_drain_inv [OF assms(3) [of k] assms(4) [of k] assms(5), unfolded none]
  obtain w' where w': "shutdownFinish [] (start_drain ?w) = (Ret (), w')" "subscribers (hub w') = None"
    using shutdownFinish_spec [OF st(2) zero] by auto
  have "waitForDrain (\<lambda>j. (ops j, ctx (k + j))) 0 [] (start_drain ?w) = Some (None, start_drain ?w)"
    by (subst waitForDrain.simps) (simp add: zero)
  then have "Shutdown ord (\<lambda>j. (ops j, ctx (k + j))) ?w = Some (Ret None, w')"
    using st(1) w'(1) by (simp add: Shutdown_def)
  then show ?thesis
    using http w'(2) by (simp add: datastarMain_def gracefulShutdown_def Broadcaster_Shutdown_def
        Broadcaster_Health_def Health_def)
qed

subsection \<open>A request to the example server\<close>

text \<open>
  A posted message reaches every subscriber, through the multiplexer and the handler, and is
  acknowledged; without a message nothing is broadcast and the client is told.
\<close>

lemma exampleServe_broadcast:
  assumes "world_ok w" "order_ok ord"
  shows "exampleServe B env ord now ''POST'' ''/broadcast'' msg rw r w =
    Some (if msg = [] then (case httpError ''missing msg query parameter'' 400 rw of (res, rw) \<Rightarrow> (res, rw, w))
      else (Ret (), writeHeader 202 rw, after_broadcast
        \<lparr>ev_Event = ''message'', ev_Data = msg, ev_ID = NewEventID B (FormatInt now), ev_Retry = 0\<rparr> w))"
proof -
  have "cleanPath ''/broadcast'' = ''/broadcast''" by code_simp
  then have "muxHandler exampleRoutes ''POST'' ''/broadcast'' = Found HBroadcast"
    using muxHandler_clean [of "''POST''" "''/broadcast''" "''/broadcast''" exampleRoutes]
    by (simp add: example_no_redirect example_match getOrHead_def) (simp add: exampleRoutes_def)
  then show ?thesis
    using sendAllLocked_spec [OF assms] by (simp add: exampleServe_def broadcastHandler_def Broadcast_def)
qed

end
