(* ===== verification/Templates.thy ===== *)
theory Templates
  imports Progress Activity
begin

text \<open>
  The pages and fragments of the examples: the Go code templ generates from \<open>index.templ\<close>. The
  runtime of templ is a parameter; the texts are those of the generated code, byte by byte.
\<close>

subsection \<open>The runtime of templ\<close>

text \<open>
  A buffer over a writer, and the functions the generated code calls: escaping, the check of a
  style attribute, the text of an expression, and an error with the place in the template.
\<close>

record 'b templ =
  GetBuffer :: "writer \<Rightarrow> 'b"
  WriteString :: "'b \<Rightarrow> nat \<Rightarrow> string \<Rightarrow> goerr option \<times> 'b"
  bufWriteString :: "'b \<Rightarrow> string \<Rightarrow> goerr option \<times> 'b"
  ReleaseBuffer :: "'b \<Rightarrow> goerr option \<times> writer"
  EscapeString :: "string \<Rightarrow> string"
  SanitizeStyleAttributeValues :: "string \<Rightarrow> goerr + string"
  JoinStringErrs :: "int \<Rightarrow> goerr + string"
  templError :: "goerr \<Rightarrow> nat \<Rightarrow> nat \<Rightarrow> goerr"

text \<open>
  What its documentation promises, over a writer that takes every write: the bytes written to the
  buffer are on the writer once it is released, in order; an integer is printed in decimal;
  escaping leaves text without markup characters alone and adds no line end, and a
  style declaration of one line is accepted and stays one line.
\<close>

definition templ_ok :: "'b templ \<Rightarrow> ('b \<Rightarrow> string) \<Rightarrow> ('b \<Rightarrow> writer) \<Rightarrow> bool" where
  "templ_ok T buffered below \<longleftrightarrow>
     (\<forall>w. outcomes w = [] \<longrightarrow> buffered (GetBuffer T w) = [] \<and> below (GetBuffer T w) = w) \<and>
     (\<forall>b i s. outcomes (below b) = [] \<longrightarrow> (\<exists>b'. WriteString T b i s = (None, b') \<and>
        buffered b' = buffered b @ s \<and> below b' = below b)) \<and>
     (\<forall>b s. outcomes (below b) = [] \<longrightarrow> (\<exists>b'. bufWriteString T b s = (None, b') \<and>
        buffered b' = buffered b @ s \<and> below b' = below b)) \<and>
     (\<forall>b. outcomes (below b) = [] \<longrightarrow>
        ReleaseBuffer T b = (None, (below b)\<lparr>wire := wire (below b) @ buffered b\<rparr>)) \<and>
     (\<forall>n. JoinStringErrs T n = Inr (FormatInt n)) \<and>
     (\<forall>s. (\<forall>c \<in> set s. c \<notin> set ''&<>\"'' \<and> c \<noteq> CHR 0x27) \<longrightarrow> EscapeString T s = s) \<and>
     (\<forall>s. no_eol s \<longrightarrow> no_eol (EscapeString T s)) \<and>
     (\<forall>s. no_eol s \<longrightarrow> (\<exists>v. SanitizeStyleAttributeValues T s = Inr v \<and> no_eol v))"

text \<open>One statement after another, each followed by \<open>if err != nil { return err }\<close>.\<close>

definition andThen :: "('b \<Rightarrow> goerr option \<times> 'b) \<Rightarrow> ('b \<Rightarrow> goerr option \<times> 'b) \<Rightarrow> 'b \<Rightarrow> goerr option \<times> 'b" where
  "andThen f g b = (case f b of (Some e, b) \<Rightarrow> (Some e, b) | (None, b) \<Rightarrow> g b)"

text \<open>
  A generated component: rendered into the buffer of an enclosing component, and on a writer of its
  own, where the buffer is released at the end even after an error. The context is looked at
  first; its children play no role in these templates.
\<close>

definition renderNested :: "goerr option \<Rightarrow> ('b \<Rightarrow> goerr option \<times> 'b) \<Rightarrow> 'b \<Rightarrow> goerr option \<times> 'b" where
  "renderNested ctxErr body b = (case ctxErr of Some e \<Rightarrow> (Some e, b) | None \<Rightarrow> body b)"

definition renderComponent ::
    "'b templ \<Rightarrow> goerr option \<Rightarrow> ('b \<Rightarrow> goerr option \<times> 'b) \<Rightarrow> writer \<Rightarrow> goerr option \<times> writer" where
  "renderComponent T ctxErr body w = (case ctxErr of
     Some e \<Rightarrow> (Some e, w)
   | None \<Rightarrow>
       (case body (GetBuffer T w) of (err, b) \<Rightarrow>
          (case ReleaseBuffer T b of (bufErr, w) \<Rightarrow> (if err = None then bufErr else err, w))))"

subsection \<open>example/htmx/index_templ.go\<close>

definition htmlPageHead :: string where
  "htmlPageHead =
     ''<!doctype html><html lang=\"en\"><head><meta charset=\"utf-8\"><meta name=\"view'' @
     ''port\" content=\"width=device-width, initial-scale=1\"><title>go-sse '' @ [CHR 0xC3, CHR 0x97] @
     '' HTMX</title><link rel=\"stylesheet\" href=\"/static/styles.css\"><script src=\"'' @
     ''/static/htmx.min.js\"></script><script src=\"/static/sse.min.js\"></script></hea'' @
     ''d><body><main class=\"card\"><h1>go-sse '' @ [CHR 0xC3, CHR 0x97] @
     '' HTMX</h1><p class=\"subtitle\">Live <strong>Server-Sent Events</strong> from a '' @
     ''Go backend powered by <code>github.com/larsartmann/go-sse</code>, rendered with '' @
     ''<a href=\"https://htmx.org\">HTMX</a> and its <a href=\"https://htmx.org/extensi'' @
     ''ons/sse/\">SSE extension</a>. The server streams HTML fragments; HTMX swaps them'' @
     '' into the DOM. No frontend JavaScript required.</p>''"

definition htmlPageTail :: string where
  "htmlPageTail =
     ''</main></body></html>''"

definition htmlContainerHead :: string where
  "htmlContainerHead =
     ''<div id=\"sse-container\" hx-ext=\"sse\" sse-connect=\"/events\"><button hx-get='' @
     ''\"/sse-container\" hx-target=\"#sse-container\" hx-swap=\"outerHTML\">Restart de'' @
     ''mo</button><div id=\"progress-area\" sse-swap=\"progress\" hx-swap=\"innerHTML\"'' @ ''>''"

definition htmlContainerTail :: string where
  "htmlContainerTail =
     ''</div></div>''"

definition htmlBarOpen :: string where
  "htmlBarOpen =
     ''<div class=\"progress-bar\"><div class=\"progress-fill\" style=\"''"

definition htmlBarClose :: string where
  "htmlBarClose =
     ''\"></div></div><div class=\"status\">''"

definition htmlComplete :: string where
  "htmlComplete =
     ''<p>Complete!</p>''"

definition htmlProcessing :: string where
  "htmlProcessing =
     ''<p>Processing'' @ [CHR 0xE2, CHR 0x80, CHR 0xA6] @ '' ''"

definition htmlPercent :: string where
  "htmlPercent =
     ''%</p>''"

definition htmlValueOpen :: string where
  "htmlValueOpen =
     ''</div><p class=\"progress-value\">Progress: <span>''"

definition htmlValueClose :: string where
  "htmlValueClose =
     ''</span>%</p>''"

text \<open>
  \<open>ctx k\<close> is what \<open>ctx.Err()\<close> gives in the component at nesting depth \<open>k\<close>.
\<close>

definition writeEscaped :: "'b templ \<Rightarrow> goerr + string \<Rightarrow> nat \<Rightarrow> nat \<Rightarrow> 'b \<Rightarrow> goerr option \<times> 'b" where
  "writeEscaped T text line col b = (case text of
     Inl e \<Rightarrow> (Some (templError T e line col), b)
   | Inr s \<Rightarrow> bufWriteString T b (EscapeString T s))"

definition progressContent :: "'b templ \<Rightarrow> int \<Rightarrow> 'b \<Rightarrow> goerr option \<times> 'b" where
  "progressContent T progress =
     andThen (\<lambda>b. WriteString T b 5 htmlBarOpen)
    (andThen (writeEscaped T (SanitizeStyleAttributeValues T (''width: '' @ FormatInt progress @ ''%'')) 55 73)
    (andThen (\<lambda>b. WriteString T b 6 htmlBarClose)
    (andThen (if progress \<ge> 100 then (\<lambda>b. WriteString T b 7 htmlComplete)
       else andThen (\<lambda>b. WriteString T b 8 htmlProcessing)
           (andThen (writeEscaped T (JoinStringErrs T progress) 61 30)
              (\<lambda>b. WriteString T b 9 htmlPercent)))
    (andThen (\<lambda>b. WriteString T b 10 htmlValueOpen)
    (andThen (writeEscaped T (JoinStringErrs T progress) 64 53)
       (\<lambda>b. WriteString T b 11 htmlValueClose))))))"

definition sseContainer :: "'b templ \<Rightarrow> (nat \<Rightarrow> goerr option) \<Rightarrow> nat \<Rightarrow> 'b \<Rightarrow> goerr option \<times> 'b" where
  "sseContainer T ctx depth =
     andThen (\<lambda>b. WriteString T b 3 htmlContainerHead)
    (andThen (renderNested (ctx (depth + 1)) (progressContent T 0))
       (\<lambda>b. WriteString T b 4 htmlContainerTail))"

definition htmxIndexPage :: "'b templ \<Rightarrow> (nat \<Rightarrow> goerr option) \<Rightarrow> 'b \<Rightarrow> goerr option \<times> 'b" where
  "htmxIndexPage T ctx =
     andThen (\<lambda>b. WriteString T b 1 htmlPageHead)
    (andThen (renderNested (ctx 1) (sseContainer T ctx 1))
       (\<lambda>b. WriteString T b 2 htmlPageTail))"

text \<open>What the handlers of \<open>main.go\<close> pass on: \<open>Render\<close> on the response, and into a \<open>bytes.Buffer\<close>.\<close>

definition htmxIndexRender :: "'b templ \<Rightarrow> (nat \<Rightarrow> goerr option) \<Rightarrow> writer \<Rightarrow> goerr option \<times> writer" where
  "htmxIndexRender T ctx = renderComponent T (ctx 0) (htmxIndexPage T ctx)"

definition containerRender :: "'b templ \<Rightarrow> (nat \<Rightarrow> goerr option) \<Rightarrow> writer \<Rightarrow> goerr option \<times> writer" where
  "containerRender T ctx = renderComponent T (ctx 0) (sseContainer T ctx 0)"

definition progressRender :: "'b templ \<Rightarrow> (nat \<Rightarrow> goerr option) \<Rightarrow> render" where
  "progressRender T ctx progress =
     (case renderComponent T (ctx progress) (progressContent T (int progress)) \<lparr>wire = [], outcomes = []\<rparr> of
        (Some err, buf) \<Rightarrow> Inl err
      | (None, buf) \<Rightarrow> Inr (wire buf))"

subsection \<open>example/datastar/index_templ.go\<close>

definition htmlFeedHead :: string where
  "htmlFeedHead =
     ''<!doctype html><html lang=\"en\"><head><meta charset=\"utf-8\"><meta name=\"view'' @
     ''port\" content=\"width=device-width, initial-scale=1\"><title>go-sse '' @ [CHR 0xC3, CHR 0x97] @
     '' DataStar '' @ [CHR 0xE2, CHR 0x80, CHR 0x94] @
     '' Live Activity Feed</title><meta property=\"og:title\" content=\"go-sse '' @ [CHR 0xC3, CHR 0x97] @
     '' DataStar '' @ [CHR 0xE2, CHR 0x80, CHR 0x94] @
     '' Live Activity Feed\"><meta property=\"og:description\" content=\"Server-Sent Ev'' @
     ''ents transport for Go with live fan-out, filtering, and reconnection replay.\"><'' @
     ''meta property=\"og:type\" content=\"website\"><link rel=\"icon\" href=\"data:ima'' @
     ''ge/svg+xml,%3Csvg xmlns='' @ [CHR 0x27] @ ''http://www.w3.org/2000/svg'' @ [CHR 0x27] @ '' viewBox='' @
     [CHR 0x27] @ ''0 0 100 100'' @ [CHR 0x27] @ ''%3E%3Ctext y='' @ [CHR 0x27] @ ''.9em'' @ [CHR 0x27] @
     '' font-size='' @ [CHR 0x27] @ ''90'' @ [CHR 0x27] @
     ''%3E%E2%9A%A1%3C/text%3E%3C/svg%3E\"><link rel=\"stylesheet\" href=\"/static/styl'' @
     ''es.css\"><script type=\"module\" src=\"/static/datastar.js\"></script><script sr'' @
     ''c=\"/static/app.js\" defer></script></head><body><main class=\"card\"><div data-'' @
     ''signals=\"{subscriberCount: 0, replayed: 0, totalEvents: 0, paused: false}\"><he'' @
     ''ader class=\"card__header\"><div class=\"header-row\"><h1>go-sse '' @ [CHR 0xC3, CHR 0x97] @
     '' DataStar</h1><button class=\"theme-toggle\"><span class=\"theme-toggle__dark\">'' @
     ''Dark</span> <span class=\"theme-toggle__light\">Light</span></button></div><p cl'' @
     ''ass=\"subtitle\">Live activity feed powered by Server-Sent Events. Open multiple'' @
     '' tabs to see real-time fan-out '' @ [CHR 0xE2, CHR 0x80, CHR 0x94] @
     '' every tab receives the same events simultaneously.</p></header><nav class=\"fil'' @ ''ter-bar\">''"

definition htmlNavAlerts :: string where
  "htmlNavAlerts =
     ''<a class=\"filter-bar__link\" href=\"/\">All events</a> <span class=\"filter-bar'' @
     ''__active\">Alerts only</span> ''"

definition htmlNavAll :: string where
  "htmlNavAll =
     ''<span class=\"filter-bar__active\">All events</span> <a class=\"filter-bar__link'' @
     ''\" href=\"/?filter=alerts\">Alerts only</a> ''"

definition htmlFeedBody :: string where
  "htmlFeedBody =
     ''<span class=\"filter-bar__hint\">press '' @ [CHR 0x27] @ ''a'' @ [CHR 0x27] @
     '' for alerts</span></nav><div class=\"stats-bar\"><div class=\"stat\"><span class'' @
     ''=\"stat__value\" data-text=\"$subscriberCount\"></span> <span class=\"stat__labe'' @
     ''l\">clients connected</span></div><div class=\"stat\"><span class=\"stat__value\"'' @
     '' data-text=\"$totalEvents\"></span> <span class=\"stat__label\">events sent</spa'' @
     ''n></div><div class=\"stat stat--live\"><span class=\"live-dot\"></span> <span cl'' @
     ''ass=\"stat__label\">live</span></div></div><div class=\"replay-banner\" data-sho'' @
     ''w=\"$replayed > 0\">Replayed <span data-text=\"$replayed\"></span> missed events'' @
     '' on reconnect</div><div class=\"feed-controls\"><button class=\"feed-controls__b'' @
     ''tn\" data-on-click=\"@set('' @ [CHR 0x27] @ ''paused'' @ [CHR 0x27] @
     '', !$paused)\"><span data-show=\"!$paused\">Pause</span> <span data-show=\"$pause'' @
     ''d\">Resume</span></button></div><div class=\"feed-empty\" data-show=\"$totalEven'' @
     ''ts === 0 && !$paused\">Waiting for events'' @ [CHR 0xE2, CHR 0x80, CHR 0xA6] @
     ''</div><div class=\"feed-paused\" data-show=\"$paused\">Paused '' @ [CHR 0xE2, CHR 0x80, CHR 0x94] @
     '' updates will appear on resume</div><div class=\"feed\" id=\"feed\" data-show=\"'' @
     ''$totalEvents > 0 && !$paused\"></div><footer class=\"card__footer\"><p>Powered b'' @
     ''y <code>github.com/larsartmann/go-sse</code>. Events fan out via <code>Broadcast'' @
     ''er</code>, replay via <code>EventStore</code>, filtering via <code>SubscribeFilt'' @
     ''er</code>, keep-alive via <code>Heartbeat</code>.</p></footer>''"

definition htmlInitAlerts :: string where
  "htmlInitAlerts =
     ''<div data-init=\"@get('' @ [CHR 0x27] @ ''/events?filter=alerts'' @ [CHR 0x27] @ '')\"></div>''"

definition htmlInitAll :: string where
  "htmlInitAll =
     ''<div data-init=\"@get('' @ [CHR 0x27] @ ''/events'' @ [CHR 0x27] @ '')\"></div>''"

definition htmlFeedTail :: string where
  "htmlFeedTail =
     ''</div></main></body></html>''"

definition datastarIndexPage :: "'b templ \<Rightarrow> bool \<Rightarrow> 'b \<Rightarrow> goerr option \<times> 'b" where
  "datastarIndexPage T alertsOnly =
     andThen (\<lambda>b. WriteString T b 1 htmlFeedHead)
    (andThen (if alertsOnly then (\<lambda>b. WriteString T b 2 htmlNavAlerts) else (\<lambda>b. WriteString T b 3 htmlNavAll))
    (andThen (\<lambda>b. WriteString T b 4 htmlFeedBody)
    (andThen (if alertsOnly then (\<lambda>b. WriteString T b 5 htmlInitAlerts) else (\<lambda>b. WriteString T b 6 htmlInitAll))
       (\<lambda>b. WriteString T b 7 htmlFeedTail))))"

definition datastarIndexRender :: "'b templ \<Rightarrow> goerr option \<Rightarrow> bool \<Rightarrow> writer \<Rightarrow> goerr option \<times> writer" where
  "datastarIndexRender T ctxErr alertsOnly = renderComponent T ctxErr (datastarIndexPage T alertsOnly)"

subsection \<open>What is rendered\<close>

lemma templ_okD:
  assumes "templ_ok T buffered below"
  shows "\<forall>n. JoinStringErrs T n = Inr (FormatInt n)"
    and "\<forall>s. (\<forall>c \<in> set s. c \<notin> set ''&<>\"'' \<and> c \<noteq> CHR 0x27) \<longrightarrow> EscapeString T s = s"
    and "\<forall>s. no_eol s \<longrightarrow> no_eol (EscapeString T s)"
    and "\<forall>s. no_eol s \<longrightarrow> (\<exists>v. SanitizeStyleAttributeValues T s = Inr v \<and> no_eol v)"
  using assms unfolding templ_ok_def by - (elim conjE; assumption)+

text \<open>A part of a component that succeeds and appends a text to the buffer.\<close>

definition appends :: "('b \<Rightarrow> string) \<Rightarrow> ('b \<Rightarrow> writer) \<Rightarrow> ('b \<Rightarrow> goerr option \<times> 'b) \<Rightarrow> string \<Rightarrow> bool" where
  "appends buffered below f s \<longleftrightarrow> (\<forall>b. outcomes (below b) = [] \<longrightarrow>
     (\<exists>b'. f b = (None, b') \<and> buffered b' = buffered b @ s \<and> below b' = below b))"

lemma appends_andThen:
  assumes "appends buffered below f s" "appends buffered below g t"
  shows "appends buffered below (andThen f g) (s @ t)"
  unfolding appends_def
proof (intro allI impI)
  fix b assume b: "outcomes (below b) = []"
  obtain b1 where b1: "f b = (None, b1)" "buffered b1 = buffered b @ s" "below b1 = below b"
    using assms(1) b unfolding appends_def by blast
  then obtain b2 where "g b1 = (None, b2)" "buffered b2 = buffered b1 @ t" "below b2 = below b1"
    using assms(2) b unfolding appends_def by metis
  then show "\<exists>b'. andThen f g b = (None, b') \<and> buffered b' = buffered b @ s @ t \<and> below b' = below b"
    using b1 by (simp add: andThen_def)
qed

lemma appends_write: "templ_ok T buffered below \<Longrightarrow> appends buffered below (\<lambda>b. WriteString T b i s) s"
  unfolding templ_ok_def appends_def by blast

lemma appends_escaped:
  "templ_ok T buffered below \<Longrightarrow> appends buffered below (writeEscaped T (Inr s) line col) (EscapeString T s)"
  unfolding templ_ok_def appends_def writeEscaped_def sum.case by blast

lemma appends_nested: "appends buffered below f s \<Longrightarrow> appends buffered below (renderNested None f) s"
  by (simp add: appends_def renderNested_def)

lemma renders:
  assumes "templ_ok T buffered below" "appends buffered below body s" "outcomes w = []"
  shows "renderComponent T None body w = (None, w\<lparr>wire := wire w @ s\<rparr>)"
proof -
  have w: "buffered (GetBuffer T w) = []" "below (GetBuffer T w) = w"
    using assms(1,3) unfolding templ_ok_def by blast+
  then obtain b where b: "body (GetBuffer T w) = (None, b)" "buffered b = s" "below b = w"
    using assms(2,3) unfolding appends_def by (metis append_Nil)
  then have "ReleaseBuffer T b = (None, w\<lparr>wire := wire w @ s\<rparr>)"
    using assms(1,3) unfolding templ_ok_def by metis
  then show ?thesis using b(1) by (simp add: renderComponent_def)
qed

text \<open>The fragment for a progress value.\<close>

definition styleOf :: "'b templ \<Rightarrow> int \<Rightarrow> string" where
  "styleOf T p = (case SanitizeStyleAttributeValues T (''width: '' @ FormatInt p @ ''%'') of Inl e \<Rightarrow> [] | Inr v \<Rightarrow> v)"

definition fragment :: "'b templ \<Rightarrow> int \<Rightarrow> string" where
  "fragment T p =
     htmlBarOpen @ EscapeString T (styleOf T p) @ htmlBarClose @
     (if p \<ge> 100 then htmlComplete else htmlProcessing @ FormatInt p @ htmlPercent) @
     htmlValueOpen @ FormatInt p @ htmlValueClose"

lemma FormatInt_plain:
  "c \<in> set (FormatInt i) \<Longrightarrow> c \<notin> set ''&<>\"'' \<and> c \<noteq> CHR 0x27 \<and> c \<noteq> LF \<and> c \<noteq> CR"
proof -
  assume "c \<in> set (FormatInt i)"
  then have "isDigit c \<or> c = CHR ''-''"
    using formatDecimal_digits by (auto simp: FormatInt_def list_all_iff split: if_splits)
  then show ?thesis by (auto simp: isDigit_def)
qed

lemma FormatInt_no_eol: "no_eol (FormatInt i)"
  using FormatInt_plain by (auto simp: no_eol_def)

lemma width_style:
  assumes "templ_ok T buffered below"
  shows "SanitizeStyleAttributeValues T (''width: '' @ FormatInt p @ ''%'') = Inr (styleOf T p)" "no_eol (styleOf T p)"
proof -
  have "no_eol (''width: '' @ FormatInt p @ ''%'')" using FormatInt_no_eol [of p] by (simp add: no_eol_def)
  then obtain v where "SanitizeStyleAttributeValues T (''width: '' @ FormatInt p @ ''%'') = Inr v" "no_eol v"
    using templ_okD(4) [OF assms] by (elim allE [of _ "''width: '' @ FormatInt p @ ''%''"]) auto
  then show "SanitizeStyleAttributeValues T (''width: '' @ FormatInt p @ ''%'') = Inr (styleOf T p)" "no_eol (styleOf T p)"
    by (simp_all add: styleOf_def)
qed

lemma progressContent_appends:
  assumes "templ_ok T buffered below"
  shows "appends buffered below (progressContent T p) (fragment T p)"
proof -
  have "EscapeString T (FormatInt p) = FormatInt p"
    using templ_okD(2) [OF assms] FormatInt_plain [of _ p] by blast
  then have num: "appends buffered below (writeEscaped T (JoinStringErrs T p) line col) (FormatInt p)" for line col
    using appends_escaped [OF assms, of "FormatInt p"] templ_okD(1) [OF assms] by simp
  note parts = appends_andThen appends_write [OF assms] num appends_escaped [OF assms]
  show ?thesis
    unfolding progressContent_def fragment_def width_style(1) [OF assms]
    by (cases "p \<ge> 100"; simp only: if_True if_False; intro parts)
qed

lemma fragment_one_line: assumes "templ_ok T buffered below" shows "no_eol (fragment T p)"
proof -
  have "no_eol (EscapeString T (styleOf T p))" using templ_okD(3) [OF assms] width_style(2) [OF assms] by simp
  then show ?thesis
    using FormatInt_no_eol [of p]
    by (auto simp: fragment_def no_eol_def htmlBarOpen_def htmlBarClose_def htmlComplete_def htmlProcessing_def
        htmlPercent_def htmlValueOpen_def htmlValueClose_def)
qed

lemma progressRender_fragment:
  assumes "templ_ok T buffered below" "ctx p = None"
  shows "progressRender T ctx p = Inr (fragment T (int p))"
  using renders [OF assms(1) progressContent_appends [OF assms(1)], of "\<lparr>wire = [], outcomes = []\<rparr>" "int p"] assms(2)
  by (simp add: progressRender_def)

text \<open>The pages: what the browser gets, with the first fragment inside the container.\<close>

lemma sseContainer_appends:
  assumes "templ_ok T buffered below" "ctx (depth + 1) = None"
  shows "appends buffered below (sseContainer T ctx depth) (htmlContainerHead @ fragment T 0 @ htmlContainerTail)"
  unfolding sseContainer_def assms(2)
  by (intro appends_andThen appends_write [OF assms(1)] appends_nested progressContent_appends [OF assms(1)])

lemma container_page:
  assumes "templ_ok T buffered below" "\<And>k. ctx k = None" "outcomes w = []"
  shows "containerRender T ctx w = (None, w\<lparr>wire := wire w @ htmlContainerHead @ fragment T 0 @ htmlContainerTail\<rparr>)"
  unfolding containerRender_def assms(2) [of 0]
  by (rule renders [OF assms(1) sseContainer_appends [OF assms(1,2)] assms(3)])

lemma htmx_index_page:
  assumes "templ_ok T buffered below" "\<And>k. ctx k = None" "outcomes w = []"
  shows "htmxIndexRender T ctx w = (None, w\<lparr>wire := wire w @ htmlPageHead @
    (htmlContainerHead @ fragment T 0 @ htmlContainerTail) @ htmlPageTail\<rparr>)"
proof -
  have "appends buffered below (htmxIndexPage T ctx)
      (htmlPageHead @ (htmlContainerHead @ fragment T 0 @ htmlContainerTail) @ htmlPageTail)"
    unfolding htmxIndexPage_def assms(2) [of 1]
    by (intro appends_andThen appends_write [OF assms(1)] appends_nested sseContainer_appends [OF assms(1,2)])
  then show ?thesis unfolding htmxIndexRender_def assms(2) [of 0] by (rule renders [OF assms(1) _ assms(3)])
qed

text \<open>The DataStar page opens the event stream with the filter it was itself asked for.\<close>

lemma datastar_index_page:
  assumes "templ_ok T buffered below" "outcomes (rw_w rw) = []" "\<not> rw_finished rw"
  shows "\<exists>rw'. indexHandler (datastarIndexRender T None) filterParam rw = (Ret (), rw') \<and>
    rw_header rw' ''Content-Type'' = Some ''text/html; charset=utf-8'' \<and>
    wire (rw_w rw') = wire (rw_w rw) @ htmlFeedHead @
      (if filterParam = ''alerts'' then htmlNavAlerts else htmlNavAll) @ htmlFeedBody @
      (if filterParam = ''alerts'' then htmlInitAlerts else htmlInitAll) @ htmlFeedTail"
proof -
  let ?alerts = "filterParam = ''alerts''"
  let ?page = "htmlFeedHead @ (if ?alerts then htmlNavAlerts else htmlNavAll) @ htmlFeedBody @
      (if ?alerts then htmlInitAlerts else htmlInitAll) @ htmlFeedTail"
  have "appends buffered below (datastarIndexPage T alerts) (htmlFeedHead @ (if alerts then htmlNavAlerts
      else htmlNavAll) @ htmlFeedBody @ (if alerts then htmlInitAlerts else htmlInitAll) @ htmlFeedTail)" for alerts
    unfolding datastarIndexPage_def
    by (cases alerts; simp only: if_True if_False; intro appends_andThen appends_write [OF assms(1)])
  from renders [OF assms(1) this [of ?alerts] assms(2)]
  have page: "datastarIndexRender T None ?alerts (rw_w rw) = (None, (rw_w rw)\<lparr>wire := wire (rw_w rw) @ ?page\<rparr>)"
    unfolding datastarIndexRender_def .
  show ?thesis
    using page assms(3) by (simp add: indexHandler_def onWriter_def headerSet_def)
qed

text \<open>
  C25. The job's client sees its whole course: the handler always returns, with its stream
  closed; without a cancellation the client reads exactly eleven progress events, for 0, 10,
  20, ..., 100 percent in order; when it leaves earlier, an initial part of them has been sent.
  Each event has one data line, which is the fragment of the template for its value, byte for
  byte: rendering through templ, framing, reading and parsing lose and add nothing.
\<close>

theorem progress_client_sees_fragments:
  assumes "templ_ok T buffered below" "\<And>p. ctx p = None"
    and "brandid_ok B" "accepting (NewStream rw r)" "wire (rw_w rw) = []"
    and "progressHandler B (progressRender T ctx) cancelled rw r = (res, s')"
    and "\<forall>p \<in> set milestones. length (''data: '' @ fragment T (int p)) < line_limit opts" "limit_ok opts"
    and "source_ready src" "source_ending src = Ends EOF" "source_stream src = wire (rw_w (st_w s'))"
  shows "res = Ret () \<and> st_closed s' \<and> (\<exists>later. milestones = reached cancelled milestones @ later) \<and>
    ReadEvents source_Read src opts = Some (Ret (Inr (map (\<lambda>p.
      \<lparr>pe_Type = ''progress'', pe_DataLines = [fragment T (int p)], pe_ID = [], pe_Retry = 0\<rparr>)
      (reached cancelled milestones)))) \<and>
    ((\<forall>p. cancelled p = (False, False)) \<longrightarrow> reached cancelled milestones = [0, 10, 20, 30, 40, 50, 60, 70, 80, 90, 100])"
proof -
  have frag: "renderProgress (progressRender T ctx) p = fragment T (int p)" for p
    using progressRender_fragment [OF assms(1,2)] by (simp add: renderProgress_def)
  have lines: "data_lines (fragment T (int p)) = [fragment T (int p)]" for p
    using fragment_one_line [OF assms(1)] by (simp add: data_lines_def lines_at_eof_no_eol)
  have long: "15 < length (''data: '' @ fragment T (int p))" for p
    by (simp add: fragment_def htmlBarOpen_def)
  moreover have "0 \<in> set milestones" by (simp add: milestones_def upt_rec)
  ultimately have limit: "15 < line_limit opts" using assms(7) less_trans by blast
  have "event_lines B (progressEvent B (progressRender T ctx) p) =
      [''event: progress'', ''data: '' @ fragment T (int p)]" for p
    using assms(3) by (simp add: event_lines_def field_line_def progressEvent_def frag lines brandid_okD)
  then have "\<forall>p \<in> set milestones. \<forall>l \<in> set (event_lines B (progressEvent B (progressRender T ctx) p)).
      length l < line_limit opts"
    using assms(7) limit by auto
  from progress_client_receives [OF assms(3-6) this assms(8) _ assms(9-11)] limit
  show ?thesis by (simp add: frag splitLines_data_lines lines)
qed

subsection \<open>A runtime\<close>

text \<open>An unbounded buffer over a writer, escaping of the five markup characters.\<close>

definition escapeChar :: "char \<Rightarrow> string" where
  "escapeChar c = (if c = CHR ''&'' then ''&amp;'' else if c = CHR ''<'' then ''&lt;''
     else if c = CHR ''>'' then ''&gt;'' else if c = CHR 0x22 then ''&#34;''
     else if c = CHR 0x27 then ''&#39;'' else [c])"

definition sample_templ :: "(string \<times> writer) templ" where
  "sample_templ = \<lparr>GetBuffer = (\<lambda>w. ([], w)), WriteString = (\<lambda>(b, w) i s. (None, (b @ s, w))),
     bufWriteString = (\<lambda>(b, w) s. (None, (b @ s, w))), ReleaseBuffer = (\<lambda>(b, w). snd (Write w b)),
     EscapeString = (\<lambda>s. concat (map escapeChar s)), SanitizeStyleAttributeValues = (\<lambda>s. Inr (s @ '';'')),
     JoinStringErrs = (\<lambda>n. Inr (FormatInt n)), templError = (\<lambda>e line col. e)\<rparr>"

lemma escape_plain: "\<forall>c \<in> set s. c \<notin> set ''&<>\"'' \<and> c \<noteq> CHR 0x27 \<Longrightarrow> concat (map escapeChar s) = s"
  by (induction s) (auto simp: escapeChar_def)

lemma escape_no_eol: "no_eol s \<Longrightarrow> no_eol (concat (map escapeChar s))"
  by (induction s) (auto simp: escapeChar_def no_eol_def)

lemma sample_templ_ok: "templ_ok sample_templ fst snd"
proof -
  have "no_eol s \<Longrightarrow> no_eol (s @ '';'')" for s by (simp add: no_eol_def)
  moreover have "snd (Write w s) = (None, w\<lparr>wire := wire w @ s\<rparr>)" if "outcomes w = []" for w s
    using that by (simp add: Write_def)
  ultimately show ?thesis
    unfolding templ_ok_def using escape_plain escape_no_eol by (simp add: sample_templ_def split_beta)
qed

lemma sample_fragment:
  "fragment sample_templ p = htmlBarOpen @ (''width: '' @ FormatInt p @ ''%;'') @ htmlBarClose @
     (if p \<ge> 100 then htmlComplete else htmlProcessing @ FormatInt p @ htmlPercent) @
     htmlValueOpen @ FormatInt p @ htmlValueClose"
proof -
  have "concat (map escapeChar (''width: '' @ FormatInt p @ ''%;'')) = ''width: '' @ FormatInt p @ ''%;''"
    using FormatInt_plain [of _ p] by (intro escape_plain) auto
  then show ?thesis by (simp add: fragment_def styleOf_def sample_templ_def)
qed

definition sample_cancel :: "nat \<Rightarrow> bool \<times> bool" where
  "sample_cancel p = (False, p = 10)"

theorem progress_client_sees_fragments_witness:
  "ReadEvents source_Read
      [Chunk (wire (rw_w (st_w (snd (progressHandler string_id (progressRender sample_templ (\<lambda>_. None)) sample_cancel
        (sample_response []) sample_request))))) None] [WithMaxLineBytes 300] = Some (Ret (Inr
     [\<lparr>pe_Type = ''progress'', pe_DataLines = [fragment sample_templ 0], pe_ID = [], pe_Retry = 0\<rparr>,
      \<lparr>pe_Type = ''progress'', pe_DataLines = [fragment sample_templ 10], pe_ID = [], pe_Retry = 0\<rparr>]))"
proof -
  let ?render = "progressRender sample_templ (\<lambda>_. None)"
  obtain res s' where h: "progressHandler string_id ?render sample_cancel (sample_response []) sample_request = (res, s')"
    by force
  have acc: "accepting (NewStream (sample_response []) sample_request)"
    by (simp add: accepting_def stream_sample_defs)
  have "\<forall>p \<in> set milestones. length (FormatInt (int p)) \<le> 3"
    unfolding milestones_def by code_simp
  moreover have "length (fragment sample_templ (int p)) \<le> 220 + 3 * length (FormatInt (int p))" for p
    by (simp add: sample_fragment htmlBarOpen_def htmlBarClose_def htmlComplete_def htmlProcessing_def htmlPercent_def
        htmlValueOpen_def htmlValueClose_def)
  ultimately have fit: "\<forall>p \<in> set milestones. length (''data: '' @ fragment sample_templ (int p)) < line_limit [WithMaxLineBytes 300]"
    by (fastforce simp: limit_simps dest: bspec intro: le_less_trans)
  have r: "reached sample_cancel milestones = [0, 10]"
    by (simp add: milestones_def progressStep_def maxProgress_def sample_cancel_def upt_rec)
  have "wire (rw_w (st_w s')) \<noteq> []"
    using progressHandler_runs [OF string_id_ok acc, of ?render sample_cancel] h r
    by (auto simp: frame_of_lines_def)
  then show ?thesis
    unfolding h snd_conv
    using progress_client_sees_fragments [OF sample_templ_ok _ string_id_ok acc _ h fit,
        of "[Chunk (wire (rw_w (st_w s'))) None]"] r
    by (simp add: limit_simps sample_response_def)
qed

end
