(* ===== verification/HubMachine.thy ===== *)
theory HubMachine
  imports Lifecycle
begin

text \<open>
  The hub under concurrency, at the grain at which goroutines interleave: a broadcast holds the
  read lock and sends to one subscriber at a time, several broadcasts at once; operations
  under the write lock wait until no broadcast is running; consumers receive at any time; a
  shutdown polls one buffer length at a time without the lock.
\<close>

subsection \<open>Reachability and invariants\<close>

inductive reach :: "('s \<Rightarrow> bool) \<Rightarrow> ('s \<Rightarrow> 's \<Rightarrow> bool) \<Rightarrow> 's \<Rightarrow> bool"
  for init step where
  reach_start: "init s \<Longrightarrow> reach init step s"
| reach_step: "reach init step s \<Longrightarrow> step s s' \<Longrightarrow> reach init step s'"

locale machine =
  fixes init :: "'s \<Rightarrow> bool"
    and step :: "'s \<Rightarrow> 's \<Rightarrow> bool"
    and inv :: "'s \<Rightarrow> bool"
  assumes init_inv: "init s \<Longrightarrow> inv s"
    and step_inv: "inv s \<Longrightarrow> step s s' \<Longrightarrow> inv s'"
begin

lemma reach_inv: "reach init step s \<Longrightarrow> inv s"
  by (induction rule: reach.induct) (auto intro: init_inv step_inv)

end

subsection \<open>States\<close>

text \<open>
  A shutdown goroutine: counting (the subscribers still to look at, and how many had buffered
  messages so far), waiting in the select, about to take the lock again, or returned.
\<close>

datatype 'a sd_pc =
    SdCount "'a subscriber list" "'a subscriber list" nat
  | SdWait "'a subscriber list" nat
  | SdClose "'a subscriber list"
  | SdDone "goerr option"

text \<open>
  \<open>readers\<close> holds, for each goroutine inside \<open>Broadcast\<close> or \<open>BroadcastMany\<close>, the sends it has
  still to do; \<open>crashed\<close> records a send on or a close of a closed channel.
\<close>

record 'a sys =
  world_of :: "'a world"
  readers :: "nat \<Rightarrow> ('a \<times> 'a subscriber) list option"
  shutdowns :: "nat \<Rightarrow> 'a sd_pc option"
  crashed :: bool

definition hub_init :: "'a Option list \<Rightarrow> 'a sys \<Rightarrow> bool" where
  "hub_init opts s \<longleftrightarrow> list_all hub_option opts \<and>
     s = \<lparr>world_of = initWorld opts, readers = (\<lambda>t. None), shutdowns = (\<lambda>t. None), crashed = False\<rparr>"

text \<open>The write lock is free for taking when no broadcast holds the read lock.\<close>

definition unlocked :: "'a sys \<Rightarrow> bool" where
  "unlocked s \<longleftrightarrow> (\<forall>t. readers s t = None)"

text \<open>A panic of a caller's own callback is the caller's; any other one is a crash of the hub.\<close>

definition channel_panic :: "'b outcome \<Rightarrow> bool" where
  "channel_panic r \<longleftrightarrow> (case r of Ret _ \<Rightarrow> False | Panic m \<Rightarrow> m \<noteq> ''callback'')"

definition perform :: "'a sys \<Rightarrow> 'b outcome \<times> 'a world \<Rightarrow> 'a sys" where
  "perform s res = s\<lparr>world_of := snd res, crashed := (crashed s \<or> channel_panic (fst res))\<rparr>"

text \<open>The sends of a batch: message by message, each over the subscribers in some order.\<close>

fun batch :: "(nat \<Rightarrow> 'a order) \<Rightarrow> 'a list \<Rightarrow> (nat \<times> 'a subscriber) list \<Rightarrow> ('a \<times> 'a subscriber) list" where
  "batch ords [] m = []"
| "batch ords (msg # msgs) m = map (\<lambda>(k, sub). (msg, sub)) (ords 0 m) @ batch (\<lambda>i. ords (i + 1)) msgs m"

subsection \<open>Steps\<close>

text \<open>
  What an observer sees of a step: a call under the write lock, a receive, a broadcast of a list
  of messages that takes the read lock while the listed channels are tracked, one of its sends
  with whether the channel took the message, its end, a step of a shutdown, and its cancellation.
\<close>

datatype 'a act =
    AWrite
  | ARecv nat "'a option"
  | ARLock nat "'a list" "nat list"
  | ASend nat 'a "'a subscriber" bool
  | ARUnlock nat
  | AShut nat
  | ACancel nat

definition has_room :: "'a subscriber \<Rightarrow> 'a world \<Rightarrow> bool" where
  "has_room sub w \<longleftrightarrow> length (ch_buf (heap w (sub_ch sub))) < ch_cap (heap w (sub_ch sub))"

inductive hub_act :: "'a sys \<Rightarrow> 'a act \<Rightarrow> 'a sys \<Rightarrow> bool" where
  subscribe: "unlocked s \<Longrightarrow> hub_act s AWrite (perform s (SubscribeFilter pred (world_of s)))"
| unsubscribe: "unlocked s \<Longrightarrow> hub_act s AWrite (perform s (Unsubscribe a (world_of s)))"
| close: "unlocked s \<Longrightarrow> order_ok ord \<Longrightarrow> hub_act s AWrite (perform s (Close ord (world_of s)))"
| set_drop: "unlocked s \<Longrightarrow> hub_act s AWrite (s\<lparr>world_of := OnDrop fn (world_of s)\<rparr>)"
| set_sub: "unlocked s \<Longrightarrow> hub_act s AWrite (s\<lparr>world_of := OnSubscribe cb (world_of s)\<rparr>)"
| set_unsub: "unlocked s \<Longrightarrow> hub_act s AWrite (s\<lparr>world_of := OnUnsubscribe cb (world_of s)\<rparr>)"
| receive: "recvAt a (world_of s) = Some (v, w) \<Longrightarrow> hub_act s (ARecv a v) (s\<lparr>world_of := w\<rparr>)"
| rlock: "readers s t = None \<Longrightarrow> \<forall>i. order_ok (ords i) \<Longrightarrow>
    hub_act s (ARLock t msgs (map fst (subs_of (world_of s))))
      (s\<lparr>readers := (readers s)(t := Some (batch ords msgs (subs_of (world_of s))))\<rparr>)"
| send: "readers s t = Some ((msg, sub) # todo) \<Longrightarrow>
    hub_act s (ASend t msg sub (accepts sub msg \<and> has_room sub (world_of s)))
      (perform (s\<lparr>readers := (readers s)(t := Some todo)\<rparr>) (sendOne msg sub (world_of s)))"
| runlock: "readers s t = Some [] \<Longrightarrow> hub_act s (ARUnlock t) (s\<lparr>readers := (readers s)(t := None)\<rparr>)"
| sd_begin: "shutdowns s t = None \<Longrightarrow> unlocked s \<Longrightarrow> order_ok ord \<Longrightarrow>
    shutdownBegin ord (world_of s) = (snap, w) \<Longrightarrow>
    hub_act s (AShut t) (s\<lparr>world_of := w, shutdowns := (shutdowns s)(t :=
      Some (case snap of None \<Rightarrow> SdDone None | Some subs \<Rightarrow> SdCount subs subs 0))\<rparr>)"
| sd_count: "shutdowns s t = Some (SdCount subs (sub # subs') n) \<Longrightarrow>
    hub_act s (AShut t) (s\<lparr>shutdowns := (shutdowns s)(t := Some (SdCount subs subs'
      (if lenChan (heap (world_of s) (sub_ch sub)) > 0 then n + 1 else n)))\<rparr>)"
| sd_counted: "shutdowns s t = Some (SdCount subs [] n) \<Longrightarrow>
    hub_act s (AShut t) (s\<lparr>shutdowns := (shutdowns s)(t :=
      Some (if n = 0 then SdClose subs else SdWait subs n))\<rparr>)"
| sd_tick: "shutdowns s t = Some (SdWait subs n) \<Longrightarrow>
    hub_act s (AShut t) (s\<lparr>shutdowns := (shutdowns s)(t := Some (SdCount subs subs 0))\<rparr>)"
| sd_cancel: "shutdowns s t = Some (SdWait subs n) \<Longrightarrow>
    hub_act s (ACancel t) (s\<lparr>shutdowns := (shutdowns s)(t := Some (SdDone (Some
      (Wrapf (drainError e n (length subs)) Transient ''sse.shutdown_failed'' [ArgN (length subs)]))))\<rparr>)"
| sd_finish: "shutdowns s t = Some (SdClose subs) \<Longrightarrow> unlocked s \<Longrightarrow>
    hub_act s (AShut t) (perform (s\<lparr>shutdowns := (shutdowns s)(t := Some (SdDone None))\<rparr>)
      (shutdownFinish subs (world_of s)))"

definition hub_step :: "'a sys \<Rightarrow> 'a sys \<Rightarrow> bool" where
  "hub_step s s' \<longleftrightarrow> (\<exists>act. hub_act s act s')"

lemma hub_stepI: "hub_act s act s' \<Longrightarrow> hub_step s s'"
  by (auto simp: hub_step_def)

subsection \<open>The hub never panics\<close>

text \<open>Whatever a running broadcast has still to send to is tracked, hence open.\<close>

definition hub_inv :: "'a sys \<Rightarrow> bool" where
  "hub_inv s \<longleftrightarrow> world_ok (world_of s) \<and> \<not> crashed s \<and>
     (\<forall>t todo msg sub. readers s t = Some todo \<longrightarrow> (msg, sub) \<in> set todo \<longrightarrow>
        as_entry sub \<in> set (subs_of (world_of s)))"

lemma hub_inv_unlocked:
  "unlocked s \<Longrightarrow> hub_inv s \<longleftrightarrow> world_ok (world_of s) \<and> \<not> crashed s"
  by (simp add: hub_inv_def unlocked_def)

lemma unlocked_perform [simp]: "unlocked (perform s res) = unlocked s"
  by (simp add: perform_def unlocked_def)

lemma hub_inv_writer:
  assumes "hub_inv s" "unlocked s" "world_ok (snd res)" "\<not> channel_panic (fst res)"
  shows "hub_inv (perform s res)"
  using assms by (simp add: hub_inv_unlocked) (simp add: perform_def)

lemma batch_entries:
  "\<forall>i. order_ok (ords i) \<Longrightarrow> (msg, sub) \<in> set (batch ords msgs m) \<Longrightarrow> \<exists>k. (k, sub) \<in> set m"
proof (induction msgs arbitrary: ords)
  case (Cons m' msgs)
  then show ?case
    using Cons.IH [of "\<lambda>i. ords (i + 1)"] order_okD(1) [of "ords 0"] by auto
qed simp

lemma SubscribeFilter_safe: "world_ok w \<Longrightarrow> world_ok (snd (SubscribeFilter pred w)) \<and>
    \<not> channel_panic (fst (SubscribeFilter pred w))"
  by (simp add: SubscribeFilter_spec after_subscribe_ok after_refused_ok channel_panic_def)

lemma Unsubscribe_safe: "world_ok w \<Longrightarrow> world_ok (snd (Unsubscribe a w)) \<and>
    \<not> channel_panic (fst (Unsubscribe a w))"
  by (simp add: Unsubscribe_spec untrack_ok channel_panic_def)

lemma Close_safe: "world_ok w \<Longrightarrow> order_ok ord \<Longrightarrow> world_ok (snd (Close ord w)) \<and>
    \<not> channel_panic (fst (Close ord w))"
  by (simp add: Close_spec closed_world_ok channel_panic_def)

lemma shutdownFinish_safe:
  assumes "world_ok w"
  shows "world_ok (snd (shutdownFinish subs w)) \<and> \<not> channel_panic (fst (shutdownFinish subs w))"
proof -
  obtain f h where fh: "closeTracked subs w = (Ret (), w\<lparr>hub := f, heap := h\<rparr>)"
      "\<forall>a. h a = (if a \<in> sub_ch ` set subs \<and> a \<in> fst ` set (subs_of w)
        then (heap w a)\<lparr>ch_closed := True\<rparr> else heap w a)"
    using closeTracked_spec [OF assms, of subs] by blast
  then show ?thesis
    using assms by (simp add: shutdownFinish_def world_ok_def subs_of_def channel_panic_def)
qed

lemma run_op_safe:
  "world_ok w \<Longrightarrow> world_ok (OnDrop fn w) \<and> world_ok (OnSubscribe cb w) \<and> world_ok (OnUnsubscribe cb w)"
  by (simp add: world_ok_def tracked_ok_def subs_of_def OnDrop_def OnSubscribe_def OnUnsubscribe_def)

lemma sendOne_safe:
  assumes "world_ok w" "as_entry sub \<in> set (subs_of w)"
  shows "world_ok (snd (sendOne msg sub w)) \<and> \<not> channel_panic (fst (sendOne msg sub w)) \<and>
    subs_of (snd (sendOne msg sub w)) = subs_of w"
proof -
  have k: "(sub_ch sub, sub) \<in> set (subs_of w)" using assms(2) by (simp add: as_entry_def)
  then have "\<not> ch_closed (heap w (sub_ch sub))" using world_okD(2) [OF assms(1)] by blast
  from sendOne_spec [OF refl this, of msg] show ?thesis
    using assms(1)
    by (auto simp: world_ok_def tracked_ok_def list_all_iff channel_panic_def offer_def trySend_def
        split: if_splits)
qed

lemma hub_inv_step:
  assumes inv: "hub_inv s" and step: "hub_act s act s'"
  shows "hub_inv s'"
  using step
proof (cases rule: hub_act.cases)
  case (subscribe pred)
  then show ?thesis using hub_inv_writer inv SubscribeFilter_safe by (metis hub_inv_def)
next
  case (unsubscribe a)
  then show ?thesis using hub_inv_writer inv Unsubscribe_safe by (metis hub_inv_def)
next
  case (close ord)
  then show ?thesis using hub_inv_writer inv Close_safe by (metis hub_inv_def)
next
  case (set_drop fn)
  then show ?thesis using inv run_op_safe by (auto simp: hub_inv_def unlocked_def)
next
  case (set_sub cb)
  then show ?thesis using inv run_op_safe by (auto simp: hub_inv_def unlocked_def)
next
  case (set_unsub cb)
  then show ?thesis using inv run_op_safe by (auto simp: hub_inv_def unlocked_def)
next
  case (receive a v w)
  then have "w = run_op (OpRecv a) (world_of s)" by simp
  then have "world_ok w" using inv run_op_ok [of "world_of s" "OpRecv a"] by (simp add: hub_inv_def)
  moreover have "subs_of w = subs_of (world_of s)" using recv_heap [OF receive(3)] by simp
  ultimately show ?thesis using inv receive by (simp add: hub_inv_def)
next
  case (rlock t ords msgs)
  have "as_entry sub \<in> set (subs_of (world_of s))"
    if "(msg, sub) \<in> set (batch ords msgs (subs_of (world_of s)))" for msg sub
    using batch_entries [OF rlock(4) that] world_okD(2) [of "world_of s"] inv
    by (auto simp: hub_inv_def as_entry_def)
  then show ?thesis using inv rlock by (auto simp: hub_inv_def split: if_splits)
next
  case (send t msg sub todo)
  then have "as_entry sub \<in> set (subs_of (world_of s))"
    using inv unfolding hub_inv_def by (metis list.set_intros(1))
  then show ?thesis
    using sendOne_safe [of "world_of s" sub msg] send inv
    by (fastforce simp: hub_inv_def perform_def split: if_splits)
next
  case (runlock t)
  then show ?thesis using inv by (auto simp: hub_inv_def split: if_splits)
next
  case (sd_begin t ord snap w)
  then have "world_ok w \<and> subs_of w = subs_of (world_of s)"
    using inv by (auto simp: shutdownBegin_def hub_inv_def world_ok_def tracked_ok_def subs_of_def
        split: option.splits)
  then show ?thesis using inv sd_begin by (auto simp: hub_inv_def)
next
  case (sd_finish t subs)
  then have "hub_inv (s\<lparr>shutdowns := (shutdowns s)(t \<mapsto> SdDone None)\<rparr>)"
    "unlocked (s\<lparr>shutdowns := (shutdowns s)(t \<mapsto> SdDone None)\<rparr>)"
    using inv by (simp_all add: hub_inv_def unlocked_def)
  moreover have "world_ok (world_of s)" using inv by (simp add: hub_inv_def)
  ultimately show ?thesis
    unfolding sd_finish(2) using shutdownFinish_safe [of "world_of s" subs]
    by (intro hub_inv_writer) simp_all
qed (use inv in \<open>auto simp: hub_inv_def\<close>)

interpretation hub_machine: machine "hub_init opts" hub_step hub_inv for opts
proof
  show "hub_inv s" if "hub_init opts s" for s
    using that by (auto simp: hub_init_def hub_inv_def initWorld_ok)
qed (auto simp: hub_step_def intro: hub_inv_step)

text \<open>
  C4. No interleaving makes the hub panic: with any number of goroutines subscribing,
  unsubscribing, broadcasting (each send a step of its own), receiving, closing, and shutting
  down at once, no send hits a closed channel and no channel is closed twice, and the hub's
  invariant holds at every moment.
\<close>

theorem hub_never_panics:
  assumes "reach (hub_init opts) hub_step s"
  shows "\<not> crashed s \<and> world_ok (world_of s)"
  using hub_machine.reach_inv [OF assms] by (simp add: hub_inv_def)

definition sample_sys :: "nat sys" where
  "sample_sys = \<lparr>world_of = initWorld [], readers = (\<lambda>t. None), shutdowns = (\<lambda>t. None), crashed = False\<rparr>"

definition sample_sys_busy :: "nat sys" where
  "sample_sys_busy =
     (let s = perform sample_sys (SubscribeFilter None (world_of sample_sys))
      in s\<lparr>readers := (readers s)(0 := Some (batch (\<lambda>_. rev) [4, 5] (subs_of (world_of s))))\<rparr>)"

lemma sample_sys_busy_reached: "reach (hub_init []) hub_step sample_sys_busy"
proof -
  have "reach (hub_init []) hub_step sample_sys"
    by (rule reach_start) (simp add: hub_init_def sample_sys_def)
  then have s: "reach (hub_init []) hub_step (perform sample_sys (SubscribeFilter None (world_of sample_sys)))"
    by (rule reach_step) (rule hub_stepI, rule hub_act.subscribe, simp add: sample_sys_def unlocked_def)
  show ?thesis
    unfolding sample_sys_busy_def Let_def
    by (rule reach_step [OF s], rule hub_stepI, rule hub_act.rlock)
      (simp_all add: sample_sys_def perform_def order_ok_samples)
qed

theorem hub_never_panics_witness: "\<not> crashed sample_sys_busy \<and> world_ok (world_of sample_sys_busy)"
  by (rule hub_never_panics [OF sample_sys_busy_reached])

end
