(* ===== verification/Topics.thy ===== *)
theory Topics
  imports HubMachine
begin

text \<open>
  What the hub promises its users, without channels, locks and snapshots: an abstract
  publish/subscribe service, and the refinement that every step of \<^const>\<open>hub_step\<close> is a step of
  that service.
\<close>

subsection \<open>The service\<close>

datatype phase = Accepting | Winding | Stopped

text \<open>
  \<open>handed\<close> counts the mailboxes given out, \<open>members\<close> are those still subscribed with what they
  want to get, and each mailbox holds its unread messages up to its room.
\<close>

record 'a pubsub =
  handed :: nat
  members :: "nat \<Rightarrow> ('a \<Rightarrow> bool) option"
  mailbox :: "nat \<Rightarrow> 'a list"
  room :: "nat \<Rightarrow> nat"
  phase_of :: phase

definition pubsub_start :: "'a pubsub \<Rightarrow> bool" where
  "pubsub_start p \<longleftrightarrow>
     p = \<lparr>handed = 0, members = (\<lambda>_. None), mailbox = (\<lambda>_. []), room = (\<lambda>_. 0), phase_of = Accepting\<rparr>"

inductive pubsub_step :: "'a pubsub \<Rightarrow> 'a pubsub \<Rightarrow> bool" where
  join: "phase_of p = Accepting \<Longrightarrow> 0 < n \<Longrightarrow>
    pubsub_step p (p\<lparr>handed := handed p + 1, members := (members p)(handed p \<mapsto> wants), room := (room p)(handed p := n)\<rparr>)"
| refuse: "phase_of p \<noteq> Accepting \<Longrightarrow> pubsub_step p (p\<lparr>handed := handed p + 1, room := (room p)(handed p := n)\<rparr>)"
| leave: "members p a \<noteq> None \<Longrightarrow> pubsub_step p (p\<lparr>members := (members p)(a := None)\<rparr>)"
| post: "members p a = Some wants \<Longrightarrow> wants m \<Longrightarrow> length (mailbox p a) < room p a \<Longrightarrow>
    pubsub_step p (p\<lparr>mailbox := (mailbox p)(a := mailbox p a @ [m])\<rparr>)"
| fetch: "mailbox p a = m # ms \<Longrightarrow> pubsub_step p (p\<lparr>mailbox := (mailbox p)(a := ms)\<rparr>)"
| wind: "phase_of p = Accepting \<Longrightarrow> pubsub_step p (p\<lparr>phase_of := Winding\<rparr>)"
| stop: "phase_of p \<noteq> Stopped \<Longrightarrow> pubsub_step p (p\<lparr>members := (\<lambda>_. None), phase_of := Stopped\<rparr>)"
| quiet: "pubsub_step p p"

subsection \<open>Abstraction\<close>

definition hub_phase :: "'a fanOut \<Rightarrow> phase" where
  "hub_phase f = (if subscribers f = None then Stopped else if draining f then Winding else Accepting)"

definition abs_world :: "'a world \<Rightarrow> 'a pubsub" where
  "abs_world w =
     \<lparr>handed = nxt w,
      members = (\<lambda>a. map_option accepts (map_of (subs_of w) a)),
      mailbox = (\<lambda>a. if a < nxt w then ch_buf (heap w a) else []),
      room = (\<lambda>a. if a < nxt w then ch_cap (heap w a) else 0),
      phase_of = hub_phase (hub w)\<rparr>"

text \<open>No channel is left open that the hub does not track any more.\<close>

definition no_orphan :: "'a world \<Rightarrow> bool" where
  "no_orphan w \<longleftrightarrow> (\<forall>a < nxt w. \<not> ch_closed (heap w a) \<longrightarrow> a \<in> fst ` set (subs_of w))"

text \<open>A hub that is closed stays closed, and one that is draining gets no new subscriber.\<close>

definition fades :: "'a world \<Rightarrow> 'a world \<Rightarrow> bool" where
  "fades w w' \<longleftrightarrow>
     (subscribers (hub w) = None \<longrightarrow> subscribers (hub w') = None) \<and>
     (draining (hub w) \<longrightarrow> subscribers (hub w') = None \<or>
        draining (hub w') \<and> fst ` set (subs_of w') \<subseteq> fst ` set (subs_of w))"

definition refined :: "'a world \<Rightarrow> 'a world \<Rightarrow> bool" where
  "refined w w' \<longleftrightarrow> fades w w' \<and> (no_orphan w \<longrightarrow> no_orphan w') \<and> pubsub_step (abs_world w) (abs_world w')"

lemma abs_world_same:
  assumes "nxt w' = nxt w" "subs_of w' = subs_of w" "hub_phase (hub w') = hub_phase (hub w)"
    "\<And>a. a < nxt w \<Longrightarrow> ch_buf (heap w' a) = ch_buf (heap w a) \<and> ch_cap (heap w' a) = ch_cap (heap w a)"
  shows "abs_world w' = abs_world w"
  using assms by (auto simp: abs_world_def fun_eq_iff)

subsection \<open>Each operation refines a step\<close>

lemma refined_setter:
  assumes "subscribers f = subscribers (hub w)" "draining f = draining (hub w)"
  shows "refined w (w\<lparr>hub := f\<rparr>)"
proof -
  have s: "subs_of (w\<lparr>hub := f\<rparr>) = subs_of w" using assms(1) by (simp add: subs_of_def)
  then have "abs_world (w\<lparr>hub := f\<rparr>) = abs_world w"
    using assms by (intro abs_world_same) (simp_all add: hub_phase_def)
  then show ?thesis using assms s by (auto simp: refined_def fades_def no_orphan_def intro: pubsub_step.quiet)
qed

lemma refined_refl: "refined w w"
  by (auto simp: refined_def fades_def intro: pubsub_step.quiet)

lemma refined_subscribe: assumes "world_ok w" shows "refined w (snd (SubscribeFilter pred w))"
proof (cases "open_hub w")
  case True
  let ?w = "after_subscribe pred w"
  have fresh: "map_of (subs_of w) (nxt w) = None"
    using world_okD(2) [OF assms] by (force simp: map_of_eq_None_iff)
  have subs: "subs_of ?w = subs_of w @ [(nxt w, \<lparr>sub_ch = nxt w, sub_pred = pred\<rparr>)]"
    by (simp add: after_subscribe_def subs_of_def)
  have n: "0 < nat (effectiveBufferSize (hub w))"
    by (simp add: effectiveBufferSize_def DefaultSubscriberBuffer_def)
  have "abs_world ?w = (abs_world w)\<lparr>handed := handed (abs_world w) + 1,
      members := (members (abs_world w))(handed (abs_world w) \<mapsto> accepts \<lparr>sub_ch = nxt w, sub_pred = pred\<rparr>),
      room := (room (abs_world w))(handed (abs_world w) := nat (effectiveBufferSize (hub w)))\<rparr>"
    using True fresh unfolding abs_world_def subs
    by (auto simp: fun_eq_iff after_subscribe_def makeChan_def map_add_def hub_phase_def open_hub_def
        less_Suc_eq split: option.splits)
  moreover have "phase_of (abs_world w) = Accepting"
    using True by (simp add: abs_world_def hub_phase_def open_hub_def)
  ultimately have "pubsub_step (abs_world w) (abs_world ?w)" using pubsub_step.join n by metis
  moreover have "no_orphan w \<longrightarrow> no_orphan ?w"
    unfolding no_orphan_def subs by (auto simp: after_subscribe_def less_Suc_eq)
  ultimately show ?thesis
    using True by (auto simp: refined_def fades_def SubscribeFilter_spec open_hub_def)
next
  case False
  let ?w = "after_refused w"
  have "abs_world ?w = (abs_world w)\<lparr>handed := handed (abs_world w) + 1,
      room := (room (abs_world w))(handed (abs_world w) := nat (effectiveBufferSize (hub w)))\<rparr>"
    by (auto simp: abs_world_def fun_eq_iff after_refused_def makeChan_def less_Suc_eq)
  moreover have "phase_of (abs_world w) \<noteq> Accepting"
    using False by (auto simp: abs_world_def hub_phase_def open_hub_def)
  ultimately have "pubsub_step (abs_world w) (abs_world ?w)" using pubsub_step.refuse by metis
  moreover have "no_orphan w \<longrightarrow> no_orphan ?w"
    by (auto simp: no_orphan_def after_refused_def less_Suc_eq)
  ultimately show ?thesis
    using False by (simp add: refined_def fades_def SubscribeFilter_spec) (simp add: after_refused_def)
qed

lemma map_of_untracked: "map_of (filter (\<lambda>(k', s). k' \<noteq> k) m) = (map_of m)(k := None)"
  by (induction m) (auto simp: fun_eq_iff)

lemma keys_untracked: "fst ` set (filter (\<lambda>(k', s). k' \<noteq> k) m) = fst ` set m - {k}"
  by force

lemma refined_unsubscribe: assumes "world_ok w" shows "refined w (snd (Unsubscribe k w))"
proof (cases "k \<in> fst ` set (subs_of w)")
  case False
  then show ?thesis using assms by (simp add: Unsubscribe_spec refined_refl)
next
  case True
  let ?cs = "calls w @ callback_calls CallUnsubscribe (onUnsubscribe (hub w))"
  let ?w = "(untrack k w)\<lparr>calls := ?cs\<rparr>"
  have subs: "subs_of ?w = filter (\<lambda>(k', s). k' \<noteq> k) (subs_of w)" by (simp add: subs_of_untrack)
  have ph: "hub_phase (deleteSub k (hub w)) = hub_phase (hub w)"
    by (simp add: hub_phase_def deleteSub_def)
  have "abs_world ?w = (abs_world w)\<lparr>members := (members (abs_world w))(k := None)\<rparr>"
    unfolding abs_world_def subs map_of_untracked by (auto simp: fun_eq_iff ph)
  moreover have "members (abs_world w) k \<noteq> None"
    using True by (auto simp: abs_world_def map_of_eq_None_iff)
  ultimately have "pubsub_step (abs_world w) (abs_world ?w)" using pubsub_step.leave by metis
  moreover have "no_orphan w \<longrightarrow> no_orphan ?w"
    unfolding no_orphan_def subs keys_untracked by auto
  ultimately show ?thesis
    using True assms unfolding refined_def fades_def
    by (auto simp: Unsubscribe_spec subs_of_untrack keys_untracked deleteSub_def)
qed

text \<open>Every tracked channel is closed and the hub has no subscriber map any more.\<close>

lemma refined_stopped:
  assumes "subscribers f = None"
    and "\<forall>a. heap w' a = (if a \<in> K then (heap w a)\<lparr>ch_closed := True\<rparr> else heap w a)"
    and "nxt w' = nxt w" "hub w' = f" "fst ` set (subs_of w) \<subseteq> K"
  shows "refined w w'"
proof -
  have subs: "subs_of w' = []" using assms(1,4) by (simp add: subs_of_def)
  have abs: "abs_world w' = (abs_world w)\<lparr>members := (\<lambda>_. None), phase_of := Stopped\<rparr>"
    using assms(1-4) subs by (auto simp: abs_world_def fun_eq_iff hub_phase_def)
  have "pubsub_step (abs_world w) (abs_world w')"
  proof (cases "phase_of (abs_world w) = Stopped")
    case True
    then have "subscribers (hub w) = None" by (simp add: abs_world_def hub_phase_def split: if_splits)
    then have "members (abs_world w) = (\<lambda>_. None)" by (simp add: abs_world_def subs_of_def)
    then have "abs_world w' = abs_world w" using abs True by (cases "abs_world w") simp
    then show ?thesis by (simp add: pubsub_step.quiet)
  next
    case False
    then show ?thesis unfolding abs by (rule pubsub_step.stop)
  qed
  moreover have "no_orphan w \<longrightarrow> no_orphan w'"
  proof
    assume "no_orphan w"
    then have "a \<in> K \<or> ch_closed (heap w a)" if "a < nxt w" for a
      using that assms(5) unfolding no_orphan_def by blast
    then show "no_orphan w'" using assms(2,3) by (auto simp: no_orphan_def)
  qed
  ultimately show ?thesis using assms(1,4) by (simp add: refined_def fades_def)
qed

lemma refined_close:
  assumes "world_ok w" "order_ok ord"
  shows "refined w (snd (Close ord w))"
  by (rule refined_stopped [where K = "set (map fst (subs_of w))" and f = "(hub w)\<lparr>subscribers := None\<rparr>"])
    (simp_all add: Close_spec [OF assms] close_chans_def)

lemma refined_finish:
  assumes "world_ok w" "subscribers (hub w) = None \<or> fst ` set (subs_of w) \<subseteq> sub_ch ` set subs"
  shows "refined w (snd (shutdownFinish subs w))"
proof -
  obtain f h where fh: "closeTracked subs w = (Ret (), w\<lparr>hub := f, heap := h\<rparr>)"
      "\<forall>a. h a = (if a \<in> sub_ch ` set subs \<and> a \<in> fst ` set (subs_of w)
        then (heap w a)\<lparr>ch_closed := True\<rparr> else heap w a)"
    using closeTracked_spec [OF assms(1)] by blast
  have "fst ` set (subs_of w) \<subseteq> sub_ch ` set subs" using assms(2) by (auto simp: subs_of_def)
  then show ?thesis
    using fh(2)
    by (intro refined_stopped [where K = "sub_ch ` set subs \<inter> fst ` set (subs_of w)"
        and f = "f\<lparr>subscribers := None, draining := False\<rparr>"])
      (auto simp: shutdownFinish_def fh(1))
qed

lemma refined_begin: "refined w (snd (shutdownBegin ord w))"
proof (cases "subscribers (hub w)")
  case None
  then show ?thesis by (simp add: shutdownBegin_def refined_refl)
next
  case (Some m)
  let ?w = "w\<lparr>hub := (hub w)\<lparr>draining := True\<rparr>\<rparr>"
  have subs: "subs_of ?w = subs_of w" by (simp add: subs_of_def)
  have abs: "abs_world ?w = (abs_world w)\<lparr>phase_of := Winding\<rparr>"
    using Some subs by (auto simp: abs_world_def hub_phase_def fun_eq_iff)
  have "pubsub_step (abs_world w) (abs_world ?w)"
  proof (cases "draining (hub w)")
    case True
    then have "abs_world ?w = abs_world w" using abs Some by (simp add: abs_world_def hub_phase_def)
    then show ?thesis by (simp add: pubsub_step.quiet)
  next
    case False
    then show ?thesis unfolding abs by (intro pubsub_step.wind) (simp add: abs_world_def hub_phase_def Some)
  qed
  then show ?thesis using Some subs by (simp add: shutdownBegin_def refined_def fades_def no_orphan_def)
qed

lemma refined_heap:
  assumes "nxt w' = nxt w" "hub w' = hub w" "\<And>a. ch_closed (heap w' a) = ch_closed (heap w a)"
    and "pubsub_step (abs_world w) (abs_world w')"
  shows "refined w w'"
  using assms by (simp add: refined_def fades_def no_orphan_def subs_of_def)

lemma refined_receive:
  assumes "recvAt a w = Some (v, w')"
  shows "refined w w'"
proof -
  note w' = recv_heap [OF assms]
  have "pubsub_step (abs_world w) (abs_world w')"
  proof (cases "a < nxt w \<and> ch_buf (heap w a) \<noteq> []")
    case True
    then obtain m ms where m: "ch_buf (heap w a) = m # ms" by (cases "ch_buf (heap w a)") auto
    then have "abs_world w' = (abs_world w)\<lparr>mailbox := (mailbox (abs_world w))(a := ms)\<rparr>"
      using True unfolding w' by (auto simp: abs_world_def fun_eq_iff)
    moreover have "mailbox (abs_world w) a = m # ms" using True m by (simp add: abs_world_def)
    ultimately show ?thesis using pubsub_step.fetch by metis
  next
    case False
    then have "abs_world w' = abs_world w"
      unfolding w' by (intro abs_world_same) (auto simp: hub_phase_def)
    then show ?thesis by (simp add: pubsub_step.quiet)
  qed
  then show ?thesis unfolding w' by (intro refined_heap) simp_all
qed

lemma refined_send:
  assumes "world_ok w" "as_entry sub \<in> set (subs_of w)"
  shows "refined w (snd (sendOne msg sub w))"
proof -
  let ?k = "sub_ch sub"
  let ?w = "snd (sendOne msg sub w)"
  have k: "(?k, sub) \<in> set (subs_of w)" using assms(2) by (simp add: as_entry_def)
  then have open_k: "\<not> ch_closed (heap w ?k)" "?k < nxt w" using world_okD(2) [OF assms(1)] by blast+
  have w: "heap ?w = (heap w)(?k := if accepts sub msg then offer msg (heap w ?k) else heap w ?k)"
      "nxt ?w = nxt w" "hub ?w = hub w"
    by (simp_all add: sendOne_spec [OF refl open_k(1)])
  have subs: "subs_of ?w = subs_of w" using w(3) by (simp add: subs_of_def)
  have "map_of (subs_of w) ?k = Some sub" using k world_okD(1) [OF assms(1)] by simp
  then have mem: "members (abs_world w) ?k = Some (accepts sub)" by (simp add: abs_world_def)
  have "pubsub_step (abs_world w) (abs_world ?w)"
  proof (cases "accepts sub msg \<and> length (ch_buf (heap w ?k)) < ch_cap (heap w ?k)")
    case True
    then have "abs_world ?w = (abs_world w)\<lparr>mailbox := (mailbox (abs_world w))(?k := mailbox (abs_world w) ?k @ [msg])\<rparr>"
      using open_k w subs by (auto simp: abs_world_def fun_eq_iff offer_def trySend_def)
    moreover have "length (mailbox (abs_world w) ?k) < room (abs_world w) ?k"
      using True open_k(2) by (simp add: abs_world_def)
    ultimately show ?thesis using pubsub_step.post [OF mem] True by metis
  next
    case False
    then have "heap ?w = heap w" using w(1) open_k(1) by (auto simp: offer_def trySend_def)
    then have "abs_world ?w = abs_world w" using w subs by (intro abs_world_same) simp_all
    then show ?thesis by (simp add: pubsub_step.quiet)
  qed
  then show ?thesis using w by (intro refined_heap) (simp_all add: offer_closed)
qed

subsection \<open>The refinement\<close>

text \<open>The subscribers a shutdown under way has to wait for.\<close>

fun snapshot_of :: "'a sd_pc \<Rightarrow> 'a subscriber list option" where
  "snapshot_of (SdCount subs todo n) = Some subs"
| "snapshot_of (SdWait subs n) = Some subs"
| "snapshot_of (SdClose subs) = Some subs"
| "snapshot_of (SdDone e) = None"

definition covered :: "'a world \<Rightarrow> 'a subscriber list \<Rightarrow> bool" where
  "covered w subs \<longleftrightarrow> subscribers (hub w) = None \<or>
     draining (hub w) \<and> fst ` set (subs_of w) \<subseteq> sub_ch ` set subs"

definition snapshots :: "'a sys \<Rightarrow> 'a subscriber list set" where
  "snapshots s = {subs. \<exists>t pc. shutdowns s t = Some pc \<and> snapshot_of pc = Some subs}"

definition topics_inv :: "'a sys \<Rightarrow> bool" where
  "topics_inv s \<longleftrightarrow> hub_inv s \<and> no_orphan (world_of s) \<and> (\<forall>subs \<in> snapshots s. covered (world_of s) subs)"

lemma covered_fades:
  assumes "fades w w'" "covered w subs"
  shows "covered w' subs"
proof (cases "subscribers (hub w) = None \<or> subscribers (hub w') = None")
  case True
  then show ?thesis using assms(1) by (auto simp: fades_def covered_def)
next
  case False
  then have "fst ` set (subs_of w') \<subseteq> fst ` set (subs_of w)" "fst ` set (subs_of w) \<subseteq> sub_ch ` set subs"
      "draining (hub w')"
    using assms unfolding fades_def covered_def by metis+
  then show ?thesis unfolding covered_def by (meson subset_trans)
qed

lemma covered_begin:
  assumes "world_ok w" "order_ok ord" "shutdownBegin ord w = (Some subs, w')"
  shows "covered w' subs"
proof -
  obtain m where m: "subscribers (hub w) = Some m" "subs = map snd (ord m)"
      "w' = w\<lparr>hub := (hub w)\<lparr>draining := True\<rparr>\<rparr>"
    using assms(3) by (auto simp: shutdownBegin_def split: option.splits)
  have "k \<in> sub_ch ` snd ` set (ord m)" if "(k, s) \<in> set m" for k s
    using that world_okD(2) [OF assms(1), of k s] order_okD(1) [OF assms(2)] m(1)
    by (force simp: subs_of_def)
  then show ?thesis using m by (auto simp: covered_def subs_of_def)
qed

lemma snapshots_update:
  assumes "snapshots s' \<subseteq> insert subs (snapshots s)"
    "topics_inv s" "refined (world_of s) (world_of s')" "covered (world_of s') subs" "hub_inv s'"
  shows "topics_inv s'"
  using assms covered_fades by (fastforce simp: topics_inv_def refined_def)

lemma snapshots_same:
  assumes "snapshots s' \<subseteq> snapshots s" "topics_inv s" "refined (world_of s) (world_of s')" "hub_inv s'"
  shows "topics_inv s'"
  using assms covered_fades by (fastforce simp: topics_inv_def refined_def)

lemma snapshots_pc:
  assumes "shutdowns s t = Some pc" "\<And>subs. snapshot_of pc' = Some subs \<Longrightarrow> snapshot_of pc = Some subs"
  shows "snapshots (s\<lparr>shutdowns := (shutdowns s)(t := Some pc')\<rparr>) \<subseteq> snapshots s"
  using assms by (auto simp: snapshots_def split: if_splits)

lemma snapshots_simps [simp]:
  "snapshots (s\<lparr>world_of := w\<rparr>) = snapshots s" "snapshots (perform s res) = snapshots s"
  "snapshots (s\<lparr>readers := r\<rparr>) = snapshots s" "world_of (perform s res) = snd res"
  by (simp_all add: snapshots_def perform_def)

text \<open>One step of the machine: the world refines, and no snapshot appears that is not covered.\<close>

lemma hub_step_refined:
  assumes inv: "topics_inv s" and "hub_step s s'"
  shows "refined (world_of s) (world_of s') \<and> topics_inv s'"
proof -
  obtain act where step: "hub_act s act s'" using assms(2) by (auto simp: hub_step_def)
  have ok: "world_ok (world_of s)" and hub: "hub_inv s'" and "hub_inv s"
    using inv hub_inv_step [OF _ step] by (simp_all add: topics_inv_def hub_inv_def)
  have same: ?thesis if "refined (world_of s) (world_of s')" "snapshots s' \<subseteq> snapshots s"
    using snapshots_same [OF that(2) inv that(1) hub] that(1) by simp
  from step show ?thesis
  proof (cases rule: hub_act.cases)
    case (subscribe pred)
    then show ?thesis using same refined_subscribe [OF ok] by simp
  next
    case (unsubscribe a)
    then show ?thesis using same refined_unsubscribe [OF ok] by simp
  next
    case (close ord)
    then show ?thesis using same refined_close [OF ok close(4)] by simp
  next
    case (receive a v w)
    then show ?thesis using same refined_receive [OF receive(3)] by simp
  next
    case (send t msg sub todo)
    then have "as_entry sub \<in> set (subs_of (world_of s))"
      using \<open>hub_inv s\<close> unfolding hub_inv_def by (metis list.set_intros(1))
    then show ?thesis using send same refined_send [OF ok] by simp
  next
    case (sd_begin t ord snap w)
    then have r: "refined (world_of s) (world_of s')" using refined_begin [of "world_of s" ord] by simp
    show ?thesis
    proof (cases snap)
      case None
      then have "snapshots s' \<subseteq> snapshots s" using sd_begin by (auto simp: snapshots_def split: if_splits)
      then show ?thesis using same r by simp
    next
      case (Some subs)
      then have "snapshots s' \<subseteq> insert subs (snapshots s)"
        using sd_begin by (auto simp: snapshots_def split: if_splits)
      moreover have "covered (world_of s') subs"
        using covered_begin [OF ok sd_begin(5)] sd_begin Some by simp
      ultimately show ?thesis using snapshots_update [OF _ inv r _ hub] r by simp
    qed
  next
    case (sd_finish t subs)
    then have "subs \<in> snapshots s" by (force simp: snapshots_def)
    then have "covered (world_of s) subs" using inv by (simp add: topics_inv_def)
    then have "refined (world_of s) (snd (shutdownFinish subs (world_of s)))"
      by (intro refined_finish [OF ok]) (auto simp: covered_def)
    then show ?thesis
      using same sd_finish snapshots_pc [OF sd_finish(3), of "SdDone None"] by simp
  next
    case (sd_count t subs sub subs' n)
    have "snapshots s' \<subseteq> snapshots s" unfolding sd_count(2) by (rule snapshots_pc [OF sd_count(3)]) simp
    then show ?thesis using same sd_count(2) by (simp add: refined_refl)
  next
    case (sd_counted t subs n)
    have "snapshots s' \<subseteq> snapshots s"
      unfolding sd_counted(2) by (rule snapshots_pc [OF sd_counted(3)]) (simp split: if_splits)
    then show ?thesis using same sd_counted(2) by (simp add: refined_refl)
  next
    case (sd_tick t subs n)
    have "snapshots s' \<subseteq> snapshots s" unfolding sd_tick(2) by (rule snapshots_pc [OF sd_tick(3)]) simp
    then show ?thesis using same sd_tick(2) by (simp add: refined_refl)
  next
    case (sd_cancel t subs n e)
    have "snapshots s' \<subseteq> snapshots s" unfolding sd_cancel(2) by (rule snapshots_pc [OF sd_cancel(3)]) simp
    then show ?thesis using same sd_cancel(2) by (simp add: refined_refl)
  qed (use same in \<open>simp_all add: refined_refl refined_setter OnDrop_def OnSubscribe_def OnUnsubscribe_def\<close>)
qed

lemma topics_start:
  assumes "hub_init opts s"
  shows "topics_inv s" "pubsub_start (abs_world (world_of s))"
proof -
  have s: "s = \<lparr>world_of = initWorld opts, readers = (\<lambda>t. None), shutdowns = (\<lambda>t. None), crashed = False\<rparr>"
    and f: "subscribers (newFanOut opts) = Some []" "\<not> draining (newFanOut opts)"
    using assms newFanOut_subscribers [of opts] by (auto simp: hub_init_def)
  show "topics_inv s"
    using hub_machine.init_inv [OF assms] s
    by (simp add: topics_inv_def snapshots_def no_orphan_def initWorld_def)
  show "pubsub_start (abs_world (world_of s))"
    using f s by (simp add: pubsub_start_def abs_world_def initWorld_def NewBroadcaster_def subs_of_def hub_phase_def)
qed

interpretation topics_machine: machine "hub_init opts" hub_step topics_inv for opts
  by unfold_locales (auto dest: topics_start(1) hub_step_refined)

text \<open>
  C6. The concurrent hub implements a publish/subscribe service: in every reachable state of the
  goroutines sharing a hub, the abstract state is one the service can reach, and each further
  step of a goroutine is a step of the service (join, refuse, leave, post, fetch, wind down,
  stop) or leaves it unchanged. A consumer sees the end of its channel exactly when it is no
  longer a member: no subscriber is cut off while subscribed, and none is left waiting on a
  channel that the hub has forgotten, shutdowns cut short by their deadline included.
\<close>

theorem hub_refines_pubsub:
  assumes "reach (hub_init opts) hub_step s"
  shows "reach pubsub_start pubsub_step (abs_world (world_of s)) \<and>
    (\<forall>s'. hub_step s s' \<longrightarrow> pubsub_step (abs_world (world_of s)) (abs_world (world_of s'))) \<and>
    (\<forall>a < nxt (world_of s). ch_closed (heap (world_of s) a) \<longleftrightarrow> members (abs_world (world_of s)) a = None)"
proof -
  have inv: "topics_inv s" by (rule topics_machine.reach_inv [OF assms])
  have "reach pubsub_start pubsub_step (abs_world (world_of s))"
    using assms
  proof (induction rule: reach.induct)
    case (reach_start s)
    then show ?case using topics_start(2) by (intro reach.reach_start)
  next
    case (reach_step s s')
    then show ?case
      using hub_step_refined [OF topics_machine.reach_inv [OF reach_step.hyps(1)]]
      by (auto simp: refined_def intro: reach.reach_step)
  qed
  moreover have "ch_closed (heap (world_of s) a) \<longleftrightarrow> members (abs_world (world_of s)) a = None"
    if "a < nxt (world_of s)" for a
  proof -
    have "a \<in> fst ` set (subs_of (world_of s)) \<Longrightarrow> \<not> ch_closed (heap (world_of s) a)"
      using inv world_okD(2) [of "world_of s"] by (auto simp: topics_inv_def hub_inv_def)
    then show ?thesis
      using inv that by (auto simp: topics_inv_def no_orphan_def abs_world_def map_of_eq_None_iff)
  qed
  ultimately show ?thesis using hub_step_refined [OF inv] by (simp add: refined_def)
qed

theorem hub_refines_pubsub_witness:
  "reach pubsub_start pubsub_step (abs_world (world_of sample_sys_busy))"
  using hub_refines_pubsub [OF sample_sys_busy_reached] by (elim conjE)

end
