(* ===== verification/Ordering.thy ===== *)
theory Ordering
  imports Topics "HOL-Library.Sublist"
begin

text \<open>
  The order in which subscribers see messages while any number of goroutines broadcast at once:
  runs of the machine with what an observer sees of each step, and the histories of a channel
  and of a broadcasting goroutine.
\<close>

subsection \<open>Runs and histories\<close>

inductive hub_run :: "'a sys \<Rightarrow> 'a act list \<Rightarrow> 'a sys \<Rightarrow> bool" where
  run_nil: "hub_run s [] s"
| run_snoc: "hub_run s acts s' \<Longrightarrow> hub_act s' act s'' \<Longrightarrow> hub_run s (acts @ [act]) s''"

text \<open>The messages a run shows under a view of its actions.\<close>

definition seen :: "('a act \<Rightarrow> 'a list) \<Rightarrow> 'a act list \<Rightarrow> 'a list" where
  "seen view acts = concat (map view acts)"

lemma seen_simps [simp]:
  "seen view [] = []" "seen view (acts @ [act]) = seen view acts @ view act"
  by (simp_all add: seen_def)

text \<open>
  What channel \<open>a\<close> took, what its consumers got out of it, what goroutine \<open>t\<close> tried to send to it
  and succeeded in sending to it, and what \<open>t\<close> was asked to broadcast while \<open>a\<close> was subscribed.
\<close>

fun taken_by :: "nat \<Rightarrow> 'a act \<Rightarrow> 'a list" where
  "taken_by a (ASend t m sub ok) = (if sub_ch sub = a \<and> ok then [m] else [])"
| "taken_by a _ = []"

fun got_from :: "nat \<Rightarrow> 'a act \<Rightarrow> 'a list" where
  "got_from a (ARecv b (Some m)) = (if b = a then [m] else [])"
| "got_from a _ = []"

fun tried_by :: "nat \<Rightarrow> nat \<Rightarrow> 'a act \<Rightarrow> 'a list" where
  "tried_by t a (ASend t' m sub ok) = (if t' = t \<and> sub_ch sub = a then [m] else [])"
| "tried_by t a _ = []"

fun sent_by :: "nat \<Rightarrow> nat \<Rightarrow> 'a act \<Rightarrow> 'a list" where
  "sent_by t a (ASend t' m sub ok) = (if t' = t \<and> sub_ch sub = a \<and> ok then [m] else [])"
| "sent_by t a _ = []"

fun posted_by :: "nat \<Rightarrow> nat \<Rightarrow> 'a act \<Rightarrow> 'a list" where
  "posted_by t a (ARLock t' msgs tracked) = (if t' = t \<and> a \<in> set tracked then msgs else [])"
| "posted_by t a _ = []"

lemma sent_subseq_tried: "subseq (seen (sent_by t a) acts) (seen (tried_by t a) acts)"
proof (induction acts rule: rev_induct)
  case (snoc act acts)
  have "subseq (sent_by t a act) (tried_by t a act)" by (cases act) auto
  then show ?case using snoc by (simp add: list_emb_append_mono)
qed simp

lemma sent_all_tried:
  "(\<forall>m sub. sub_ch sub = a \<longrightarrow> ASend t m sub False \<notin> set acts) \<Longrightarrow>
   seen (sent_by t a) acts = seen (tried_by t a) acts"
proof (induction acts rule: rev_induct)
  case (snoc act acts)
  then have "sent_by t a act = tried_by t a act" by (cases act) auto
  then show ?case using snoc by simp
qed simp

subsection \<open>What a batch has still to send\<close>

definition due :: "nat \<Rightarrow> ('a \<times> 'a subscriber) list option \<Rightarrow> 'a list" where
  "due a r = (case r of None \<Rightarrow> [] | Some todo \<Rightarrow> map fst (filter (\<lambda>(m, sub). sub_ch sub = a) todo))"

lemma due_simps [simp]:
  "due a None = []" "due a (Some []) = []"
  "due a (Some ((m, sub) # todo)) = (if sub_ch sub = a then m # due a (Some todo) else due a (Some todo))"
  by (simp_all add: due_def)

lemma due_append: "due a (Some (xs @ ys)) = due a (Some xs) @ due a (Some ys)"
  by (simp add: due_def)

lemma due_round:
  assumes "distinct (map fst m)" "\<forall>(k, sub) \<in> set m. sub_ch sub = k"
  shows "due a (Some (map (\<lambda>(k, sub). (msg, sub)) m)) = (if a \<in> fst ` set m then [msg] else [])"
  using assms
proof (induction m)
  case (Cons x m)
  obtain k sub where x: "x = (k, sub)" by force
  then show ?case using Cons by auto
qed simp

lemma due_batch:
  assumes "world_ok w" "\<forall>i. order_ok (ords i)"
  shows "due a (Some (batch ords msgs (subs_of w))) = (if a \<in> fst ` set (subs_of w) then msgs else [])"
  using assms(2)
proof (induction msgs arbitrary: ords)
  case (Cons msg msgs)
  let ?m = "ords 0 (subs_of w)"
  have m: "set ?m = set (subs_of w)" "distinct (map fst ?m)"
    using order_okD [of "ords 0"] Cons.prems world_okD(1) [OF assms(1)] by auto
  then have "due a (Some (map (\<lambda>(k, sub). (msg, sub)) ?m)) = (if a \<in> fst ` set ?m then [msg] else [])"
    using world_okD(2) [OF assms(1)] by (intro due_round) auto
  then show ?case using Cons.IH [of "\<lambda>i. ords (i + 1)"] Cons.prems m by (simp add: due_append)
qed simp

subsection \<open>Buffers change only by sends and receives\<close>

text \<open>No buffer changes, and none exists at an address not handed out yet.\<close>

definition same_bufs :: "'a world \<Rightarrow> 'a world \<Rightarrow> bool" where
  "same_bufs w w' \<longleftrightarrow> (\<forall>a. ch_buf (heap w' a) = ch_buf (heap w a)) \<and> nxt w \<le> nxt w'"

definition fresh_empty :: "'a world \<Rightarrow> bool" where
  "fresh_empty w \<longleftrightarrow> (\<forall>a \<ge> nxt w. ch_buf (heap w a) = [])"

lemma same_bufs_fresh: "same_bufs w w' \<Longrightarrow> fresh_empty w \<Longrightarrow> fresh_empty w'"
  by (simp add: same_bufs_def fresh_empty_def)

lemma same_bufs_subscribe: "fresh_empty w \<Longrightarrow> same_bufs w (snd (SubscribeFilter pred w))"
  by (simp add: SubscribeFilter_spec same_bufs_def fresh_empty_def after_subscribe_def after_refused_def
      makeChan_def)

lemma same_bufs_unsubscribe: "world_ok w \<Longrightarrow> same_bufs w (snd (Unsubscribe a w))"
  by (simp add: Unsubscribe_spec same_bufs_def)

lemma same_bufs_close: "world_ok w \<Longrightarrow> order_ok ord \<Longrightarrow> same_bufs w (snd (Close ord w))"
  by (simp add: Close_spec same_bufs_def close_chans_def)

lemma same_bufs_setters:
  "same_bufs w (OnDrop fn w)" "same_bufs w (OnSubscribe cb w)" "same_bufs w (OnUnsubscribe cb w)"
  "same_bufs w w" "same_bufs w (snd (shutdownBegin ord w))"
  by (simp_all add: same_bufs_def OnDrop_def OnSubscribe_def OnUnsubscribe_def shutdownBegin_def
      split: option.splits)

lemma same_bufs_finish:
  assumes "world_ok w"
  shows "same_bufs w (snd (shutdownFinish subs w))"
proof -
  obtain f h where fh: "closeTracked subs w = (Ret (), w\<lparr>hub := f, heap := h\<rparr>)"
      "\<forall>a. h a = (if a \<in> sub_ch ` set subs \<and> a \<in> fst ` set (subs_of w)
        then (heap w a)\<lparr>ch_closed := True\<rparr> else heap w a)"
    using closeTracked_spec [OF assms, of subs] by blast
  then show ?thesis by (simp add: shutdownFinish_def same_bufs_def)
qed

text \<open>The actions no history records: those of goroutines that neither send nor receive.\<close>

fun silent :: "'a act \<Rightarrow> bool" where
  "silent AWrite \<longleftrightarrow> True" | "silent (AShut t) \<longleftrightarrow> True" | "silent (ACancel t) \<longleftrightarrow> True"
| "silent _ \<longleftrightarrow> False"

lemma silent_views [simp]:
  assumes "silent act"
  shows "taken_by a act = []" "got_from a act = []" "tried_by t a act = []" "sent_by t a act = []"
    "posted_by t a act = []"
  using assms by (cases act; simp)+

lemma silent_keeps:
  assumes "hub_inv s" "fresh_empty (world_of s)" "hub_act s act s'" "silent act"
  shows "same_bufs (world_of s) (world_of s') \<and> readers s' = readers s"
  using assms(3)
proof (cases rule: hub_act.cases)
  case (sd_begin t ord snap w)
  then show ?thesis using same_bufs_setters(5) [of "world_of s" ord] by simp
qed (use assms in \<open>auto simp: hub_inv_def perform_def same_bufs_subscribe same_bufs_unsubscribe
      same_bufs_close same_bufs_setters same_bufs_finish\<close>)

subsection \<open>The histories of a run\<close>

definition fifo :: "'a act list \<Rightarrow> 'a sys \<Rightarrow> bool" where
  "fifo acts s \<longleftrightarrow> (\<forall>a. seen (taken_by a) acts = seen (got_from a) acts @ ch_buf (heap (world_of s) a)) \<and>
     (\<forall>t a. seen (tried_by t a) acts @ due a (readers s t) = seen (posted_by t a) acts) \<and>
     fresh_empty (world_of s)"

lemma fifo_readers:
  "fifo acts s \<Longrightarrow> readers s t = r \<Longrightarrow> seen (tried_by t a) acts @ due a r = seen (posted_by t a) acts"
  by (auto simp: fifo_def)

lemma fifo_silent:
  assumes "hub_inv s" "fifo acts s" "hub_act s act s'" "silent act"
  shows "fifo (acts @ [act]) s'"
proof -
  have f: "fresh_empty (world_of s)" using assms(2) by (simp add: fifo_def)
  note k = silent_keeps [OF assms(1) f assms(3,4)]
  then show ?thesis
    using assms(2,4) same_bufs_fresh [OF _ f] by (simp add: fifo_def) (simp add: same_bufs_def)
qed

lemma fifo_receive:
  assumes "fifo acts s" "recvAt a (world_of s) = Some (v, w)"
  shows "fifo (acts @ [ARecv a v]) (s\<lparr>world_of := w\<rparr>)"
proof -
  have w: "w = (world_of s)\<lparr>heap := (heap (world_of s))(a := (heap (world_of s) a)
      \<lparr>ch_buf := tl (ch_buf (heap (world_of s) a))\<rparr>)\<rparr>"
    by (rule recv_heap [OF assms(2)])
  have "ch_buf (heap (world_of s) a) = got_from a (ARecv a v) @ tl (ch_buf (heap (world_of s) a))"
    using assms(2) by (auto simp: recvAt_def recvChan_def split: list.splits if_splits)
  moreover have "got_from b (ARecv a v) = []" if "b \<noteq> a" for b using that by (cases v) auto
  ultimately have "ch_buf (heap (world_of s) b) = got_from b (ARecv a v) @ ch_buf (heap w b)" for b
    unfolding w by (cases "b = a") simp_all
  moreover have "fresh_empty w" using assms(1) unfolding w by (simp add: fifo_def fresh_empty_def)
  ultimately show ?thesis using assms(1) by (simp add: fifo_def)
qed

lemma fifo_send:
  assumes inv: "hub_inv s" and fifo: "fifo acts s" and r: "readers s t = Some ((msg, sub) # todo)"
  shows "fifo (acts @ [ASend t msg sub (accepts sub msg \<and> has_room sub (world_of s))])
    (perform (s\<lparr>readers := (readers s)(t := Some todo)\<rparr>) (sendOne msg sub (world_of s)))"
proof -
  let ?w = "world_of s"
  have "as_entry sub \<in> set (subs_of ?w)"
    using inv r unfolding hub_inv_def by (metis list.set_intros(1))
  then have open_ch: "\<not> ch_closed (heap ?w (sub_ch sub))" and lt: "sub_ch sub < nxt ?w"
    using inv world_okD(2) [of ?w "sub_ch sub" sub] by (simp_all add: hub_inv_def as_entry_def)
  note one = sendOne_spec [OF refl open_ch, of msg]
  have "ch_buf (offer msg (heap ?w (sub_ch sub))) =
      (if has_room sub ?w then ch_buf (heap ?w (sub_ch sub)) @ [msg] else ch_buf (heap ?w (sub_ch sub)))"
    using open_ch by (simp add: chanq.push_contents has_room_def)
  then have buf: "ch_buf (heap (snd (sendOne msg sub ?w)) a) = ch_buf (heap ?w a) @
      taken_by a (ASend t msg sub (accepts sub msg \<and> has_room sub ?w))" for a
    unfolding one by simp
  have n: "nxt (snd (sendOne msg sub ?w)) = nxt ?w" unfolding one by simp
  have "seen (tried_by t' a) acts @ tried_by t' a (ASend t msg sub ok) @
      due a (if t' = t then Some todo else readers s t') = seen (posted_by t' a) acts" for t' a ok
    using fifo_readers [OF fifo r, of a] fifo_readers [OF fifo refl, of t' a] by auto
  then show ?thesis
    using fifo lt n by (auto simp: fifo_def perform_def buf fresh_empty_def)
qed

lemma fifo_step:
  assumes inv: "hub_inv s" and fifo: "fifo acts s" and step: "hub_act s act s'"
  shows "fifo (acts @ [act]) s'"
proof (cases "silent act")
  case True
  then show ?thesis using fifo_silent [OF assms] by simp
next
  case False
  have ok: "world_ok (world_of s)" using inv by (simp add: hub_inv_def)
  from step False show ?thesis
  proof (cases rule: hub_act.cases)
    case (receive a v w)
    then show ?thesis using fifo_receive [OF fifo] by simp
  next
    case (rlock t ords msgs)
    then show ?thesis
      using fifo due_batch [OF ok rlock(4)] fifo_readers [OF fifo rlock(3)] by (auto simp: fifo_def)
  next
    case (send t msg sub todo)
    then show ?thesis using fifo_send [OF inv fifo] by simp
  next
    case (runlock t)
    then show ?thesis using fifo fifo_readers [OF fifo runlock(3)] by (auto simp: fifo_def)
  qed simp_all
qed

lemma hub_run_inv:
  assumes "hub_run s acts s'" "hub_inv s"
  shows "hub_inv s'"
  using assms by (induction rule: hub_run.induct) (auto intro: hub_inv_step)

lemma hub_run_fifo:
  assumes "hub_run s acts s'" "hub_init opts s"
  shows "fifo acts s'"
  using assms
proof (induction rule: hub_run.induct)
  case (run_nil s)
  then show ?case by (auto simp: hub_init_def fifo_def initWorld_def makeChan_def fresh_empty_def)
next
  case (run_snoc s acts s' act s'')
  then show ?case using hub_run_inv hub_machine.init_inv fifo_step by metis
qed

text \<open>
  C7. Messages keep their order while any number of goroutines broadcast, subscribe, leave and
  shut the hub down at once. A channel gives its consumers exactly the messages it took, in the
  order it took them: those received so far followed by those still buffered. Of what one
  goroutine broadcasts, in one batch or in several calls, a subscriber gets a subsequence in
  the order of the calls and batches; once that goroutine is outside \<open>Broadcast\<close>, each of these
  messages has been tried on the subscriber exactly once; and if no try was refused (by the
  predicate or for want of room), the subscriber's channel took them all.
\<close>

theorem subscriber_order:
  assumes "hub_init opts s0" "hub_run s0 acts s"
  shows "seen (taken_by a) acts = seen (got_from a) acts @ ch_buf (heap (world_of s) a) \<and>
    subseq (seen (sent_by t a) acts) (seen (posted_by t a) acts) \<and>
    (readers s t = None \<longrightarrow> seen (tried_by t a) acts = seen (posted_by t a) acts) \<and>
    (readers s t = None \<longrightarrow> (\<forall>m sub. sub_ch sub = a \<longrightarrow> ASend t m sub False \<notin> set acts) \<longrightarrow>
       seen (sent_by t a) acts = seen (posted_by t a) acts)"
proof -
  note f = hub_run_fifo [OF assms(2,1)]
  have tried: "seen (tried_by t a) acts @ due a (readers s t) = seen (posted_by t a) acts"
    by (rule fifo_readers [OF f refl])
  then have "subseq (seen (tried_by t a) acts) (seen (posted_by t a) acts)"
    by (metis list_emb_append_mono list_emb_Nil append_Nil2 subseq_order.refl)
  then have "subseq (seen (sent_by t a) acts) (seen (posted_by t a) acts)"
    by (rule subseq_order.trans [OF sent_subseq_tried])
  moreover have "readers s t = None \<longrightarrow> seen (tried_by t a) acts = seen (posted_by t a) acts"
    using tried by auto
  ultimately show ?thesis
    using f sent_all_tried [of a t acts] by (simp add: fifo_def)
qed

subsection \<open>A broadcast on its own\<close>

lemma hub_run_trans: "hub_run s' acts' s2 \<Longrightarrow> hub_run s acts s' \<Longrightarrow> hub_run s (acts @ acts') s2"
proof (induction rule: hub_run.induct)
  case (run_snoc s' acts' s2 act s3)
  then show ?case using hub_run.run_snoc [of s "acts @ acts'"] by simp
qed simp

lemma hub_run_one: "hub_act s act s' \<Longrightarrow> hub_run s [act] s'"
  using hub_run.run_snoc [OF hub_run.run_nil] by fastforce

lemma hub_run_Cons: "hub_act s act s' \<Longrightarrow> hub_run s' acts s2 \<Longrightarrow> hub_run s (act # acts) s2"
  using hub_run_trans [OF _ hub_run_one] by fastforce

lemma hub_run_reach: "hub_run s acts s' \<Longrightarrow> reach init hub_step s \<Longrightarrow> reach init hub_step s'"
  by (induction rule: hub_run.induct) (auto intro: reach_step hub_stepI)

text \<open>The sends of a goroutine that nobody interrupts, and the actions they show.\<close>

fun sends :: "('a \<times> 'a subscriber) list \<Rightarrow> 'a world \<Rightarrow> 'a world" where
  "sends [] w = w"
| "sends ((msg, sub) # todo) w = sends todo (snd (sendOne msg sub w))"

fun acts_of :: "nat \<Rightarrow> ('a \<times> 'a subscriber) list \<Rightarrow> 'a world \<Rightarrow> 'a act list" where
  "acts_of t [] w = [ARUnlock t]"
| "acts_of t ((msg, sub) # todo) w = ASend t msg sub (accepts sub msg \<and> has_room sub w) #
     acts_of t todo (snd (sendOne msg sub w))"

lemma reader_finishes:
  assumes "hub_inv s" "readers s t = Some todo"
  shows "hub_run s (acts_of t todo (world_of s))
    (s\<lparr>world_of := sends todo (world_of s), readers := (readers s)(t := None)\<rparr>)"
  using assms
proof (induction todo arbitrary: s)
  case Nil
  have "s\<lparr>world_of := sends [] (world_of s), readers := r\<rparr> = s\<lparr>readers := r\<rparr>" for r by simp
  then show ?case using hub_run_one [OF hub_act.runlock [OF Nil(2)]] by (simp only: acts_of.simps)
next
  case (Cons x todo)
  obtain msg sub where x: "x = (msg, sub)" by force
  let ?s = "perform (s\<lparr>readers := (readers s)(t := Some todo)\<rparr>) (sendOne msg sub (world_of s))"
  have step: "hub_act s (ASend t msg sub (accepts sub msg \<and> has_room sub (world_of s))) ?s"
    using Cons.prems(2) x by (intro hub_act.send) simp
  have inv: "hub_inv ?s" by (rule hub_inv_step [OF Cons.prems(1) step])
  have r: "readers ?s t = Some todo" by (simp add: perform_def)
  have "\<not> crashed s" "\<not> crashed ?s" using Cons.prems(1) inv by (simp_all add: hub_inv_def)
  then have "\<not> channel_panic (fst (sendOne msg sub (world_of s)))" by (simp add: perform_def)
  then have s: "?s = s\<lparr>readers := (readers s)(t := Some todo), world_of := snd (sendOne msg sub (world_of s))\<rparr>"
    using \<open>\<not> crashed s\<close> by (simp add: perform_def)
  show ?case
    using hub_run_Cons [OF step Cons.IH [OF inv r]] unfolding s x by (simp cong: if_cong)
qed

lemma sends_append: "sends (xs @ ys) w = sends ys (sends xs w)"
  by (induction xs w rule: sends.induct) simp_all

lemma sends_round:
  "world_ok w \<Longrightarrow> set m \<subseteq> set (subs_of w) \<Longrightarrow>
   sendAll msg m w = (Ret (), sends (map (\<lambda>(k, sub). (msg, sub)) m) w)"
proof (induction m arbitrary: w)
  case (Cons x m)
  obtain k sub where x: "x = (k, sub)" by force
  then have "(k, sub) \<in> set (subs_of w)" using Cons.prems(2) by simp
  then have e: "as_entry sub \<in> set (subs_of w)"
    and "sub_ch sub = k" "\<not> ch_closed (heap w k)"
    using world_okD(2) [OF Cons.prems(1)] by (auto simp: as_entry_def)
  then have one: "sendOne msg sub w = (Ret (), snd (sendOne msg sub w))"
    using sendOne_spec [of sub k w msg] by simp
  have "sendAll msg m (snd (sendOne msg sub w)) =
      (Ret (), sends (map (\<lambda>(k, sub). (msg, sub)) m) (snd (sendOne msg sub w)))"
    using Cons.prems sendOne_safe [OF Cons.prems(1) e] by (intro Cons.IH) auto
  then show ?case unfolding x by (subst sendAll.simps, subst one) simp
qed simp

lemma sends_batch:
  assumes "world_ok w" "\<forall>i. order_ok (ords i)" "subs_of w = m"
  shows "snd (BroadcastMany ords msgs w) = sends (batch ords msgs m) w"
  using assms
proof (induction msgs arbitrary: ords w)
  case (Cons msg msgs)
  have m: "set (ords 0 (subs_of w)) \<subseteq> set (subs_of w)"
    using order_okD(1) Cons.prems(2) by blast
  have "ords 0 [] = []" using order_okD(1) [of "ords 0" "[]"] Cons.prems(2) by simp
  then have "sendAllLocked (ords 0) msg w = (Ret (), sends (map (\<lambda>(k, sub). (msg, sub)) (ords 0 m)) w)"
    using sends_round [OF Cons.prems(1) m, of msg] Cons.prems(3)
    by (auto simp: sendAllLocked_def subs_of_def split: option.splits)
  moreover have "sendAllLocked (ords 0) msg w = (Ret (), after_broadcast msg w)"
    using Cons.prems by (simp add: sendAllLocked_spec)
  ultimately have "sends (map (\<lambda>(k, sub). (msg, sub)) (ords 0 m)) w = after_broadcast msg w"
      "sendAllLocked (ords 0) msg w = (Ret (), after_broadcast msg w)"
    by simp_all
  then show ?case
    using Cons.IH [of "after_broadcast msg w" "\<lambda>i. ords (i + 1)"] Cons.prems
    by (simp add: after_broadcast_ok sends_append)
qed simp

text \<open>
  The machine contains the calls of the sequential model: a broadcast that nobody interrupts is
  \<^const>\<open>BroadcastMany\<close>.
\<close>

lemma broadcast_alone:
  assumes "hub_inv s" "readers s t = None" "\<forall>i. order_ok (ords i)"
  shows "\<exists>acts. hub_run s acts (s\<lparr>world_of := snd (BroadcastMany ords msgs (world_of s))\<rparr>)"
proof -
  let ?todo = "batch ords msgs (subs_of (world_of s))"
  let ?s = "s\<lparr>readers := (readers s)(t := Some ?todo)\<rparr>"
  note step = hub_act.rlock [OF assms(2,3), of msgs]
  have "hub_inv ?s" by (rule hub_inv_step [OF assms(1) step])
  from reader_finishes [OF this, of t ?todo]
  have "hub_run ?s (acts_of t ?todo (world_of s))
      (s\<lparr>world_of := sends ?todo (world_of s), readers := (readers s)(t := None)\<rparr>)" by simp
  moreover have "(readers s)(t := None) = readers s" using assms(2) by (simp add: fun_eq_iff)
  ultimately have "hub_run ?s (acts_of t ?todo (world_of s))
      (s\<lparr>world_of := sends ?todo (world_of s), readers := readers s\<rparr>)" by simp
  from hub_run_Cons [OF step this] show ?thesis
    using assms(1,3) by (auto simp: sends_batch hub_inv_def)
qed

subsection \<open>A sample run\<close>

definition sample_sub :: "nat subscriber" where
  "sample_sub = \<lparr>sub_ch = 0, sub_pred = None\<rparr>"

definition sample_acts :: "nat act list" where
  "sample_acts = [AWrite, ARLock 0 [4, 5] [0], ASend 0 4 sample_sub True, ASend 0 5 sample_sub True, ARUnlock 0]"

definition sample_sys_sent :: "nat sys" where
  "sample_sys_sent = sample_sys_busy\<lparr>world_of := sends [(4, sample_sub), (5, sample_sub)] (world_of sample_sys_busy),
     readers := (readers sample_sys_busy)(0 := None)\<rparr>"

lemma sample_subscribed:
  "subs_of (snd (SubscribeFilter None (world_of sample_sys))) = [(0, sample_sub)]"
  "heap (snd (SubscribeFilter None (world_of sample_sys))) 0 = makeChan 64"
  by (simp_all add: SubscribeFilter_spec sample_sys_def initWorld_def NewBroadcaster_def newFanOut_def
      open_hub_def after_subscribe_def subs_of_def sample_sub_def effectiveBufferSize_def
      DefaultSubscriberBuffer_def)

lemma sample_acts_run: "hub_run sample_sys sample_acts sample_sys_sent"
proof -
  let ?s = "perform sample_sys (SubscribeFilter None (world_of sample_sys))"
  have u: "unlocked sample_sys" by (simp add: sample_sys_def unlocked_def)
  have w: "world_of ?s = snd (SubscribeFilter None (world_of sample_sys))" by (simp add: perform_def)
  have "readers ?s 0 = None" by (simp add: perform_def sample_sys_def)
  from hub_act.rlock [OF this, of "\<lambda>_. rev" "[4, 5]"]
  have lock: "hub_act ?s (ARLock 0 [4, 5] [0]) sample_sys_busy"
    by (simp add: order_ok_samples sample_sys_busy_def Let_def w sample_subscribed)
  have run: "hub_run sample_sys [AWrite, ARLock 0 [4, 5] [0]] sample_sys_busy"
    using hub_run_Cons [OF hub_act.subscribe [OF u] hub_run_one [OF lock]] by simp
  have inv: "hub_inv sample_sys_busy" by (rule hub_machine.reach_inv [OF sample_sys_busy_reached])
  have r: "readers sample_sys_busy 0 = Some [(4, sample_sub), (5, sample_sub)]"
    by (simp add: sample_sys_busy_def Let_def w sample_subscribed)
  have wb: "world_of sample_sys_busy = snd (SubscribeFilter None (world_of sample_sys))"
    using w by (simp add: sample_sys_busy_def Let_def)
  have "acts_of 0 [(4, sample_sub), (5, sample_sub)] (world_of sample_sys_busy) =
      [ASend 0 4 sample_sub True, ASend 0 5 sample_sub True, ARUnlock 0]"
    by (simp add: wb sample_sub_def accepts_def has_room_def sample_subscribed makeChan_def sendOne_def trySend_def)
  then show ?thesis
    using hub_run_trans [OF reader_finishes [OF inv r] run]
    by (simp add: sample_acts_def sample_sys_sent_def)
qed

theorem subscriber_order_witness:
  "ch_buf (heap (world_of sample_sys_sent) 0) = [4, 5] \<and>
   subseq (seen (sent_by 0 0) sample_acts) (seen (posted_by 0 0) sample_acts)"
proof -
  have "hub_init [] sample_sys" by (simp add: hub_init_def sample_sys_def)
  from subscriber_order [OF this sample_acts_run, of 0 0] show ?thesis
    by (simp add: seen_def sample_acts_def sample_sub_def)
qed

end
