(* ===== verification/Drain.thy ===== *)
theory Drain
  imports Ordering
begin

text \<open>
  A shutdown is never stuck: from every state the goroutines can get into, it comes to its end
  if the broadcasts under way complete, the consumers receive what is buffered for them, and
  the shutdown goroutine itself goes on. Nobody has to subscribe, unsubscribe or close.
\<close>

subsection \<open>Runs that only help\<close>

fun helps :: "nat \<Rightarrow> 'a act \<Rightarrow> bool" where
  "helps t (ASend _ _ _ _) \<longleftrightarrow> True"
| "helps t (ARUnlock _) \<longleftrightarrow> True"
| "helps t (ARecv _ _) \<longleftrightarrow> True"
| "helps t (AShut t') \<longleftrightarrow> t' = t"
| "helps t _ \<longleftrightarrow> False"

definition via :: "nat \<Rightarrow> 'a sys \<Rightarrow> 'a sys \<Rightarrow> bool" where
  "via t s s' \<longleftrightarrow> (\<exists>acts. hub_run s acts s' \<and> list_all (helps t) acts)"

lemma via_refl [simp]: "via t s s"
  by (auto simp: via_def intro!: exI [of _ "[]"] hub_run.run_nil)

lemma via_trans: "via t s s' \<Longrightarrow> via t s' s2 \<Longrightarrow> via t s s2"
  unfolding via_def by (metis hub_run_trans list_all_append)

lemma via_act: "hub_act s act s' \<Longrightarrow> helps t act \<Longrightarrow> via t s s'"
  by (auto simp: via_def intro!: exI [of _ "[act]"] hub_run_one)

lemma via_reach: "via t s s' \<Longrightarrow> reach init hub_step s \<Longrightarrow> reach init hub_step s'"
  by (auto simp: via_def intro: hub_run_reach)

subsection \<open>Only finitely many broadcasts are under way\<close>

definition few_readers :: "'a sys \<Rightarrow> bool" where
  "few_readers s \<longleftrightarrow> finite (dom (readers s))"

lemma few_readers_step:
  assumes "few_readers s" "hub_step s s'"
  shows "few_readers s'"
proof -
  obtain act where "hub_act s act s'" using assms(2) by (auto simp: hub_step_def)
  then show ?thesis
    by (cases rule: hub_act.cases) (use assms(1) in \<open>simp_all add: few_readers_def perform_def\<close>)
qed

interpretation few_machine: machine "hub_init opts" hub_step few_readers for opts
proof
  show "few_readers s" if "hub_init opts s" for s
    using that by (auto simp: hub_init_def few_readers_def dom_def)
qed (rule few_readers_step)

lemma acts_of_help: "list_all (helps t') (acts_of t todo w)"
  by (induction t todo w rule: acts_of.induct) simp_all

text \<open>The broadcasts under way complete, and the lock is free.\<close>

lemma readers_finish:
  assumes "finite (dom (readers s))" "hub_inv s"
  shows "\<exists>s'. via t s s' \<and> unlocked s' \<and> shutdowns s' = shutdowns s"
  using assms
proof (induction "card (dom (readers s))" arbitrary: s)
  case 0
  then have "unlocked s" by (auto simp: unlocked_def dom_def)
  then show ?case by (intro exI [of _ s]) simp
next
  case (Suc n)
  then have "dom (readers s) \<noteq> {}" by auto
  then obtain u todo where r: "readers s u = Some todo" by blast
  let ?s = "s\<lparr>world_of := sends todo (world_of s), readers := (readers s)(u := None)\<rparr>"
  have run: "hub_run s (acts_of u todo (world_of s)) ?s" by (rule reader_finishes [OF Suc.prems(2) r])
  then have via: "via t s ?s" unfolding via_def using acts_of_help by blast
  have "u \<in> dom (readers s)" using r by blast
  then have "n = card (dom (readers ?s))" "finite (dom (readers ?s))"
    using Suc.hyps(2) Suc.prems(1) by (simp_all add: card_Diff_singleton)
  from Suc.hyps(1) [OF this hub_run_inv [OF run Suc.prems(2)]] obtain s' where
    "via t ?s s'" "unlocked s'" "shutdowns s' = shutdowns s" by auto
  then show ?case using via_trans [OF via] by blast
qed

subsection \<open>The consumers catch up\<close>

lemma consumer_catches_up:
  "\<exists>s'. via t s s' \<and> readers s' = readers s \<and> shutdowns s' = shutdowns s \<and>
     (\<forall>b. ch_buf (heap (world_of s') b) = (if b = a then [] else ch_buf (heap (world_of s) b)))"
proof (induction "length (ch_buf (heap (world_of s) a))" arbitrary: s)
  case 0
  then show ?case by (intro exI [of _ s]) simp
next
  case (Suc n)
  then obtain m ms where buf: "ch_buf (heap (world_of s) a) = m # ms" by (auto simp: Suc_length_conv)
  let ?w = "(world_of s)\<lparr>heap := (heap (world_of s))(a := (heap (world_of s) a)\<lparr>ch_buf := ms\<rparr>)\<rparr>"
  have "recvAt a (world_of s) = Some (Some m, ?w)" using buf by (simp add: recvAt_def recvChan_def)
  from via_act [OF hub_act.receive [OF this], of t] have via: "via t s (s\<lparr>world_of := ?w\<rparr>)" by simp
  obtain s' where s': "via t (s\<lparr>world_of := ?w\<rparr>) s'" "readers s' = readers s" "shutdowns s' = shutdowns s"
      "\<forall>b. ch_buf (heap (world_of s') b) = (if b = a then [] else ch_buf (heap ?w b))"
    using Suc.hyps(1) [of "s\<lparr>world_of := ?w\<rparr>"] Suc.hyps(2) buf by auto
  have "\<forall>b. ch_buf (heap (world_of s') b) = (if b = a then [] else ch_buf (heap (world_of s) b))"
    using s'(4) by simp
  then show ?case using via_trans [OF via s'(1)] s'(2,3) by blast
qed

lemma consumers_catch_up:
  "\<exists>s'. via t s s' \<and> readers s' = readers s \<and> shutdowns s' = shutdowns s \<and>
     (\<forall>a \<in> set as. ch_buf (heap (world_of s') a) = [])"
proof (induction as arbitrary: s)
  case Nil
  then show ?case by (intro exI [of _ s]) simp
next
  case (Cons a as)
  obtain s1 where s1: "via t s s1" "readers s1 = readers s" "shutdowns s1 = shutdowns s"
      "\<forall>a \<in> set as. ch_buf (heap (world_of s1) a) = []"
    using Cons.IH by blast
  obtain s2 where s2: "via t s1 s2" "readers s2 = readers s1" "shutdowns s2 = shutdowns s1"
      "\<forall>b. ch_buf (heap (world_of s2) b) = (if b = a then [] else ch_buf (heap (world_of s1) b))"
    using consumer_catches_up by blast
  show ?case
    using s1 s2 via_trans [OF s1(1) s2(1)] by (intro exI [of _ s2]) auto
qed

subsection \<open>The shutdown goroutine goes on\<close>

lemma via_counted:
  assumes "shutdowns s t = Some (SdCount subs todo n)"
  shows "\<exists>k. via t s (s\<lparr>shutdowns := (shutdowns s)(t := Some (SdCount subs [] k))\<rparr>) \<and>
    ((\<forall>sub \<in> set todo. ch_buf (heap (world_of s) (sub_ch sub)) = []) \<longrightarrow> k = n)"
  using assms
proof (induction todo arbitrary: s n)
  case Nil
  then have "(shutdowns s)(t := Some (SdCount subs [] n)) = shutdowns s" by (simp add: fun_eq_iff)
  then show ?case by (intro exI [of _ n]) simp
next
  case (Cons sub todo)
  let ?n = "if lenChan (heap (world_of s) (sub_ch sub)) > 0 then n + 1 else n"
  let ?s = "s\<lparr>shutdowns := (shutdowns s)(t := Some (SdCount subs todo ?n))\<rparr>"
  have step: "via t s ?s" using via_act [OF hub_act.sd_count [OF Cons.prems], of t] by simp
  obtain k where k: "via t ?s (?s\<lparr>shutdowns := (shutdowns ?s)(t := Some (SdCount subs [] k))\<rparr>)"
      "(\<forall>sub \<in> set todo. ch_buf (heap (world_of s) (sub_ch sub)) = []) \<longrightarrow> k = ?n"
    using Cons.IH [of ?s ?n] by (simp del: fun_upd_apply) (simp, blast)
  have s: "?s\<lparr>shutdowns := (shutdowns ?s)(t := Some (SdCount subs [] k))\<rparr> =
      s\<lparr>shutdowns := (shutdowns s)(t := Some (SdCount subs [] k))\<rparr>" by simp
  have "(\<forall>sub \<in> set (sub # todo). ch_buf (heap (world_of s) (sub_ch sub)) = []) \<longrightarrow> k = n"
    using k(2) by (simp add: lenChan_def)
  then show ?case using via_trans [OF step k(1)] unfolding s by blast
qed

text \<open>With the snapshot's buffers empty, one more round of counting finds nothing left.\<close>

lemma via_count_again:
  assumes "shutdowns s t = Some (SdCount subs subs 0)"
    "\<forall>sub \<in> set subs. ch_buf (heap (world_of s) (sub_ch sub)) = []"
  shows "via t s (s\<lparr>shutdowns := (shutdowns s)(t := Some (SdClose subs))\<rparr>)"
proof -
  let ?s = "s\<lparr>shutdowns := (shutdowns s)(t := Some (SdCount subs [] 0))\<rparr>"
  have "via t s ?s" using via_counted [OF assms(1)] assms(2) by auto
  moreover have "via t ?s (?s\<lparr>shutdowns := (shutdowns ?s)(t := Some (SdClose subs))\<rparr>)"
    using via_act [OF hub_act.sd_counted [of ?s t subs 0], of t] by simp
  ultimately show ?thesis using via_trans by fastforce
qed

lemma via_wait_over:
  assumes "shutdowns s t = Some (SdWait subs n)"
    "\<forall>sub \<in> set subs. ch_buf (heap (world_of s) (sub_ch sub)) = []"
  shows "via t s (s\<lparr>shutdowns := (shutdowns s)(t := Some (SdClose subs))\<rparr>)"
proof -
  let ?s = "s\<lparr>shutdowns := (shutdowns s)(t := Some (SdCount subs subs 0))\<rparr>"
  have "via t s ?s" using via_act [OF hub_act.sd_tick [OF assms(1)], of t] by simp
  moreover have "via t ?s (?s\<lparr>shutdowns := (shutdowns ?s)(t := Some (SdClose subs))\<rparr>)"
    using assms(2) by (intro via_count_again) simp_all
  ultimately show ?thesis using via_trans by fastforce
qed

lemma via_about_to_close:
  assumes "shutdowns s t = Some pc" "snapshot_of pc = Some subs"
    "\<forall>sub \<in> set subs. ch_buf (heap (world_of s) (sub_ch sub)) = []"
  shows "via t s (s\<lparr>shutdowns := (shutdowns s)(t := Some (SdClose subs))\<rparr>)"
proof (cases pc)
  case (SdCount subs' todo n)
  then have sd: "shutdowns s t = Some (SdCount subs todo n)" using assms(1,2) by simp
  obtain k where k: "via t s (s\<lparr>shutdowns := (shutdowns s)(t := Some (SdCount subs [] k))\<rparr>)"
    using via_counted [OF sd] by blast
  let ?s = "s\<lparr>shutdowns := (shutdowns s)(t := Some (SdCount subs [] k))\<rparr>"
  let ?s' = "s\<lparr>shutdowns := (shutdowns s)(t := Some (if k = 0 then SdClose subs else SdWait subs k))\<rparr>"
  have "via t ?s ?s'" using via_act [OF hub_act.sd_counted [of ?s t subs k], of t] by simp
  with k have s': "via t s ?s'" by (rule via_trans)
  show ?thesis
  proof (cases "k = 0")
    case False
    then have "via t ?s' (?s'\<lparr>shutdowns := (shutdowns ?s')(t := Some (SdClose subs))\<rparr>)"
      using assms(3) by (intro via_wait_over [of _ _ _ k]) simp_all
    with s' show ?thesis using via_trans by fastforce
  qed (use s' in simp)
next
  case (SdWait subs' n)
  then show ?thesis using assms by (intro via_wait_over [of _ _ _ n]) simp_all
next
  case (SdClose subs')
  then have "(shutdowns s)(t := Some (SdClose subs)) = shutdowns s" using assms by (simp add: fun_eq_iff)
  then show ?thesis by simp
qed (use assms(2) in simp)

subsection \<open>The end of the shutdown\<close>

lemma shutdownFinish_closed: "world_ok w \<Longrightarrow> subscribers (hub (snd (shutdownFinish subs w))) = None"
  using closeTracked_spec [of w subs] by (auto simp: shutdownFinish_def)

text \<open>
  C18. A shutdown under way can always be completed: whatever the goroutines have done so far,
  other shutdowns cut short included, there is a run from here to \<open>Shutdown\<close> returning nil in
  which only broadcasts already under way go on, consumers receive, and the shutdown goroutine
  itself takes steps. At its end the hub is closed, every channel it has ever handed out is
  closed, and the buffers of the subscribers it waited for are empty. So no deadlock between
  the read lock, the write lock and the drain loop is reachable.
\<close>

theorem Shutdown_can_finish:
  assumes "reach (hub_init opts) hub_step s" "shutdowns s t = Some pc" "snapshot_of pc = Some subs"
  shows "\<exists>acts s'. hub_run s acts s' \<and> list_all (helps t) acts \<and>
    shutdowns s' t = Some (SdDone None) \<and> Closed (Health (hub (world_of s'))) \<and>
    (\<forall>a < nxt (world_of s'). ch_closed (heap (world_of s') a)) \<and>
    (\<forall>sub \<in> set subs. ch_buf (heap (world_of s') (sub_ch sub)) = [])"
proof -
  obtain s1 where s1: "via t s s1" "unlocked s1" "shutdowns s1 = shutdowns s"
    using readers_finish [of s t] few_machine.reach_inv [OF assms(1)] hub_machine.reach_inv [OF assms(1)]
    by (auto simp: few_readers_def)
  obtain s2 where s2: "via t s1 s2" "readers s2 = readers s1" "shutdowns s2 = shutdowns s1"
      "\<forall>a \<in> set (map sub_ch subs). ch_buf (heap (world_of s2) a) = []"
    using consumers_catch_up by blast
  let ?s3 = "s2\<lparr>shutdowns := (shutdowns s2)(t := Some (SdClose subs))\<rparr>"
  let ?s4 = "perform (?s3\<lparr>shutdowns := (shutdowns ?s3)(t := Some (SdDone None))\<rparr>)
    (shutdownFinish subs (world_of ?s3))"
  have s3: "via t s2 ?s3" using assms(2,3) s1(3) s2(3,4) by (intro via_about_to_close) auto
  have "unlocked ?s3" using s1(2) s2(2) by (simp add: unlocked_def)
  then have "via t ?s3 ?s4" by (intro via_act [OF hub_act.sd_finish]) simp_all
  with s3 have "via t s2 ?s4" by (rule via_trans)
  with s2(1) have "via t s1 ?s4" by (rule via_trans)
  with s1(1) have via: "via t s ?s4" by (rule via_trans)
  have ok: "world_ok (world_of s2)"
    using hub_machine.reach_inv [OF via_reach [OF via_trans [OF s1(1) s2(1)] assms(1)]] by (simp add: hub_inv_def)
  have closed: "subscribers (hub (world_of ?s4)) = None"
    using shutdownFinish_closed [OF ok] by (simp add: perform_def)
  have "topics_inv ?s4" by (rule topics_machine.reach_inv [OF via_reach [OF via assms(1)]])
  then have "\<forall>a < nxt (world_of ?s4). ch_closed (heap (world_of ?s4) a)"
    using closed unfolding topics_inv_def no_orphan_def by (auto simp: subs_of_def)
  moreover have "\<forall>sub \<in> set subs. ch_buf (heap (world_of ?s4) (sub_ch sub)) = []"
    using same_bufs_finish [OF ok, of subs] s2(4) by (simp add: same_bufs_def perform_def)
  moreover have "shutdowns ?s4 t = Some (SdDone None)" by (simp add: perform_def)
  moreover have "Closed (Health (hub (world_of ?s4)))" using closed by (simp add: Health_def)
  ultimately show ?thesis using via unfolding via_def by blast
qed

text \<open>A shutdown that has just begun while two messages wait for the subscriber.\<close>

definition sample_sys_closing :: "nat sys" where
  "sample_sys_closing = sample_sys_sent\<lparr>world_of := snd (shutdownBegin rev (world_of sample_sys_sent)),
     shutdowns := (shutdowns sample_sys_sent)(3 := Some (SdCount [sample_sub] [sample_sub] 0))\<rparr>"

lemma sample_sys_closing_reached: "reach (hub_init []) hub_step sample_sys_closing"
proof -
  have "reach (hub_init []) hub_step sample_sys"
    by (rule reach_start) (simp add: hub_init_def sample_sys_def)
  then have r: "reach (hub_init []) hub_step sample_sys_sent" by (rule hub_run_reach [OF sample_acts_run])
  have b: "world_of sample_sys_busy = snd (SubscribeFilter None (world_of sample_sys))"
    by (simp add: sample_sys_busy_def Let_def)
  have hub_same: "hub (snd (sendOne m sample_sub w)) = hub w" for m w
    by (simp add: sendOne_def safeDropCall_def split: option.splits outcome.splits bool.splits prod.splits)
  have "subs_of (world_of sample_sys_busy) = [(0, sample_sub)]" unfolding b by (rule sample_subscribed(1))
  then have "subscribers (hub (world_of sample_sys_busy)) = Some [(0, sample_sub)]"
    by (auto simp: subs_of_def split: option.splits)
  then have "subscribers (hub (world_of sample_sys_sent)) = Some [(0, sample_sub)]"
    by (simp add: sample_sys_sent_def hub_same)
  then have snap: "shutdownBegin rev (world_of sample_sys_sent) =
      (Some [sample_sub], snd (shutdownBegin rev (world_of sample_sys_sent)))"
    by (simp add: shutdownBegin_def)
  have "shutdowns sample_sys_sent 3 = None" "unlocked sample_sys_sent"
    by (simp_all add: sample_sys_sent_def sample_sys_busy_def Let_def sample_sys_def perform_def unlocked_def)
  from hub_stepI [OF hub_act.sd_begin [OF this order_ok_samples(1) snap]]
  show ?thesis unfolding sample_sys_closing_def by (intro reach_step [OF r]) (simp only: option.case)
qed

theorem Shutdown_can_finish_witness:
  "\<exists>acts s'. hub_run sample_sys_closing acts s' \<and> shutdowns s' 3 = Some (SdDone None) \<and>
     ch_buf (heap (world_of s') 0) = []"
proof -
  have "shutdowns sample_sys_closing 3 = Some (SdCount [sample_sub] [sample_sub] 0)"
    by (simp add: sample_sys_closing_def)
  from Shutdown_can_finish [OF sample_sys_closing_reached this snapshot_of.simps(1)]
  obtain acts s' where s': "hub_run sample_sys_closing acts s'" "shutdowns s' 3 = Some (SdDone None)"
      "\<forall>sub \<in> set [sample_sub]. ch_buf (heap (world_of s') (sub_ch sub)) = []" by blast
  have "ch_buf (heap (world_of s') 0) = []" using s'(3) by (simp add: sample_sub_def)
  then show ?thesis using s'(1,2) by blast
qed

end
