(* ===== verification/Reconnect.thy ===== *)
theory Reconnect
  imports Replay Connection
begin

text \<open>
  One reconnection: the request header, the replay of \<open>replay.go\<close> from \<open>memStore\<close> on a new
  \<open>Stream\<close>, and the client that reads the response.
\<close>

definition fits_reader :: "'i brandid \<Rightarrow> ReadOption list \<Rightarrow> 'i Event \<Rightarrow> bool" where
  "fits_reader B opts e \<longleftrightarrow> sendable B (OutEvent e) \<and> (\<forall>l \<in> set (event_lines B e). length l < line_limit opts)"

lemma NewStream_fields:
  "st_r (NewStream rw r) = r" "rw_w (st_w (NewStream rw r)) = rw_w rw"
  by (simp_all add: NewStream_def Let_def SetHeaders_def headerSet_def writeHeader_def)

lemma LastEventIDFromRequest_header:
  assumes "brandid_ok B" "headerGet (rq_header r) ''Last-Event-ID'' = GetID B (ev_ID e)" "sendable B (OutEvent e)"
  shows "GetID B (LastEventIDFromRequest B r) = GetID B (ev_ID e)"
  using assms
  by (simp add: LastEventIDFromRequest_def ParseEventID_def NewEventID_def ContainsAny_event_id brandid_okD)

lemma frames_read_back:
  assumes "brandid_ok B" "list_all (fits_reader B opts) es" "limit_ok opts"
    and "source_ready src" "source_ending src = Ends EOF" "source_stream src = concat (map (event_frame B) es)"
  shows "ReadEvents source_Read src opts = Some (Ret (Inr (received B [] 0 (map OutEvent es))))"
proof -
  have "event_frame B = (\<lambda>e. frame_of_lines (event_lines B e))"
    by (simp add: event_frame_def fun_eq_iff)
  then have "delivers src B (map OutEvent es) opts"
    using assms(2-) by (auto simp: delivers_def transmitted_frames [OF assms(1)] comp_def fits_reader_def list_all_iff)
  then show ?thesis
    using ReadEvents_result [OF delivers_readable [OF assms(1)] assms(5)]
    by (simp add: delivers_events [OF assms(1)])
qed

lemma replay_read_back:
  assumes "brandid_ok B" "numbered B st" "ms_events st = seen @ e # missed"
    and "accepting (NewStream rw r)" "wire (rw_w rw) = []"
    and "headerGet (rq_header r) ''Last-Event-ID'' = GetID B (ev_ID e)"
    and "list_all (fits_reader B opts) (e # missed)"
    and "Replay B (NewStream rw r) (memEventStore B st) (LastEventIDFromRequest B r) = (res, s')"
    and "limit_ok opts" "source_ready src" "source_ending src = Ends EOF"
    and "source_stream src = wire (rw_w (st_w s'))"
  shows "res = Ret (length missed, None)"
    and "ReadEvents source_Read src opts = Some (Ret (Inr (received B [] 0 (map OutEvent missed))))"
proof -
  have id: "GetID B (LastEventIDFromRequest B r) = GetID B (ev_ID e)"
    using LastEventIDFromRequest_header [OF assms(1,6)] assms(7) by (simp add: fits_reader_def)
  have live: "\<not> rw_finished (st_w (NewStream rw r))" "outcomes (rw_w (st_w (NewStream rw r))) = []"
    using assms(4) by (simp_all add: accepting_def)
  from Replay_missed [OF assms(1-3) id live] have r: "res = Ret (length missed, None)"
      "wire (rw_w (st_w s')) = concat (map (event_frame B) missed)"
    using assms(5,8) by (auto simp: NewStream_fields)
  then show "res = Ret (length missed, None)"
      "ReadEvents source_Read src opts = Some (Ret (Inr (received B [] 0 (map OutEvent missed))))"
    using frames_read_back [OF assms(1) _ assms(9-11)] assms(7,12) by simp_all
qed

text \<open>The same through the request of the stream.\<close>

lemma reconnect_replays_missed_events:
  assumes "brandid_ok B" "numbered B st" "ms_events st = seen @ e # missed"
    and "accepting (NewStream rw r)" "wire (rw_w rw) = []"
    and "headerGet (rq_header r) ''Last-Event-ID'' = GetID B (ev_ID e)"
    and "list_all (fits_reader B opts) (e # missed)"
    and "Replay B (NewStream rw r) (memEventStore B st) (LastEventID B (NewStream rw r)) = (res, s')"
    and "limit_ok opts" "source_ready src" "source_ending src = Ends EOF"
    and "source_stream src = wire (rw_w (st_w s'))"
  shows "res = Ret (length missed, None) \<and>
    ReadEvents source_Read src opts = Some (Ret (Inr (received B [] 0 (map OutEvent missed))))"
proof -
  have "LastEventID B (NewStream rw r) = LastEventIDFromRequest B r"
    by (simp add: LastEventID_def NewStream_fields)
  then show ?thesis
    using replay_read_back [OF assms(1-7) _ assms(9-12)] assms(8) by simp
qed

end
