(* ===== verification/Sessions.thy ===== *)
theory Sessions
  imports Reconnect "HOL-Library.Sublist"
begin

text \<open>
  A client over many connections: each is cut after an arbitrary byte, and in between the feed
  goes on. Every time the client comes back with the identifier of the last event it has
  received, and the server replays from \<open>memStore\<close>.
\<close>

subsection \<open>Connections cut anywhere\<close>

text \<open>A frame cut short has no empty line, so nothing of it is dispatched.\<close>

lemma cut_frame_lines:
  assumes "\<forall>l \<in> set ls. no_eol l \<and> l \<noteq> []" "c < length (frame_of_lines ls)"
  shows "[] \<notin> set (stream_lines e (take c (frame_of_lines ls)))"
  using assms
proof (induction ls arbitrary: c)
  case Nil
  then show ?case by (simp add: frame_of_lines_Nil del: stream_lines.simps)
next
  case (Cons l ls)
  show ?case
  proof (cases "c \<le> length l")
    case True
    moreover have "no_eol (take c l)" using Cons.prems(1) by (auto simp: no_eol_def dest: in_set_takeD)
    ultimately show ?thesis
      by (simp add: frame_of_lines_Cons stream_lines_none del: stream_lines.simps)
  next
    case False
    then obtain c' where c: "c = length l + Suc c'" by (metis less_imp_Suc_add not_le add_Suc_right)
    then have "c' < length (frame_of_lines ls)" using Cons.prems(2) by (simp add: frame_of_lines_Cons)
    then show ?thesis
      using Cons c by (auto simp: frame_of_lines_Cons stream_lines_LF simp del: stream_lines.simps)
  qed
qed

lemma acceptLine_keeps_events: "l \<noteq> [] \<Longrightarrow> sp_events (acceptLine p l) = sp_events p"
  by (simp add: acceptLine_def applyField_def Let_def case_prod_beta split: sum.split)

lemma acceptLines_keep_events: "[] \<notin> set ls \<Longrightarrow> sp_events (acceptLines p ls) = sp_events p"
  by (induction ls arbitrary: p) (auto simp: acceptLine_keeps_events)

lemma fits_from_take: "fits_from m n s \<Longrightarrow> CR \<notin> set s \<Longrightarrow> fits_from m n (take c s)"
proof (induction m n s arbitrary: c rule: fits_from.induct)
  case (1 m n)
  then show ?case by simp
next
  case (2 m n d s)
  have pos: "fits_from m n s \<Longrightarrow> CR \<notin> set s \<Longrightarrow> n < m" for m n s
    by (induction m n s rule: fits_from.induct) (auto split: if_splits)
  show ?case
  proof (cases c)
    case 0
    then show ?thesis using pos [OF 2(4,5)] by simp
  next
    case (Suc c')
    then show ?thesis using 2 pos [of m "n + 1" s] by (cases "d = LF") (auto split: if_splits)
  qed
qed

text \<open>What is dispatched of a transmission cut after \<open>c\<close> bytes: the events whose frame is complete.\<close>

lemma acceptLines_cut:
  assumes "\<forall>e \<in> set es. sendable B (OutEvent e)"
  shows "\<exists>j \<le> length es. sp_events (acceptLines (idle_parser evs i r)
      (stream_lines end (take c (concat (map (event_frame B) es))))) =
      evs @ received B i r (map OutEvent (take j es)) \<and>
    (length (concat (map (event_frame B) es)) \<le> c \<longrightarrow> j = length es)"
  using assms
proof (induction es arbitrary: evs i r c)
  case Nil
  then show ?case by (simp add: idle_parser_def del: stream_lines.simps)
next
  case (Cons e es)
  let ?f = "event_frame B e" and ?rest = "concat (map (event_frame B) es)"
  have send: "sendable B (OutEvent e)" using Cons.prems by (rule bspec) simp
  have ls: "\<forall>l \<in> set (event_lines B e). no_eol l \<and> l \<noteq> []"
    using output_lines_no_eol [OF send] unfolding output_lines.simps by blast
  have f: "?f = frame_of_lines (event_lines B e)" by (simp add: event_frame_def)
  show ?case
  proof (cases "c < length ?f")
    case True
    then have "[] \<notin> set (stream_lines end (take c ?f))" unfolding f by (rule cut_frame_lines [OF ls])
    then have "sp_events (acceptLines (idle_parser evs i r) (stream_lines end (take c (?f @ ?rest)))) = evs"
      using True by (simp add: acceptLines_keep_events idle_parser_def del: stream_lines.simps)
    then show ?thesis using True by (intro exI [of _ 0]) (simp del: stream_lines.simps)
  next
    case False
    have "take c (?f @ ?rest) = frame_of_lines (event_lines B e) @ take (c - length ?f) ?rest"
      using False f by simp
    then have lines: "stream_lines end (take c (concat (map (event_frame B) (e # es)))) =
        (event_lines B e @ [[]]) @ stream_lines end (take (c - length ?f) ?rest)"
      using ls stream_lines_frame [of "event_lines B e" "end" "take (c - length ?f) ?rest"]
      by (simp del: stream_lines.simps)
    let ?i = "if GetID B (ev_ID e) = [] then i else GetID B (ev_ID e)"
    let ?r = "if ev_Retry e = 0 then r else ev_Retry e"
    let ?p = "\<lparr>pe_Type = ev_Event e, pe_DataLines = data_lines (ev_Data e), pe_ID = ?i, pe_Retry = ?r\<rparr>"
    have p: "acceptLines (idle_parser evs i r) (event_lines B e @ [[]]) = idle_parser (evs @ [?p]) ?i ?r"
      by (rule acceptLines_event [OF send])
    have es: "\<forall>e \<in> set es. sendable B (OutEvent e)" using Cons.prems by simp
    obtain j where j: "j \<le> length es"
        "sp_events (acceptLines (idle_parser (evs @ [?p]) ?i ?r) (stream_lines end (take (c - length ?f) ?rest))) =
           (evs @ [?p]) @ received B ?i ?r (map OutEvent (take j es))"
        "length ?rest \<le> c - length ?f \<longrightarrow> j = length es"
      using Cons.IH [OF es, of "evs @ [?p]" ?i ?r "c - length ?f"] by blast
    have "received B i r (map OutEvent (take (Suc j) (e # es))) = ?p # received B ?i ?r (map OutEvent (take j es))"
      by (simp add: Let_def)
    moreover have "length (concat (map (event_frame B) (e # es))) \<le> c \<longrightarrow> Suc j = length (e # es)"
      using j(3) False by auto
    ultimately show ?thesis
      unfolding lines acceptLines_simps(3) [of _ "event_lines B e @ [[]]"] p
      using j(1,2) by (intro exI [of _ "Suc j"]) (simp del: stream_lines.simps)
  qed
qed

lemma event_frame_no_CR:
  assumes "sendable B (OutEvent e)"
  shows "CR \<notin> set (event_frame B e)" "\<exists>c s. event_frame B e = c # s \<and> c \<noteq> CHR 0xEF"
proof -
  show "CR \<notin> set (event_frame B e)"
    using output_lines_no_eol [OF assms] unfolding output_lines.simps
    by (auto simp: event_frame_def frame_of_lines_def no_eol_def)
  show "\<exists>c s. event_frame B e = c # s \<and> c \<noteq> CHR 0xEF"
    by (cases "data_lines (ev_Data e)")
      (auto simp: event_frame_def event_lines_def field_line_def frame_of_lines_def)
qed

lemma strip_bom_cut:
  assumes "\<forall>e \<in> set es. sendable B (OutEvent e)"
  shows "strip_bom (take c (concat (map (event_frame B) es))) = take c (concat (map (event_frame B) es))"
proof (cases "es = [] \<or> c = 0")
  case False
  then obtain e es' c' where es: "es = e # es'" "c = Suc c'" by (auto simp: neq_Nil_conv gr0_conv_Suc)
  obtain d s where "event_frame B e = d # s" "d \<noteq> CHR 0xEF"
    using event_frame_no_CR(2) assms es by fastforce
  then show ?thesis using es by (simp add: strip_bom_def TrimPrefix_def utf8BOM_def)
qed (auto simp: strip_bom_def TrimPrefix_def utf8BOM_def)

text \<open>
  A client that reads a response made of events and cut anywhere, in any pieces, gets a
  prefix of the events, and all of them when the cut is behind the last one.
\<close>

lemma cut_read_back:
  assumes "brandid_ok B" "list_all (fits_reader B opts) es" "limit_ok opts"
    and "source_ready src" "source_ending src = Ends EOF"
    and "source_stream src = take c (concat (map (event_frame B) es))"
  shows "\<exists>j \<le> length es. ReadEvents source_Read src opts =
      Some (Ret (Inr (received B [] 0 (map OutEvent (take j es))))) \<and>
    (length (concat (map (event_frame B) es)) \<le> c \<longrightarrow> j = length es)"
proof -
  let ?bytes = "concat (map (event_frame B) es)"
  have send: "\<forall>e \<in> set es. sendable B (OutEvent e)"
    using assms(2) by (auto simp: list_all_iff fits_reader_def)
  have bytes: "?bytes = transmitted B (map OutEvent es)"
    by (simp add: transmitted_frames [OF assms(1)] comp_def event_frame_def [abs_def])
  have "lines_fit (line_limit opts) ?bytes"
    unfolding bytes using assms(2,3)
    by (intro lines_fit_transmitted [OF assms(1)]) (auto simp: limit_ok_def list_all_iff fits_reader_def)
  moreover have "CR \<notin> set ?bytes" using event_frame_no_CR(1) send by auto
  ultimately have "lines_fit (line_limit opts) (take c ?bytes)" by (rule fits_from_take)
  then have "readable src opts"
    using assms(3-6) strip_bom_cut [OF send] by (simp add: readable_def)
  note read = ReadEvents_result [OF this assms(5)]
  have "zeroParser = idle_parser [] [] 0" by (simp add: zeroParser_def idle_parser_def)
  then have "source_events src = sp_events (acceptLines (idle_parser [] [] 0) (stream_lines (Ends EOF) (take c ?bytes)))"
    using acceptLines_spec [of "stream_lines (Ends EOF) (take c ?bytes)"] assms(5,6)
    by (simp add: source_events_def source_lines_def strip_bom_cut [OF send] del: stream_lines.simps)
  with acceptLines_cut [OF send, of "[]" "[]" 0 "Ends EOF" c] read show ?thesis by auto
qed

subsection \<open>Sessions\<close>

text \<open>
  The feed: what is appended to the store over time, with increasing positive decimal numbers as
  identifiers. \<open>kept\<close> is the store when \<open>k\<close> of its events have been appended.
\<close>

definition feed_ok :: "'i brandid \<Rightarrow> ReadOption list \<Rightarrow> 'i Event list \<Rightarrow> bool" where
  "feed_ok B opts evts \<longleftrightarrow> sorted_wrt (<) (map (seqOf B) evts) \<and>
     list_all (\<lambda>e. fits_reader B opts e \<and> 0 < seqOf B e \<and> Atoi (GetID B (ev_ID e)) = Inr (seqOf B e)) evts"

definition kept :: "nat \<Rightarrow> 'i Event list \<Rightarrow> nat \<Rightarrow> 'i memStore" where
  "kept capacity evts k = foldl Append (newMemStore capacity) (take k evts)"

text \<open>The header a client comes back with, and the position it names.\<close>

definition lastSeen :: "ParsedEvent list \<Rightarrow> string" where
  "lastSeen got = (if got = [] then [] else pe_ID (last got))"

definition lastSeq :: "ParsedEvent list \<Rightarrow> int" where
  "lastSeq got = (case Atoi (lastSeen got) of Inl e \<Rightarrow> 0 | Inr v \<Rightarrow> v)"

text \<open>Some event the client has not received has left the ring buffer.\<close>

definition overtaken :: "'i brandid \<Rightarrow> nat \<Rightarrow> 'i Event list \<Rightarrow> nat \<Rightarrow> ParsedEvent list \<Rightarrow> bool" where
  "overtaken B capacity evts k got \<longleftrightarrow> list_ex (\<lambda>e. lastSeq got < seqOf B e) (take (k - capacity) evts)"

text \<open>
  The bytes of a response on a live connection: the handler replays from the store, and
  \<open>c\<close> bytes reach the client.
\<close>

definition responds ::
    "'i brandid \<Rightarrow> 'i memStore \<Rightarrow> ParsedEvent list \<Rightarrow> nat \<Rightarrow> source \<Rightarrow> bool" where
  "responds B st got c src \<longleftrightarrow> (\<exists>rw r res s'.
     accepting (NewStream rw r) \<and> wire (rw_w rw) = [] \<and>
     headerGet (rq_header r) ''Last-Event-ID'' = lastSeen got \<and>
     Replay B (NewStream rw r) (memEventStore B st) (LastEventID B (NewStream rw r)) = (res, s') \<and>
     source_ready src \<and> source_ending src = Ends EOF \<and> source_stream src = take c (wire (rw_w (st_w s'))))"

text \<open>
  A client's history: events are appended to the store, and the client connects and is cut off.
  The last argument tells that it was never overtaken.
\<close>

inductive sessions ::
    "'i brandid \<Rightarrow> ReadOption list \<Rightarrow> nat \<Rightarrow> 'i Event list \<Rightarrow> nat \<Rightarrow> ParsedEvent list \<Rightarrow> bool \<Rightarrow> bool"
  for B opts capacity evts where
  begin_feed: "sessions B opts capacity evts 0 [] True"
| append: "sessions B opts capacity evts k got whole \<Longrightarrow> k < length evts \<Longrightarrow>
    sessions B opts capacity evts (Suc k) got whole"
| connect: "sessions B opts capacity evts k got whole \<Longrightarrow> responds B (kept capacity evts k) got c src \<Longrightarrow>
    ReadEvents source_Read src opts = Some (Ret (Inr new)) \<Longrightarrow>
    sessions B opts capacity evts k (got @ new) (whole \<and> \<not> overtaken B capacity evts k got)"

subsection \<open>What the store replays to the client\<close>

definition view :: "ParsedEvent \<Rightarrow> string \<times> string list \<times> string" where
  "view p = (pe_Type p, pe_DataLines p, pe_ID p)"

definition shown :: "'i brandid \<Rightarrow> 'i Event \<Rightarrow> string \<times> string list \<times> string" where
  "shown B e = (ev_Event e, data_lines (ev_Data e), GetID B (ev_ID e))"

lemma feed_id: "feed_ok B opts evts \<Longrightarrow> e \<in> set evts \<Longrightarrow> GetID B (ev_ID e) \<noteq> []"
  by (auto simp: feed_ok_def list_all_iff Atoi_def ParseUint_def)

lemma received_views:
  "\<forall>e \<in> set es. GetID B (ev_ID e) \<noteq> [] \<Longrightarrow>
   map view (received B i r (map OutEvent es)) = map (shown B) es"
  by (induction es arbitrary: i r) (auto simp: Let_def view_def shown_def)

lemma filter_beyond:
  assumes "\<forall>i < n. i < length xs \<longrightarrow> f (xs ! i) \<le> (v :: int)" "\<forall>i < length xs. n \<le> i \<longrightarrow> v < f (xs ! i)"
  shows "filter (\<lambda>x. v < f x) (drop m xs) = drop (max n m) xs"
proof -
  have split: "drop m xs = take (n - m) (drop m xs) @ drop (max n m) xs"
  proof -
    have "n - m + m = max n m" by simp
    then show ?thesis using append_take_drop_id [of "n - m" "drop m xs"] by (simp only: drop_drop)
  qed
  have "\<not> v < f x" if x: "x \<in> set (take (n - m) (drop m xs))" for x
  proof -
    obtain i where i: "i < length (take (n - m) (drop m xs))" "x = take (n - m) (drop m xs) ! i"
      using x by (auto simp: in_set_conv_nth)
    then have "x = xs ! (m + i)" "m + i < n" "m + i < length xs" by auto
    then show ?thesis using assms(1) by (simp add: not_less)
  qed
  moreover have "v < f x" if x: "x \<in> set (drop (max n m) xs)" for x
  proof -
    obtain i where i: "i < length (drop (max n m) xs)" "x = drop (max n m) xs ! i"
      using x by (auto simp: in_set_conv_nth)
    then have b: "max n m + i < length xs" by (simp add: less_diff_conv add.commute)
    moreover have "x = xs ! (max n m + i)" unfolding i(2) by (rule nth_drop) (use b in linarith)
    moreover have "n \<le> max n m + i" by simp
    ultimately show ?thesis using assms(2) by simp
  qed
  ultimately have "filter (\<lambda>x. v < f x) (take (n - m) (drop m xs)) = []"
      "filter (\<lambda>x. v < f x) (drop (max n m) xs) = drop (max n m) xs"
    by (simp_all add: filter_empty_conv filter_id_conv)
  then show ?thesis by (subst split) simp
qed

text \<open>The client stands at position \<open>n\<close> of the feed: the last event it has received is the \<open>n\<close>th.\<close>

definition stands_at :: "'i brandid \<Rightarrow> 'i Event list \<Rightarrow> nat \<Rightarrow> ParsedEvent list \<Rightarrow> bool" where
  "stands_at B evts n got \<longleftrightarrow> n \<le> length evts \<and>
     (if n = 0 then got = [] else got \<noteq> [] \<and> lastSeen got = GetID B (ev_ID (evts ! (n - 1))))"

lemma Atoi_empty: "\<exists>e. Atoi [] = Inl e"
  by (simp add: Atoi_def ParseUint_def)

lemma stands_at_seq:
  assumes "feed_ok B opts evts" "stands_at B evts n got" "i < length evts"
  shows "lastSeq got < seqOf B (evts ! i) \<longleftrightarrow> n \<le> i"
proof (cases n)
  case 0
  then have "lastSeq got = 0" using assms(2) Atoi_empty by (auto simp: stands_at_def lastSeq_def lastSeen_def)
  then show ?thesis using assms(1,3) 0 by (simp add: feed_ok_def list_all_length)
next
  case (Suc j)
  then have j: "lastSeen got = GetID B (ev_ID (evts ! j))" "j < length evts"
    using assms(2) by (auto simp: stands_at_def)
  then have "lastSeq got = seqOf B (evts ! j)"
    using assms(1) by (simp add: lastSeq_def feed_ok_def list_all_length)
  moreover have "seqOf B (evts ! a) < seqOf B (evts ! b)" if "a < b" "b < length evts" for a b
    using assms(1) that by (simp add: feed_ok_def sorted_wrt_iff_nth_less)
  ultimately show ?thesis
    using Suc j(2) assms(3) by (cases i j rule: linorder_cases) (auto dest: order.asym)
qed

lemma kept_numbered:
  assumes "feed_ok B opts evts"
  shows "ms_events (kept capacity evts k) = drop (length (take k evts) - capacity) (take k evts)"
    and "numbered B (kept capacity evts k)"
proof -
  note m = foldl_Append [of capacity "take k evts"]
  then show e: "ms_events (kept capacity evts k) = drop (length (take k evts) - capacity) (take k evts)"
    by (simp add: kept_def)
  have "list_all (\<lambda>e. Atoi (GetID B (ev_ID e)) = Inr (seqOf B e)) (drop j (take k evts))" for j
    using assms by (auto simp: feed_ok_def list_all_iff dest: in_set_dropD in_set_takeD)
  moreover have "sorted_wrt (<) (map (seqOf B) (drop j (take k evts)))" for j
    using assms by (simp add: feed_ok_def drop_map [symmetric] take_map [symmetric] sorted_wrt_drop sorted_wrt_take)
  ultimately show "numbered B (kept capacity evts k)"
    using m e by (simp add: numbered_def kept_def)
qed

lemma kept_after:
  assumes "feed_ok B opts evts" "stands_at B evts n got" "k \<le> length evts" "GetID B lastID = lastSeen got"
  shows "memEventsAfter B (kept capacity evts k) lastID = Inr (drop (max n (k - capacity)) (take k evts))"
proof -
  have "filter (\<lambda>e. lastSeq got < seqOf B e) (drop (k - capacity) (take k evts)) =
      drop (max n (k - capacity)) (take k evts)"
    using stands_at_seq [OF assms(1,2)] assms(3) by (intro filter_beyond) (auto simp: not_less [symmetric])
  moreover have "ms_events (kept capacity evts k) = drop (k - capacity) (take k evts)"
    using kept_numbered(1) [OF assms(1), of capacity k] assms(3) by (simp add: min_absorb2)
  ultimately have "after_seq B (kept capacity evts k) (lastSeq got) = drop (max n (k - capacity)) (take k evts)"
    using mem.after_stored [OF kept_numbered(2) [OF assms(1)], of capacity k "lastSeq got"] by simp
  then show ?thesis using assms(4) by (simp add: memEventsAfter_def after_seq_def lastSeq_def)
qed

subsection \<open>A client's history\<close>

text \<open>One connection: the client reads on from where it stands, or from the oldest event kept.\<close>

lemma connection_reads:
  assumes "brandid_ok B" "limit_ok opts" "feed_ok B opts evts" "stands_at B evts n got" "k \<le> length evts"
    and "responds B (kept capacity evts k) got c src"
  defines "rest \<equiv> drop (max n (k - capacity)) (take k evts)"
  shows "\<exists>j \<le> length rest. ReadEvents source_Read src opts =
      Some (Ret (Inr (received B [] 0 (map OutEvent (take j rest))))) \<and>
    (length (concat (map (event_frame B) rest)) \<le> c \<longrightarrow> j = length rest)"
proof -
  obtain rw r res s' where a: "accepting (NewStream rw r)" "wire (rw_w rw) = []"
      "headerGet (rq_header r) ''Last-Event-ID'' = lastSeen got"
      "Replay B (NewStream rw r) (memEventStore B (kept capacity evts k)) (LastEventID B (NewStream rw r)) = (res, s')"
      "source_ready src" "source_ending src = Ends EOF" "source_stream src = take c (wire (rw_w (st_w s')))"
    using assms(6) by (auto simp: responds_def)
  have fits: "list_all (fits_reader B opts) evts"
    using assms(3) by (auto simp: feed_ok_def list_all_iff)
  have "no_eol (lastSeen got) \<and> NUL \<notin> set (lastSeen got)"
  proof (cases n)
    case 0
    then show ?thesis using assms(4) by (simp add: stands_at_def lastSeen_def no_eol_def)
  next
    case (Suc m)
    then have m: "m < length evts" "lastSeen got = GetID B (ev_ID (evts ! m))"
      using assms(4) by (auto simp: stands_at_def)
    from m(1) fits have "fits_reader B opts (evts ! m)" by (simp add: list_all_length)
    then show ?thesis using m(2) by (simp add: fits_reader_def)
  qed
  then have id: "GetID B (LastEventID B (NewStream rw r)) = lastSeen got"
    using a(3) assms(1)
    by (simp add: LastEventID_def NewStream_fields LastEventIDFromRequest_def ParseEventID_def NewEventID_def
        ContainsAny_event_id brandid_okD)
  have live: "\<not> rw_finished (st_w (NewStream rw r))" "outcomes (rw_w (st_w (NewStream rw r))) = []"
    using a(1) by (simp_all add: accepting_def)
  from Replay_stored [OF assms(1) kept_after [OF assms(3-5) id, of capacity] live] have
    "wire (rw_w (st_w s')) = concat (map (event_frame B) rest)"
    using a(2,4) by (auto simp: NewStream_fields rest_def)
  moreover have "list_all (fits_reader B opts) rest"
    using fits unfolding rest_def by (auto simp: list_all_iff dest: in_set_dropD in_set_takeD)
  ultimately show ?thesis using cut_read_back [OF assms(1) _ assms(2) a(5,6)] a(7) by simp
qed

definition got_part :: "'i brandid \<Rightarrow> 'i Event list \<Rightarrow> nat \<Rightarrow> ParsedEvent list \<Rightarrow> bool \<Rightarrow> 'i Event list \<Rightarrow> bool" where
  "got_part B evts n got whole es \<longleftrightarrow> stands_at B evts n got \<and> map view got = map (shown B) es \<and>
     subseq es (take n evts) \<and> (whole \<longrightarrow> es = take n evts)"

lemma got_more:
  assumes "feed_ok B opts evts" "got_part B evts n got whole es" "k \<le> length evts" "n \<le> k"
    and "j \<le> length (drop (max n (k - capacity)) (take k evts))"
    and "new = received B [] 0 (map OutEvent (take j (drop (max n (k - capacity)) (take k evts))))"
  shows "\<exists>n' es'. n' \<le> k \<and>
    got_part B evts n' (got @ new) (whole \<and> \<not> overtaken B capacity evts k got) es'"
proof (cases "j = 0")
  case True
  then show ?thesis using assms(2,4,6) by (intro exI [of _ n] exI [of _ es]) (simp add: got_part_def)
next
  case False
  let ?m = "max n (k - capacity)"
  define more where "more = take j (drop ?m (take k evts))"
  have j: "?m + j \<le> k" using assms(3,5) False by auto
  have more: "more = take j (drop ?m evts)" using j by (simp add: more_def drop_take min_def)
  have app: "take ?m evts @ more = take (?m + j) evts" unfolding more by (simp add: take_add)
  have ids: "\<forall>e \<in> set more. GetID B (ev_ID e) \<noteq> []"
    using feed_id [OF assms(1)] unfolding more by (blast dest: in_set_takeD in_set_dropD)
  have views: "map view new = map (shown B) more"
    unfolding assms(6) more_def [symmetric] by (rule received_views [OF ids])
  have len: "length more = j" using j assms(3) by (simp add: more)
  then have "new \<noteq> []" using views False by auto
  moreover have "view (last new) = shown B (last more)"
    using views \<open>new \<noteq> []\<close> False len by (metis last_map list.size(3) map_is_Nil_conv)
  moreover have "last more = evts ! (?m + j - 1)"
  proof -
    have "last more = drop ?m evts ! (j - 1)" using len False by (simp add: last_conv_nth more)
    also have "\<dots> = evts ! (?m + (j - 1))" using j assms(3) by (intro nth_drop) linarith
    finally show ?thesis using False by simp
  qed
  ultimately have st: "stands_at B evts (?m + j) (got @ new)"
    using False j assms(3) by (simp add: stands_at_def lastSeen_def view_def shown_def)
  have old: "map view got = map (shown B) es" "subseq es (take n evts)" "whole \<longrightarrow> es = take n evts"
      "stands_at B evts n got"
    using assms(2) by (simp_all add: got_part_def)
  have "subseq (take n evts) (take ?m evts)"
    by (metis list_emb_prefix subseq_order.refl take_add le_add_diff_inverse max.cobounded1)
  then have "subseq (es @ more) (take (?m + j) evts)"
    unfolding app [symmetric] using old(2) by (metis list_emb_append_mono subseq_order.refl subseq_order.trans)
  moreover have "es @ more = take (?m + j) evts" if "whole" "\<not> overtaken B capacity evts k got"
  proof -
    have "k - capacity \<le> n"
    proof (rule ccontr)
      assume n: "\<not> k - capacity \<le> n"
      then have "lastSeq got < seqOf B (evts ! n)"
        using stands_at_seq [OF assms(1) old(4), of n] assms(3) by auto
      moreover have "evts ! n \<in> set (take (k - capacity) evts)"
        using n assms(3) by (auto simp: in_set_conv_nth intro: exI [of _ n])
      ultimately show False using that(2) by (auto simp: overtaken_def list_ex_iff)
    qed
    then show ?thesis using old(3) that(1) app by (simp add: max_absorb1)
  qed
  ultimately show ?thesis
    using st views old(1) j by (intro exI [of _ "?m + j"] exI [of _ "es @ more"]) (auto simp: got_part_def)
qed

lemma sessions_part:
  assumes "brandid_ok B" "limit_ok opts" "feed_ok B opts evts" "sessions B opts capacity evts k got whole"
  shows "\<exists>n es. n \<le> k \<and> k \<le> length evts \<and> got_part B evts n got whole es"
  using assms(4)
proof (induction rule: sessions.induct)
  case begin_feed
  then show ?case by (intro exI [of _ 0] exI [of _ "[]"]) (simp add: got_part_def stands_at_def)
next
  case (append k got whole)
  then show ?case by (meson Suc_leI le_SucI)
next
  case (connect k got whole c src new)
  then obtain n es where n: "n \<le> k" "k \<le> length evts" "got_part B evts n got whole es" by blast
  then have "stands_at B evts n got" by (simp add: got_part_def)
  from connection_reads [OF assms(1-3) this n(2) connect.hyps(2)] connect.hyps(3)
  obtain j where "j \<le> length (drop (max n (k - capacity)) (take k evts))"
      "new = received B [] 0 (map OutEvent (take j (drop (max n (k - capacity)) (take k evts))))"
    by auto
  from got_more [OF assms(3) n(3,2,1) this] show ?case using n(2) by blast
qed

text \<open>No identifier is received twice.\<close>

lemma got_distinct:
  assumes "feed_ok B opts evts" "got_part B evts n got whole es"
  shows "distinct (map pe_ID got)"
proof -
  have es: "map view got = map (shown B) es" "subseq es evts"
    using assms(2) by (auto simp: got_part_def intro: subseq_order.trans)
  have ids: "map pe_ID got = map (\<lambda>e. GetID B (ev_ID e)) es"
    using arg_cong [OF es(1), of "map (\<lambda>v. snd (snd v))"] by (simp add: view_def shown_def comp_def)
  have "sorted_wrt (<) (map (seqOf B) evts)" using assms(1) by (simp add: feed_ok_def)
  then have "distinct (map (seqOf B) evts)" by (simp add: strict_sorted_iff)
  moreover have "subseq (map (seqOf B) es) (map (seqOf B) evts)" by (rule subseq_map [OF es(2)])
  ultimately have "distinct (map (seqOf B) es)" by (metis subseq_conv_nths distinct_nthsI)
  then have "distinct (map ((\<lambda>i. case Atoi i of Inl e \<Rightarrow> 0 | Inr v \<Rightarrow> v) \<circ> (\<lambda>e. GetID B (ev_ID e))) es)"
    by (simp add: seqOf_def [abs_def] comp_def)
  then show ?thesis unfolding ids by (metis distinct_map map_map)
qed

subsection \<open>A sample\<close>

definition sample_feed :: "string Event list" where
  "sample_feed = map sample_stored [''1'', ''2'', ''3'']"

lemma sample_stored_lines:
  "event_lines string_id (sample_stored i) = [''event: e'', ''data: d''] @ (if i = [] then [] else [''id: '' @ i])"
proof -
  have "data_lines ''d'' = [''d'']" by code_simp
  then show ?thesis by (simp add: event_lines_def field_line_def sample_stored_def)
qed

lemma sample_feed_ok: "feed_ok string_id [WithMaxLineBytes 64] sample_feed"
proof -
  have "Atoi ''1'' = Inr 1" by code_simp
  then show ?thesis
    by (simp add: feed_ok_def sample_feed_def fits_reader_def sample_stored_lines limit_simps)
      (simp add: sample_stored_def seqOf_def sample_atoi)
qed

text \<open>A client that got the first two events of the feed on one connection.\<close>

definition sample_got :: "ParsedEvent list" where
  "sample_got = received string_id [] 0 (map OutEvent (take 2 sample_feed))"

lemma sample_session: "sessions string_id [WithMaxLineBytes 64] 2 sample_feed 3 sample_got True"
proof -
  let ?o = "[WithMaxLineBytes 64]" and ?r = "\<lparr>rq_header = (\<lambda>_. None)\<rparr> :: request"
  let ?s = "NewStream (sample_response []) ?r" and ?st = "kept 2 sample_feed 2"
  have two: "sessions string_id ?o 2 sample_feed 2 [] True"
    using sessions.append [OF sessions.append [OF sessions.begin_feed], of sample_feed string_id ?o 2]
    by (simp add: sample_feed_def numeral_2_eq_2)
  have at: "stands_at string_id sample_feed 0 []" by (simp add: stands_at_def)
  have acc: "accepting ?s" by (simp add: accepting_def stream_sample_defs)
  have id: "GetID string_id (LastEventID string_id ?s) = lastSeen []"
    by (simp add: LastEventID_def NewStream_fields LastEventIDFromRequest_def ParseEventID_def NewEventID_def
        ContainsAny_event_id headerGet_def lastSeen_def)
  have after: "memEventsAfter string_id ?st (LastEventID string_id ?s) = Inr (take 2 sample_feed)"
    using kept_after [OF sample_feed_ok at _ id, of 2 2] by (simp add: sample_feed_def)
  obtain s' where s': "Replay string_id ?s (memEventStore string_id ?st) (LastEventID string_id ?s) = (Ret (length (take 2 sample_feed), None), s')"
      "wire (rw_w (st_w s')) = concat (map (event_frame string_id) (take 2 sample_feed))"
  proof -
    have "wire (rw_w (st_w ?s)) = []" unfolding NewStream_fields by (simp add: sample_response_def)
    then show thesis
      using that Replay_stored [OF string_id_ok after, of ?s] acc by (auto simp: accepting_def)
  qed
  let ?bytes = "wire (rw_w (st_w s'))"
  have ne: "?bytes \<noteq> []" unfolding s'(2) by (simp add: sample_feed_def event_frame_def frame_of_lines_def)
  have ans: "responds string_id ?st [] (length ?bytes) [Chunk ?bytes None]"
    unfolding responds_def using acc s'(1) ne
    by (intro exI [of _ "sample_response []"] exI [of _ ?r] exI [of _ "Ret (length (take 2 sample_feed), None)"] exI [of _ s'])
      (simp add: sample_response_def headerGet_def lastSeen_def)
  have "limit_ok ?o" by (simp add: limit_simps)
  from connection_reads [OF string_id_ok this sample_feed_ok at _ ans]
  have "ReadEvents source_Read [Chunk ?bytes None] ?o = Some (Ret (Inr sample_got))"
    unfolding s'(2) by (auto simp: sample_got_def sample_feed_def)
  from sessions.connect [OF two ans this] have "sessions string_id ?o 2 sample_feed 2 sample_got True"
    by (simp add: overtaken_def)
  from sessions.append [OF this] show ?thesis by (simp add: sample_feed_def)
qed

end
