(* ===== verification/Testing.thy ===== *)
theory Testing
  imports Reading
begin

text \<open>
  Helpers for tests: the assertions of \<open>sseparse/assert.go\<close> and the re-exports of
  \<open>ssetest/compat.go\<close>. A test is its log of failures; \<open>Errorf\<close> notes a failure and goes on,
  \<open>Fatalf\<close> notes it and ends the test, which is a panic value.
\<close>

subsection \<open>testing.TB\<close>

record testingTB =
  tb_log :: "string list"

definition Errorf_tb :: "string \<Rightarrow> testingTB \<Rightarrow> unit outcome \<times> testingTB" where
  "Errorf_tb m tb = (Ret (), tb\<lparr>tb_log := tb_log tb @ [m]\<rparr>)"

definition Fatalf :: "string \<Rightarrow> testingTB \<Rightarrow> 'a outcome \<times> testingTB" where
  "Fatalf m tb = (Panic m, tb\<lparr>tb_log := tb_log tb @ [m]\<rparr>)"

subsection \<open>Assertions\<close>

definition RequireEventCount :: "testingTB \<Rightarrow> ParsedEvent list \<Rightarrow> int \<Rightarrow> unit outcome \<times> testingTB" where
  "RequireEventCount tb events want =
     (if int (length events) \<noteq> want then Fatalf ''event count'' tb else (Ret (), tb))"

definition RequireEventType :: "testingTB \<Rightarrow> ParsedEvent \<Rightarrow> string \<Rightarrow> unit outcome \<times> testingTB" where
  "RequireEventType tb evt want =
     (if pe_Type evt \<noteq> want then Fatalf ''event type'' tb else (Ret (), tb))"

definition RequireData :: "testingTB \<Rightarrow> ParsedEvent \<Rightarrow> string \<Rightarrow> unit outcome \<times> testingTB" where
  "RequireData tb evt want = (if Data evt \<noteq> want then Errorf_tb ''data'' tb else (Ret (), tb))"

definition RequireDataContains :: "testingTB \<Rightarrow> ParsedEvent \<Rightarrow> string \<Rightarrow> unit outcome \<times> testingTB" where
  "RequireDataContains tb evt wantContains =
     (if \<not> Contains (Data evt) wantContains then Errorf_tb ''data should contain'' tb else (Ret (), tb))"

definition RequireEventID :: "testingTB \<Rightarrow> ParsedEvent \<Rightarrow> string \<Rightarrow> unit outcome \<times> testingTB" where
  "RequireEventID tb evt want =
     (if pe_ID evt \<noteq> want then Fatalf ''event ID'' tb else (Ret (), tb))"

definition RequireRetry :: "testingTB \<Rightarrow> ParsedEvent \<Rightarrow> uint \<Rightarrow> unit outcome \<times> testingTB" where
  "RequireRetry tb evt want =
     (if pe_Retry evt \<noteq> want then Fatalf ''retry'' tb else (Ret (), tb))"

text \<open>\<open>json.Unmarshal\<close> into the type of the wanted value is a parameter.\<close>

definition RequireDataJSON ::
    "(string \<Rightarrow> goerr + 'v) \<Rightarrow> testingTB \<Rightarrow> ParsedEvent \<Rightarrow> 'v \<Rightarrow> unit outcome \<times> testingTB" where
  "RequireDataJSON unmarshal tb evt want =
     (case unmarshal (Data evt) of
        Inl err \<Rightarrow> Fatalf ''unmarshal event data'' tb
      | Inr got \<Rightarrow> if got \<noteq> want then Errorf_tb ''data json'' tb else (Ret (), tb))"

subsection \<open>Re-exports\<close>

type_synonym ssetest_Event = ParsedEvent
type_synonym ssetest_ReadOption = ReadOption
type_synonym 'r ssetest_StreamReader = "'r StreamReader"

definition ssetest_WithMaxLineBytes :: "int \<Rightarrow> ssetest_ReadOption" where
  "ssetest_WithMaxLineBytes maxBytes = WithMaxLineBytes maxBytes"

definition ssetest_ReadEvents ::
    "'r read_fn \<Rightarrow> 'r \<Rightarrow> ssetest_ReadOption list \<Rightarrow> (goerr + ssetest_Event list) outcome option" where
  "ssetest_ReadEvents read r opts = ReadEvents read r opts"

definition ssetest_ReadNEvents ::
    "'r read_fn \<Rightarrow> 'r \<Rightarrow> int \<Rightarrow> ssetest_ReadOption list \<Rightarrow> (goerr + ssetest_Event list) outcome option" where
  "ssetest_ReadNEvents read r n opts = ReadNEvents read r n opts"

definition ssetest_MustReadEvents ::
    "'r read_fn \<Rightarrow> 'r \<Rightarrow> ssetest_ReadOption list \<Rightarrow> ssetest_Event list outcome option" where
  "ssetest_MustReadEvents read r opts = MustReadEvents read r opts"

definition ssetest_MustReadNEvents ::
    "'r read_fn \<Rightarrow> 'r \<Rightarrow> int \<Rightarrow> ssetest_ReadOption list \<Rightarrow> ssetest_Event list outcome option" where
  "ssetest_MustReadNEvents read r n opts = MustReadNEvents read r n opts"

definition ssetest_NewStreamReader :: "'r \<Rightarrow> ssetest_ReadOption list \<Rightarrow> 'r ssetest_StreamReader" where
  "ssetest_NewStreamReader r opts = NewStreamReader r opts"

definition ssetest_MustReadNextEvent ::
    "'r read_fn \<Rightarrow> 'r ssetest_StreamReader \<Rightarrow> (ssetest_Event outcome \<times> 'r ssetest_StreamReader) option" where
  "ssetest_MustReadNextEvent read sr = MustReadNextEvent read sr"

definition ssetest_FindByType :: "ssetest_Event list \<Rightarrow> string \<Rightarrow> ssetest_Event \<times> bool" where
  "ssetest_FindByType events t = FindByType events t"

definition ssetest_FilterByType :: "ssetest_Event list \<Rightarrow> string \<Rightarrow> ssetest_Event list" where
  "ssetest_FilterByType events t = FilterByType events t"

definition ssetest_EventsString :: "ssetest_Event list \<Rightarrow> string" where
  "ssetest_EventsString events = EventsString events"

definition ssetest_RequireEventCount :: "testingTB \<Rightarrow> ssetest_Event list \<Rightarrow> int \<Rightarrow> unit outcome \<times> testingTB" where
  "ssetest_RequireEventCount tb events want = RequireEventCount tb events want"

definition ssetest_RequireEventType :: "testingTB \<Rightarrow> ssetest_Event \<Rightarrow> string \<Rightarrow> unit outcome \<times> testingTB" where
  "ssetest_RequireEventType tb evt want = RequireEventType tb evt want"

definition ssetest_RequireData :: "testingTB \<Rightarrow> ssetest_Event \<Rightarrow> string \<Rightarrow> unit outcome \<times> testingTB" where
  "ssetest_RequireData tb evt want = RequireData tb evt want"

definition ssetest_RequireDataContains :: "testingTB \<Rightarrow> ssetest_Event \<Rightarrow> string \<Rightarrow> unit outcome \<times> testingTB" where
  "ssetest_RequireDataContains tb evt want = RequireDataContains tb evt want"

definition ssetest_RequireEventID :: "testingTB \<Rightarrow> ssetest_Event \<Rightarrow> string \<Rightarrow> unit outcome \<times> testingTB" where
  "ssetest_RequireEventID tb evt want = RequireEventID tb evt want"

definition ssetest_RequireRetry :: "testingTB \<Rightarrow> ssetest_Event \<Rightarrow> uint \<Rightarrow> unit outcome \<times> testingTB" where
  "ssetest_RequireRetry tb evt want = RequireRetry tb evt want"

definition ssetest_RequireDataJSON ::
    "(string \<Rightarrow> goerr + 'v) \<Rightarrow> testingTB \<Rightarrow> ssetest_Event \<Rightarrow> 'v \<Rightarrow> unit outcome \<times> testingTB" where
  "ssetest_RequireDataJSON unmarshal tb evt want = RequireDataJSON unmarshal tb evt want"

lemmas ssetest_defs = ssetest_WithMaxLineBytes_def ssetest_ReadEvents_def ssetest_ReadNEvents_def
  ssetest_MustReadEvents_def ssetest_MustReadNEvents_def ssetest_NewStreamReader_def
  ssetest_MustReadNextEvent_def ssetest_FindByType_def ssetest_FilterByType_def ssetest_EventsString_def
  ssetest_RequireEventCount_def ssetest_RequireEventType_def ssetest_RequireData_def
  ssetest_RequireDataContains_def ssetest_RequireEventID_def ssetest_RequireRetry_def
  ssetest_RequireDataJSON_def

subsection \<open>What a test with these assertions pins down\<close>

text \<open>One assertion after another: a fatal one ends the test.\<close>

definition and_then :: "unit outcome \<times> testingTB \<Rightarrow> (testingTB \<Rightarrow> unit outcome \<times> testingTB) \<Rightarrow> unit outcome \<times> testingTB" where
  "and_then res f = (case res of (Panic m, tb) \<Rightarrow> (Panic m, tb) | (Ret _, tb) \<Rightarrow> f tb)"

definition require_event :: "testingTB \<Rightarrow> ParsedEvent \<Rightarrow> string \<times> string \<times> string \<times> uint \<Rightarrow> unit outcome \<times> testingTB" where
  "require_event tb evt = (\<lambda>(ty, d, i, r).
     and_then (ssetest_RequireEventType tb evt ty) (\<lambda>tb.
       and_then (ssetest_RequireData tb evt d) (\<lambda>tb.
         and_then (ssetest_RequireEventID tb evt i) (\<lambda>tb. ssetest_RequireRetry tb evt r))))"

fun require_events :: "testingTB \<Rightarrow> ParsedEvent list \<Rightarrow> (string \<times> string \<times> string \<times> uint) list \<Rightarrow> unit outcome \<times> testingTB" where
  "require_events tb (e # es) (x # xs) = and_then (require_event tb e x) (\<lambda>tb. require_events tb es xs)"
| "require_events tb es xs = (Ret (), tb)"

definition observed :: "ParsedEvent \<Rightarrow> string \<times> string \<times> string \<times> uint" where
  "observed e = (pe_Type e, Data e, pe_ID e, pe_Retry e)"

lemmas require_defs = RequireEventCount_def RequireEventType_def RequireData_def RequireEventID_def
  RequireRetry_def Errorf_tb_def Fatalf_def

lemma require_event_pass: "require_event tb e x = (Ret (), tb) \<longleftrightarrow> observed e = x"
  by (cases x; cases tb) (auto simp: require_event_def and_then_def ssetest_defs require_defs observed_def)

lemma require_event_log: "\<exists>new. tb_log (snd (require_event tb e x)) = tb_log tb @ new"
  by (cases x) (simp add: require_event_def and_then_def ssetest_defs require_defs)

lemma require_events_log: "\<exists>new. tb_log (snd (require_events tb es xs)) = tb_log tb @ new"
proof (induction tb es xs rule: require_events.induct)
  case (1 tb e es x xs)
  obtain res tb1 where r: "require_event tb e x = (res, tb1)" by force
  obtain n1 where n1: "tb_log tb1 = tb_log tb @ n1" using require_event_log [of tb e x] r by auto
  obtain n2 where "tb_log (snd (require_events tb1 es xs)) = tb_log tb1 @ n2" using 1 by blast
  with n1 r show ?case by (cases res) (simp_all add: and_then_def)
qed auto

lemma require_events_pass:
  "length es = length xs \<Longrightarrow> require_events tb es xs = (Ret (), tb) \<longleftrightarrow> map observed es = xs"
proof (induction es arbitrary: tb xs)
  case (Cons e es)
  then obtain x ys where xs: "xs = x # ys" by (cases xs) auto
  obtain res tb1 where r: "require_event tb e x = (res, tb1)" by force
  obtain new where new: "tb_log tb1 = tb_log tb @ new" using require_event_log [of tb e x] r by auto
  show ?case
  proof (cases "observed e = x")
    case True
    then have "require_event tb e x = (Ret (), tb)" by (simp add: require_event_pass)
    then show ?thesis using Cons True xs by (simp add: and_then_def)
  next
    case False
    then have "\<not> (res = Ret () \<and> tb1 = tb)" using require_event_pass [of tb e x] r by simp
    moreover have "tb1 = tb" if "require_events tb1 es ys = (Ret (), tb)"
      using require_events_log [of tb1 es ys] that new by (cases tb; cases tb1) auto
    ultimately show ?thesis using False xs r by (cases res) (auto simp: and_then_def)
  qed
qed auto

text \<open>
  C40. A test of the form the package documents (count the events, then check type, data,
  identifier and retry time of each) passes without a noted failure exactly when the events
  read are the expected ones: the assertions miss no difference and report none that is not
  there, whether they end the test or go on.
\<close>

theorem requires_pin_events:
  "and_then (ssetest_RequireEventCount tb events (int (length want))) (\<lambda>tb. require_events tb events want) =
     (Ret (), tb) \<longleftrightarrow>
   map (\<lambda>e. (pe_Type e, Data e, pe_ID e, pe_Retry e)) events = want"
proof (cases "length events = length want")
  case True
  then show ?thesis
    using require_events_pass [of events want tb]
    by (simp add: and_then_def ssetest_defs require_defs observed_def [abs_def])
next
  case False
  then show ?thesis by (cases tb) (auto simp: and_then_def ssetest_defs require_defs)
qed

end
