(* ===== verification/Collect.thy ===== *)
theory Collect
  imports Testing Reconnect
begin

text \<open>
  The test client of \<open>ssetest\<close>: the request options of \<open>options.go\<close> and the collectors of
  \<open>collect.go\<close>. The HTTP transport (test server, client, network) is a parameter: what it
  answers to a request, or the error it reports.
\<close>

subsection \<open>http.Header\<close>

text \<open>
  A header maps canonical names to their values. \<open>CanonicalMIMEHeaderKey\<close> puts the first letter
  and each letter after a hyphen in upper case and the others in lower case; a name with a
  byte that is not allowed in a token stays as it is.
\<close>

type_synonym http_header = "(string \<times> string list) list"

definition lowerByte :: "char \<Rightarrow> bool" where
  "lowerByte c \<longleftrightarrow> 97 \<le> (of_char c :: nat) \<and> (of_char c :: nat) \<le> 122"

definition upperByte :: "char \<Rightarrow> bool" where
  "upperByte c \<longleftrightarrow> 65 \<le> (of_char c :: nat) \<and> (of_char c :: nat) \<le> 90"

definition tokenByte :: "char \<Rightarrow> bool" where
  "tokenByte c \<longleftrightarrow> lowerByte c \<or> upperByte c \<or> isDigit c \<or> c \<in> set ''!#$%&*+-.^_`|~'' \<or> c = CHR 0x27"

fun canonicalLoop :: "bool \<Rightarrow> string \<Rightarrow> string" where
  "canonicalLoop upper [] = []"
| "canonicalLoop upper (c # s) =
     (let c' = (if upper \<and> lowerByte c then char_of (of_char c - 32 :: nat)
                else if \<not> upper \<and> upperByte c then char_of (of_char c + 32 :: nat) else c)
      in c' # canonicalLoop (c' = CHR ''-'') s)"

definition CanonicalHeaderKey :: "string \<Rightarrow> string" where
  "CanonicalHeaderKey s = (if list_all tokenByte s then canonicalLoop True s else s)"

fun update_key :: "string \<Rightarrow> (string list \<Rightarrow> string list) \<Rightarrow> http_header \<Rightarrow> http_header" where
  "update_key k f [] = [(k, f [])]"
| "update_key k f ((k', vs) # h) = (if k' = k then (k', f vs) # h else (k', vs) # update_key k f h)"

definition Header_Add :: "string \<Rightarrow> string \<Rightarrow> http_header \<Rightarrow> http_header" where
  "Header_Add key v h = update_key (CanonicalHeaderKey key) (\<lambda>vs. vs @ [v]) h"

definition Header_Set :: "string \<Rightarrow> string \<Rightarrow> http_header \<Rightarrow> http_header" where
  "Header_Set key v h = update_key (CanonicalHeaderKey key) (\<lambda>vs. [v]) h"

definition values_of_key :: "http_header \<Rightarrow> string \<Rightarrow> string list" where
  "values_of_key h k = (case map_of h k of None \<Rightarrow> [] | Some vs \<Rightarrow> vs)"

subsection \<open>Options\<close>

record requestConfig =
  rc_path :: string
  rc_headers :: "http_header option"

type_synonym RequestOption = "requestConfig \<Rightarrow> requestConfig"

definition WithPath :: "string \<Rightarrow> RequestOption" where
  "WithPath p cfg = cfg\<lparr>rc_path := p\<rparr>"

definition WithHeader :: "string \<Rightarrow> string \<Rightarrow> RequestOption" where
  "WithHeader key v cfg =
     (let h = (case rc_headers cfg of None \<Rightarrow> [] | Some h \<Rightarrow> h)
      in cfg\<lparr>rc_headers := Some (Header_Add key v h)\<rparr>)"

definition WithLastEventID :: "'i brandid \<Rightarrow> 'i \<Rightarrow> RequestOption" where
  "WithLastEventID B i cfg =
     (if IsZero B i then cfg
      else let h = (case rc_headers cfg of None \<Rightarrow> [] | Some h \<Rightarrow> h)
           in cfg\<lparr>rc_headers := Some (Header_Set ''Last-Event-ID'' (GetID B i) h)\<rparr>)"

definition targetPath :: "requestConfig \<Rightarrow> string" where
  "targetPath c = (if rc_path c = [] then ''/'' else rc_path c)"

definition applyRequestOptions :: "RequestOption list \<Rightarrow> requestConfig" where
  "applyRequestOptions opts = foldl (\<lambda>cfg opt. opt cfg) \<lparr>rc_path = [], rc_headers = None\<rparr> opts"

subsection \<open>Requests\<close>

record http_request =
  hr_method :: string
  hr_target :: string
  hr_header :: http_header
  hr_body :: "string option"

text \<open>
  The transport: the address of the test server, the error of building a request, the answer
  to a request (or an error), and the error of closing its body. The body is a byte source.
\<close>

record transport =
  srv_URL :: string
  build_error :: "string \<Rightarrow> string \<Rightarrow> goerr option"
  answer :: "http_request \<Rightarrow> goerr + source"
  close_error :: "http_request \<Rightarrow> goerr option"

text \<open>The header loops of \<open>doRequest\<close>: every value of every key is added, in any order of keys.\<close>

definition addValues :: "http_header \<Rightarrow> http_header \<Rightarrow> http_header" where
  "addValues = fold (\<lambda>(key, vs) h. fold (Header_Add key) vs h)"

definition doRequest ::
    "transport \<Rightarrow> (http_header \<Rightarrow> http_header) \<Rightarrow> testingTB \<Rightarrow> string \<Rightarrow> string option \<Rightarrow> string \<Rightarrow> RequestOption list \<Rightarrow>
     (http_request \<times> source) outcome \<times> testingTB" where
  "doRequest net ord tb meth body contentType opts =
     (let cfg = applyRequestOptions opts;
          target = srv_URL net @ targetPath cfg
      in case build_error net meth target of
           Some err \<Rightarrow> Fatalf ''build request'' tb
         | None \<Rightarrow>
             (let h = (if contentType \<noteq> [] then Header_Set ''Content-Type'' contentType [] else []);
                  h = (case rc_headers cfg of None \<Rightarrow> h | Some hs \<Rightarrow> addValues (ord hs) h);
                  req = \<lparr>hr_method = meth, hr_target = target, hr_header = h, hr_body = body\<rparr>
              in case answer net req of
                   Inl err \<Rightarrow> Fatalf ''test server'' tb
                 | Inr resp \<Rightarrow> (Ret (req, resp), tb)))"

definition closeBody :: "transport \<Rightarrow> http_request \<Rightarrow> testingTB \<Rightarrow> testingTB" where
  "closeBody net req tb =
     (case close_error net req of None \<Rightarrow> tb | Some err \<Rightarrow> snd (Errorf_tb ''close response body'' tb))"

subsection \<open>Collectors\<close>

text \<open>Reading the body, then the deferred \<open>closeBody\<close>, also when the reading ends the test.\<close>

definition collectBody ::
    "transport \<Rightarrow> (source \<Rightarrow> ParsedEvent list outcome option) \<Rightarrow> (http_request \<times> source) outcome \<times> testingTB \<Rightarrow>
     (ParsedEvent list outcome \<times> testingTB) option" where
  "collectBody net readBody = (\<lambda>(res, tb). case res of
     Panic m \<Rightarrow> Some (Panic m, tb)
   | Ret (req, resp) \<Rightarrow>
       Option.bind (readBody resp) (\<lambda>r. Some (case r of
          Panic m \<Rightarrow> (Panic m, closeBody net req (snd (Fatalf m tb :: unit outcome \<times> testingTB)))
        | Ret events \<Rightarrow> (Ret events, closeBody net req tb))))"

definition CollectWithRequest ::
    "transport \<Rightarrow> (http_header \<Rightarrow> http_header) \<Rightarrow> testingTB \<Rightarrow> string \<Rightarrow> string option \<Rightarrow> string \<Rightarrow> RequestOption list \<Rightarrow>
     (ParsedEvent list outcome \<times> testingTB) option" where
  "CollectWithRequest net ord tb meth body contentType opts =
     collectBody net (\<lambda>resp. ssetest_MustReadEvents source_Read resp [])
       (doRequest net ord tb meth body contentType opts)"

definition Collect ::
    "transport \<Rightarrow> (http_header \<Rightarrow> http_header) \<Rightarrow> testingTB \<Rightarrow> RequestOption list \<Rightarrow>
     (ParsedEvent list outcome \<times> testingTB) option" where
  "Collect net ord tb opts =
     collectBody net (\<lambda>resp. ssetest_MustReadEvents source_Read resp [])
       (doRequest net ord tb ''GET'' None [] opts)"

definition CollectPost ::
    "transport \<Rightarrow> (http_header \<Rightarrow> http_header) \<Rightarrow> testingTB \<Rightarrow> string \<Rightarrow> RequestOption list \<Rightarrow>
     (ParsedEvent list outcome \<times> testingTB) option" where
  "CollectPost net ord tb jsonBody opts =
     CollectWithRequest net ord tb ''POST'' (Some jsonBody) ''application/json'' opts"

definition readOrFail :: "int \<Rightarrow> source \<Rightarrow> ParsedEvent list outcome option" where
  "readOrFail n resp =
     Option.bind (ssetest_ReadNEvents source_Read resp n []) (\<lambda>r. Some (case r of
        Panic m \<Rightarrow> Panic m
      | Ret (Inl err) \<Rightarrow> Panic ''read events''
      | Ret (Inr events) \<Rightarrow> Ret events))"

definition CollectN ::
    "transport \<Rightarrow> (http_header \<Rightarrow> http_header) \<Rightarrow> testingTB \<Rightarrow> int \<Rightarrow> RequestOption list \<Rightarrow>
     (ParsedEvent list outcome \<times> testingTB) option" where
  "CollectN net ord tb n opts =
     (if n \<le> 0 then Some (Ret [], tb)
      else collectBody net (readOrFail n) (doRequest net ord tb ''GET'' None [] opts))"

text \<open>With a deadline the body ends with the context's error at that time.\<close>

definition maxEvents :: int where "maxEvents = 2 ^ 30"

definition CollectWithTimeout ::
    "transport \<Rightarrow> (http_header \<Rightarrow> http_header) \<Rightarrow> testingTB \<Rightarrow> RequestOption list \<Rightarrow>
     (ParsedEvent list outcome \<times> testingTB) option" where
  "CollectWithTimeout net ord tb opts =
     collectBody net (readOrFail maxEvents) (doRequest net ord tb ''GET'' None [] opts)"

subsection \<open>Header lemmas\<close>

lemma map_of_update_key:
  "map_of (update_key k f h) k' = (if k' = k then Some (f (values_of_key h k)) else map_of h k')"
  by (induction k f h rule: update_key.induct) (auto simp: values_of_key_def)

lemma values_of_update_key:
  "values_of_key (update_key k f h) k' = (if k' = k then f (values_of_key h k) else values_of_key h k')"
  by (simp add: values_of_key_def [of "update_key k f h"] map_of_update_key) (simp add: values_of_key_def)

lemma update_key_keys: "fst ` set (update_key k f h) = insert k (fst ` set h)"
  by (induction k f h rule: update_key.induct) auto

lemma update_key_distinct: "distinct (map fst h) \<Longrightarrow> distinct (map fst (update_key k f h))"
  using update_key_keys by (induction k f h rule: update_key.induct) (auto simp: image_iff)

lemma case_bytes:
  "lowerByte c \<Longrightarrow> upperByte (char_of (of_char c - 32 :: nat))"
  "upperByte c \<Longrightarrow> lowerByte (char_of (of_char c + 32 :: nat))"
  "upperByte c \<Longrightarrow> \<not> lowerByte c"
  by (auto simp: lowerByte_def upperByte_def)

lemma canonicalLoop_idem: "canonicalLoop u (canonicalLoop u s) = canonicalLoop u s"
  using case_bytes by (induction u s rule: canonicalLoop.induct) (auto simp: Let_def)

lemma canonicalLoop_token: "list_all tokenByte s \<Longrightarrow> list_all tokenByte (canonicalLoop u s)"
  using case_bytes by (induction u s rule: canonicalLoop.induct) (auto simp: Let_def tokenByte_def)

lemma canonical_idem [simp]: "CanonicalHeaderKey (CanonicalHeaderKey s) = CanonicalHeaderKey s"
  by (simp add: CanonicalHeaderKey_def canonicalLoop_idem canonicalLoop_token)

lemma Header_Add_all:
  "values_of_key (fold (Header_Add key) vs h) k =
     values_of_key h k @ (if k = CanonicalHeaderKey key then vs else [])"
  by (induction vs arbitrary: h) (simp_all add: Header_Add_def values_of_update_key)

definition header_ok :: "http_header \<Rightarrow> bool" where
  "header_ok h \<longleftrightarrow> distinct (map fst h) \<and> (\<forall>k \<in> fst ` set h. CanonicalHeaderKey k = k)"

lemma header_ok_update: "header_ok h \<Longrightarrow> header_ok (update_key (CanonicalHeaderKey k) f h)"
  by (auto simp: header_ok_def update_key_distinct update_key_keys)

lemma values_addValues:
  "header_ok hs \<Longrightarrow> values_of_key (addValues hs h) k = values_of_key h k @ values_of_key hs k"
proof (induction hs arbitrary: h)
  case (Cons x hs)
  obtain key vs where x: "x = (key, vs)" by force
  have ok: "header_ok hs" "CanonicalHeaderKey key = key" "key \<notin> fst ` set hs"
    using Cons.prems x by (auto simp: header_ok_def)
  then have "values_of_key hs key = []" by (auto simp: values_of_key_def map_of_eq_None_iff split: option.splits dest: map_of_SomeD intro: rev_image_eqI)
  then show ?case
    using Cons.IH [OF ok(1), of "fold (Header_Add key) vs h"] ok(2) x
    by (auto simp: addValues_def Header_Add_all values_of_key_def [of "(key, vs) # hs"]) (simp add: values_of_key_def)
qed (simp add: addValues_def values_of_key_def)

lemma header_permuted:
  assumes "header_ok hs" "mset hs' = mset hs"
  shows "header_ok hs'" "values_of_key hs' = values_of_key hs"
proof -
  have s: "set hs' = set hs" using assms(2) by (metis set_mset_mset)
  have d: "distinct (map fst hs')"
    using assms by (metis header_ok_def mset_eq_imp_distinct_iff mset_map)
  then show "header_ok hs'" using assms(1) s by (simp add: header_ok_def)
  have "map_of hs' = map_of hs"
    using map_of_inject_set [OF d, of hs] assms(1) s by (simp add: header_ok_def)
  then show "values_of_key hs' = values_of_key hs" by (simp add: values_of_key_def fun_eq_iff)
qed

subsection \<open>The request the options describe\<close>

text \<open>The options of the package; \<open>requestConfig\<close> is not exported, so there are no others.\<close>

definition plain_option :: "RequestOption \<Rightarrow> bool" where
  "plain_option opt \<longleftrightarrow> (\<exists>p. opt = WithPath p) \<or> (\<exists>k v. opt = WithHeader k v)"

definition request_option :: "'i brandid \<Rightarrow> RequestOption \<Rightarrow> bool" where
  "request_option B opt \<longleftrightarrow> plain_option opt \<or> (\<exists>i. opt = WithLastEventID B i)"

definition config_header :: "requestConfig \<Rightarrow> http_header" where
  "config_header cfg = (case rc_headers cfg of None \<Rightarrow> [] | Some h \<Rightarrow> h)"

lemma config_header_simps:
  "config_header (WithPath p cfg) = config_header cfg"
  "config_header (WithHeader k v cfg) = Header_Add k v (config_header cfg)"
  "config_header (WithLastEventID B i cfg) =
     (if IsZero B i then config_header cfg else Header_Set ''Last-Event-ID'' (GetID B i) (config_header cfg))"
  by (simp_all add: config_header_def WithPath_def WithHeader_def WithLastEventID_def)

lemma option_header_ok:
  "request_option B opt \<Longrightarrow> header_ok (config_header cfg) \<Longrightarrow> header_ok (config_header (opt cfg))"
  by (auto simp: request_option_def plain_option_def config_header_simps Header_Add_def Header_Set_def header_ok_update)

lemma options_header_ok:
  "list_all (request_option B) opts \<Longrightarrow> header_ok (config_header cfg) \<Longrightarrow>
   header_ok (config_header (foldl (\<lambda>cfg opt. opt cfg) cfg opts))"
  by (induction opts arbitrary: cfg) (simp_all add: option_header_ok [of B])

text \<open>Options after it may add values but do not replace the first one.\<close>

lemma plain_option_first:
  assumes "plain_option opt" "values_of_key (config_header cfg) k = v # vs"
  shows "\<exists>vs'. values_of_key (config_header (opt cfg)) k = v # vs'"
  using assms by (auto simp: plain_option_def config_header_simps Header_Add_def values_of_update_key)

lemma plain_options_first:
  assumes "list_all plain_option opts" "values_of_key (config_header cfg) k = v # vs"
  shows "\<exists>vs'. values_of_key (config_header (foldl (\<lambda>cfg opt. opt cfg) cfg opts)) k = v # vs'"
  using assms
proof (induction opts arbitrary: cfg vs)
  case (Cons opt opts)
  then obtain vs' where "values_of_key (config_header (opt cfg)) k = v # vs'"
    using plain_option_first [of opt cfg k v vs] by auto
  then show ?case using Cons by simp
qed simp

lemma canonical_names:
  "CanonicalHeaderKey ''Last-Event-ID'' = ''Last-Event-Id''"
  "CanonicalHeaderKey ''Content-Type'' = ''Content-Type''"
  by code_simp+

lemma options_LastEventID:
  assumes "list_all (request_option B) before" "list_all plain_option after" "\<not> IsZero B i"
  defines "cfg \<equiv> applyRequestOptions (before @ WithLastEventID B i # after)"
  shows "header_ok (config_header cfg)"
    and "\<exists>vs. values_of_key (config_header cfg) ''Last-Event-Id'' = GetID B i # vs"
proof -
  let ?c0 = "\<lparr>rc_path = [], rc_headers = None\<rparr> :: requestConfig"
  let ?c1 = "WithLastEventID B i (foldl (\<lambda>cfg opt. opt cfg) ?c0 before)"
  have cfg: "cfg = foldl (\<lambda>cfg opt. opt cfg) ?c1 after"
    by (simp add: cfg_def applyRequestOptions_def)
  have "list_all (request_option B) (before @ WithLastEventID B i # after)"
    using assms(1,2) by (auto simp: request_option_def list_all_iff)
  moreover have "header_ok (config_header ?c0)" by (simp add: config_header_def header_ok_def)
  ultimately show "header_ok (config_header cfg)"
    unfolding cfg_def applyRequestOptions_def by (rule options_header_ok)
  have "values_of_key (config_header ?c1) ''Last-Event-Id'' = [GetID B i]"
    using assms(3) by (simp add: config_header_simps Header_Set_def values_of_update_key canonical_names)
  then show "\<exists>vs. values_of_key (config_header cfg) ''Last-Event-Id'' = GetID B i # vs"
    using plain_options_first [OF assms(2)] cfg by simp
qed

text \<open>The request as the handler sees it: \<open>Header.Get\<close> of a name is its first value.\<close>

definition server_request :: "http_request \<Rightarrow> request" where
  "server_request req = \<lparr>rq_header = (\<lambda>k. case values_of_key (hr_header req) (CanonicalHeaderKey k) of
     [] \<Rightarrow> None | v # _ \<Rightarrow> Some v)\<rparr>"

definition go_map_order :: "(http_header \<Rightarrow> http_header) \<Rightarrow> bool" where
  "go_map_order ord \<longleftrightarrow> (\<forall>h. mset (ord h) = mset h)"

text \<open>The request \<open>doRequest\<close> sends without a body.\<close>

definition get_request :: "transport \<Rightarrow> (http_header \<Rightarrow> http_header) \<Rightarrow> RequestOption list \<Rightarrow> http_request" where
  "get_request net ord opts =
     (let cfg = applyRequestOptions opts
      in \<lparr>hr_method = ''GET'', hr_target = srv_URL net @ targetPath cfg,
          hr_header = (case rc_headers cfg of None \<Rightarrow> [] | Some hs \<Rightarrow> addValues (ord hs) []), hr_body = None\<rparr>)"

lemma doRequest_get:
  assumes "build_error net ''GET'' (hr_target (get_request net ord opts)) = None"
    and "answer net (get_request net ord opts) = Inr resp"
  shows "doRequest net ord tb ''GET'' None [] opts = (Ret (get_request net ord opts, resp), tb)"
  using assms by (simp add: doRequest_def get_request_def Let_def)

lemma get_request_values:
  assumes "go_map_order ord" "header_ok (config_header (applyRequestOptions opts))"
  shows "values_of_key (hr_header (get_request net ord opts)) k =
    values_of_key (config_header (applyRequestOptions opts)) k"
proof (cases "rc_headers (applyRequestOptions opts)")
  case None
  then show ?thesis by (simp add: get_request_def Let_def config_header_def)
next
  case (Some hs)
  then have hs: "header_ok hs" "mset (ord hs) = mset hs"
    using assms by (simp_all add: config_header_def go_map_order_def)
  show ?thesis
    using Some values_addValues [OF header_permuted(1) [OF hs], of "[]" k] header_permuted(2) [OF hs]
    by (simp add: get_request_def Let_def config_header_def values_of_key_def [of "[]"])
qed

lemma request_carries_id:
  assumes "list_all (request_option B) before" "list_all plain_option after" "\<not> IsZero B i" "go_map_order ord"
  shows "headerGet (rq_header (server_request (get_request net ord (before @ WithLastEventID B i # after))))
    ''Last-Event-ID'' = GetID B i"
  using options_LastEventID [OF assms(1-3)] get_request_values [OF assms(4)]
  by (auto simp: server_request_def headerGet_def canonical_names)

subsection \<open>Collecting a replay\<close>

text \<open>
  A server that answers each request with a replay of the store after the request's
  \<open>Last-Event-ID\<close>, then ends the response; its bytes arrive in any portions.
\<close>

definition replaying :: "'i brandid \<Rightarrow> 'i memStore \<Rightarrow> transport \<Rightarrow> http_request \<Rightarrow> bool" where
  "replaying B st net req \<longleftrightarrow> build_error net (hr_method req) (hr_target req) = None \<and>
     (\<exists>rw src res s'. accepting (NewStream rw (server_request req)) \<and> wire (rw_w rw) = [] \<and>
        Replay B (NewStream rw (server_request req)) (memEventStore B st)
          (LastEventIDFromRequest B (server_request req)) = (res, s') \<and>
        answer net req = Inr src \<and> source_ready src \<and> source_ending src = Ends EOF \<and>
        source_stream src = wire (rw_w (st_w s')))"

lemma numbered_not_zero:
  assumes "brandid_ok B" "numbered B st" "e \<in> set (ms_events st)"
  shows "\<not> IsZero B (ev_ID e)"
proof -
  have "Atoi (GetID B (ev_ID e)) = Inr (seqOf B e)"
    using assms(2,3) by (simp add: numbered_def list_all_iff)
  moreover have "Atoi [] = Inl ErrSyntax" by code_simp
  ultimately have "GetID B (ev_ID e) \<noteq> []" by auto
  then show ?thesis using assms(1) by (simp add: brandid_okD)
qed

text \<open>
  C15. The test client can test reconnection: against a server that replays \<open>memStore\<close>, \<open>Collect\<close>
  with \<open>WithLastEventID\<close> of a stored event among its options (any options before it, paths and
  headers after it, in any iteration order of the header map) returns exactly the events
  stored after that one, and logs nothing on the test when the body closes without error.
\<close>

theorem Collect_reconnects:
  assumes "brandid_ok B" "numbered B st" "ms_events st = seen @ e # missed"
    and "list_all (fits_reader B []) (e # missed)"
    and "list_all (request_option B) before" "list_all plain_option after" "go_map_order ord"
    and "replaying B st net (get_request net ord (before @ WithLastEventID B (ev_ID e) # after))"
    and "close_error net = (\<lambda>req. None)"
  shows "Collect net ord tb (before @ WithLastEventID B (ev_ID e) # after) =
    Some (Ret (received B [] 0 (map OutEvent missed)), tb)"
proof -
  let ?opts = "before @ WithLastEventID B (ev_ID e) # after"
  let ?req = "get_request net ord ?opts"
  obtain rw src res s' where srv: "accepting (NewStream rw (server_request ?req))" "wire (rw_w rw) = []"
      "Replay B (NewStream rw (server_request ?req)) (memEventStore B st)
         (LastEventIDFromRequest B (server_request ?req)) = (res, s')"
      "answer net ?req = Inr src" "source_ready src" "source_ending src = Ends EOF"
      "source_stream src = wire (rw_w (st_w s'))" and be: "build_error net (hr_method ?req) (hr_target ?req) = None"
    using assms(8) unfolding replaying_def by (elim exE conjE)
  have "\<not> IsZero B (ev_ID e)" using numbered_not_zero [OF assms(1,2)] assms(3) by simp
  note id = request_carries_id [OF assms(5,6) this assms(7), of net]
  have "ReadEvents source_Read src [] = Some (Ret (Inr (received B [] 0 (map OutEvent missed))))"
    by (rule replay_read_back(2) [OF assms(1-3) srv(1,2) id assms(4) srv(3) limit_ok_default srv(5-7)])
  moreover have "doRequest net ord tb ''GET'' None [] ?opts = (Ret (?req, src), tb)"
    using be srv(4) by (intro doRequest_get) (simp_all add: get_request_def Let_def)
  ultimately show ?thesis
    using assms(9) by (simp add: Collect_def collectBody_def closeBody_def ssetest_defs MustReadEvents_def)
qed

subsection \<open>Live streams\<close>

text \<open>A server that answers the request with a response body.\<close>

definition answers :: "transport \<Rightarrow> http_request \<Rightarrow> source \<Rightarrow> bool" where
  "answers net req resp \<longleftrightarrow> build_error net (hr_method req) (hr_target req) = None \<and> answer net req = Inr resp"

lemma doRequest_answered:
  assumes "answers net (get_request net ord opts) resp"
  shows "doRequest net ord tb ''GET'' None [] opts = (Ret (get_request net ord opts, resp), tb)"
  using assms by (intro doRequest_get) (simp_all add: answers_def get_request_def Let_def)

lemma readOrFail_result:
  assumes "readable resp []" "0 < n"
  shows "readOrFail (int n) resp =
    (if n \<le> length (source_events resp) then Some (Ret (take n (source_events resp)))
     else (case source_ending resp of
        Blocks \<Rightarrow> None
      | Ends x \<Rightarrow> Some (if x = EOF \<or> source_events resp \<noteq> [] then Ret (source_events resp) else Panic ''read events'')))"
  using ReadNEvents_result [OF assms]
  by (cases "source_ending resp") (auto simp: readOrFail_def ssetest_defs)

text \<open>
  C28. \<open>CollectWithTimeout\<close> always comes back with what has arrived: when the response ends, by
  itself or with the error of the deadline, the test gets all events received so far; only
  when a deadline (or another error) cuts the response before any event does the test fail,
  with one message. The body is closed on both paths, and an error of closing it is one
  more message.
\<close>

theorem CollectWithTimeout_keeps_events:
  assumes "answers net (get_request net ord opts) resp" "readable resp []" "source_ending resp = Ends x"
    and "length (source_events resp) < 2 ^ 30"
  defines "closed \<equiv> (if close_error net (get_request net ord opts) = None then [] else [''close response body''])"
  shows "CollectWithTimeout net ord tb opts = Some
    (if x = EOF \<or> source_events resp \<noteq> [] then (Ret (source_events resp), tb\<lparr>tb_log := tb_log tb @ closed\<rparr>)
     else (Panic ''read events'', tb\<lparr>tb_log := tb_log tb @ ''read events'' # closed\<rparr>))"
proof -
  have "readOrFail maxEvents resp =
      Some (if x = EOF \<or> source_events resp \<noteq> [] then Ret (source_events resp) else Panic ''read events'')"
    using readOrFail_result [OF assms(2), of "2 ^ 30"] assms(3,4) by (simp add: maxEvents_def)
  then show ?thesis
    using doRequest_answered [OF assms(1)]
    by (cases "close_error net (get_request net ord opts)")
      (simp_all add: CollectWithTimeout_def collectBody_def closeBody_def Fatalf_def Errorf_tb_def closed_def)
qed

text \<open>\<open>CollectN\<close> needs no end of the response: the wanted events are enough.\<close>

lemma CollectN_live:
  assumes "answers net (get_request net ord opts) resp" "readable resp []" "0 < n"
    and "n \<le> length (source_events resp)" "close_error net (get_request net ord opts) = None"
  shows "CollectN net ord tb (int n) opts = Some (Ret (take n (source_events resp)), tb)"
  using readOrFail_result [OF assms(2,3)] doRequest_answered [OF assms(1)] assms(3-5)
  by (simp add: CollectN_def collectBody_def closeBody_def)

subsection \<open>Witnesses\<close>

definition sample_net :: "source \<Rightarrow> transport" where
  "sample_net resp = \<lparr>srv_URL = ''http://127.0.0.1:1'', build_error = (\<lambda>m t. None),
     answer = (\<lambda>req. Inr resp), close_error = (\<lambda>req. None)\<rparr>"

text \<open>One event, then the deadline cuts the second.\<close>

definition sample_cut :: source where
  "sample_cut = [Chunk (''data: a'' @ [LF, LF] @ ''data: b'') None, Chunk [] (Some (EnvError 4))]"

lemma sample_cut_simps: "readable sample_cut []" "source_ending sample_cut = Ends (EnvError 4)"
  "source_events sample_cut = [\<lparr>pe_Type = [], pe_DataLines = [''a''], pe_ID = [], pe_Retry = 0\<rparr>]"
proof -
  have "line_limit [] = 1048576"
    by (simp add: line_limit_def applyReadOptions_def DefaultMaxLineBytes_def)
  then show "readable sample_cut []"
    by (simp add: readable_def limit_ok_default sample_cut_def strip_bom_def utf8BOM_def TrimPrefix_def)
  show "source_ending sample_cut = Ends (EnvError 4)" by (simp add: sample_cut_def)
  have "source_lines sample_cut = [''data: a'', [], ''data: b'']" by code_simp
  then show "source_events sample_cut = [\<lparr>pe_Type = [], pe_DataLines = [''a''], pe_ID = [], pe_Retry = 0\<rparr>]"
    by (simp add: source_events_def stream_events_def dispatch_points_def event_after_def
        values_of_def current_frame_def field_name_def field_value_def last_or_def upt_rec)
qed

theorem CollectWithTimeout_keeps_events_witness:
  "CollectWithTimeout (sample_net sample_cut) id \<lparr>tb_log = []\<rparr> [WithPath ''/events''] =
   Some (Ret [\<lparr>pe_Type = [], pe_DataLines = [''a''], pe_ID = [], pe_Retry = 0\<rparr>], \<lparr>tb_log = []\<rparr>)"
  using CollectWithTimeout_keeps_events [of "sample_net sample_cut" id "[WithPath ''/events'']" sample_cut
      "EnvError 4" "\<lparr>tb_log = []\<rparr>"]
  by (simp add: answers_def sample_net_def sample_cut_simps)

text \<open>A server with the store of three events of which it has kept two.\<close>

definition sample_handler :: "http_request \<Rightarrow> (nat \<times> goerr option) outcome \<times> Stream" where
  "sample_handler req = Replay string_id (NewStream (sample_response []) (server_request req))
     (memEventStore string_id sample_store) (LastEventIDFromRequest string_id (server_request req))"

definition sample_replay_net :: transport where
  "sample_replay_net = (sample_net [])\<lparr>answer := (\<lambda>req. Inr [Chunk (wire (rw_w (st_w (snd (sample_handler req))))) None])\<rparr>"

definition sample_options :: "RequestOption list" where
  "sample_options = [WithPath ''/events'', WithHeader ''last-event-id'' ''1''] @
     WithLastEventID string_id ''2'' # [WithHeader ''x-trace'' ''7'']"

lemma sample_options_id:
  "headerGet (rq_header (server_request (get_request net id sample_options))) ''Last-Event-ID'' = ''2''"
  unfolding sample_options_def
  by (rule request_carries_id [where B = string_id and i = "''2''", simplified])
    (auto simp: request_option_def plain_option_def go_map_order_def)

lemma sample_stored_fits: "fits_reader string_id [] (sample_stored i) \<longleftrightarrow> no_eol i \<and> NUL \<notin> set i \<and> length i < 1048572"
proof -
  have d: "data_lines ''d'' = [''d'']" by code_simp
  have l: "line_limit [] = 1048576"
    by (simp add: line_limit_def applyReadOptions_def DefaultMaxLineBytes_def)
  show ?thesis
    by (auto simp: fits_reader_def l event_lines_def field_line_def sample_stored_def d)
qed

lemma sample_replaying: "replaying string_id sample_store sample_replay_net (get_request sample_replay_net id sample_options)"
proof -
  let ?req = "get_request sample_replay_net id sample_options"
  let ?s = "NewStream (sample_response []) (server_request ?req)"
  have acc: "accepting ?s" by (simp add: accepting_def stream_sample_defs)
  have fit: "fits_reader string_id [] (sample_stored ''2'')"
    by (simp add: sample_stored_fits)
  have id: "GetID string_id (LastEventIDFromRequest string_id (server_request ?req)) = GetID string_id (ev_ID (sample_stored ''2''))"
    using LastEventIDFromRequest_header [OF string_id_ok, of "server_request ?req" "sample_stored ''2''"] fit
      sample_options_id by (simp add: fits_reader_def) (simp add: sample_stored_def)
  have "wire (rw_w (st_w (snd (sample_handler ?req)))) \<noteq> []"
    using Replay_missed [OF string_id_ok sample_store_numbered, of "[]" "sample_stored ''2''" "[sample_stored ''3'']", OF _ id,
        of ?s] acc
    by (auto simp: sample_store_simps sample_handler_def accepting_def event_frame_def frame_of_lines_def)
  then show ?thesis
    unfolding replaying_def using acc
    by (intro conjI exI [of _ "sample_response []"] exI [of _ "[Chunk (wire (rw_w (st_w (snd (sample_handler ?req))))) None]"]
        exI [of _ "fst (sample_handler ?req)"] exI [of _ "snd (sample_handler ?req)"])
      (simp_all add: sample_replay_net_def sample_net_def sample_handler_def sample_response_def)
qed

theorem Collect_reconnects_witness:
  "Collect sample_replay_net id \<lparr>tb_log = []\<rparr> sample_options =
   Some (Ret [\<lparr>pe_Type = ''e'', pe_DataLines = [''d''], pe_ID = ''3'', pe_Retry = 0\<rparr>], \<lparr>tb_log = []\<rparr>)"
proof -
  have ids: "ev_ID (sample_stored i) = i" for i by (simp add: sample_stored_def)
  have d: "data_lines ''d'' = [''d'']" by code_simp
  have "Collect sample_replay_net id \<lparr>tb_log = []\<rparr> sample_options =
      Some (Ret (received string_id [] 0 (map OutEvent [sample_stored ''3''])), \<lparr>tb_log = []\<rparr>)"
    unfolding sample_options_def
    by (rule Collect_reconnects [where e = "sample_stored ''2''" and seen = "[]", unfolded ids,
        OF string_id_ok sample_store_numbered])
      (use sample_replaying in \<open>auto simp: sample_store_simps sample_stored_fits request_option_def
        plain_option_def go_map_order_def sample_options_def sample_replay_net_def sample_net_def\<close>)
  then show ?thesis by (simp add: sample_stored_def Let_def d)
qed

end
