(* ===== verification/Corpus.thy ===== *)
theory Corpus
  imports Testing "HOL-Library.Sublist"
begin

text \<open>
  The conformance corpus: the vectors of \<open>sseparse/corpus.go\<close> and the generator
  \<open>sseparse/gen_corpus.go\<close>, which brings the corpus file into canonical form and takes in
  pending vectors after running them through the reader. The JSON encoders are a parameter.
\<close>

subsection \<open>Vectors\<close>

record ExpectedEvent =
  ee_Type :: string
  ee_Data :: string
  ee_ID :: string
  ee_Retry :: uint

record ConformanceVector =
  cv_Name :: string
  cv_URL :: string
  cv_Notes :: string
  cv_Wire :: string
  cv_Events :: "ExpectedEvent list"

text \<open>\<open>json.Unmarshal\<close> into vectors, \<open>json.Marshal\<close> of one vector, \<open>json.MarshalIndent\<close> of all.\<close>

record json_codec =
  Unmarshal :: "string \<Rightarrow> goerr + ConformanceVector list"
  Marshal :: "ConformanceVector \<Rightarrow> goerr + string"
  MarshalIndent :: "ConformanceVector list \<Rightarrow> goerr + string"

definition Corpus :: "json_codec \<Rightarrow> string \<Rightarrow> goerr + ConformanceVector list" where
  "Corpus J corpusJSON =
     (case Unmarshal J corpusJSON of
        Inl err \<Rightarrow> Inl (Errorf ''decode embedded WPT format corpus'' err)
      | Inr vectors \<Rightarrow> Inr vectors)"

definition MustCorpus ::
    "json_codec \<Rightarrow> string \<Rightarrow> testingTB \<Rightarrow> ConformanceVector list outcome \<times> testingTB" where
  "MustCorpus J corpusJSON tb =
     (case Corpus J corpusJSON of
        Inl err \<Rightarrow> Fatalf ''load WPT format corpus'' tb
      | Inr vectors \<Rightarrow> (Ret vectors, tb))"

subsection \<open>Steps of the generator\<close>

definition decode :: "json_codec \<Rightarrow> string \<Rightarrow> goerr + ConformanceVector list" where
  "decode J raw =
     (case Unmarshal J raw of Inl err \<Rightarrow> Inl (Errorf ''decode corpus'' err) | Inr vectors \<Rightarrow> Inr vectors)"

definition canonical :: "json_codec \<Rightarrow> ConformanceVector list \<Rightarrow> goerr + string" where
  "canonical J vectors =
     (case MarshalIndent J vectors of
        Inl err \<Rightarrow> Inl (Errorf ''marshal corpus'' err)
      | Inr canon \<Rightarrow> Inr (canon @ [LF]))"

definition validateVector :: "ConformanceVector \<Rightarrow> goerr option" where
  "validateVector v =
     (if cv_Name v = [] then Some (NewError ''empty name'')
      else if cv_URL v = [] then Some (NewError ''empty url'')
      else if cv_Wire v = [] then Some (NewError ''empty wire'')
      else None)"

text \<open>The loop compares the event at each index; the lengths agree, so the index is in range.\<close>

fun dispatchMatchLoop :: "ConformanceVector \<Rightarrow> nat \<Rightarrow> ParsedEvent list \<Rightarrow> goerr option" where
  "dispatchMatchLoop v i [] = None"
| "dispatchMatchLoop v i (got # dispatched) =
     (let want = cv_Events v ! i
      in if pe_Type got \<noteq> ee_Type want then Some (NewError ''event type'')
         else if Data got \<noteq> ee_Data want then Some (NewError ''event data'')
         else if pe_ID got \<noteq> ee_ID want then Some (NewError ''event id'')
         else if pe_Retry got \<noteq> ee_Retry want then Some (NewError ''event retry'')
         else dispatchMatchLoop v (i + 1) dispatched)"

definition requireDispatchMatch :: "ConformanceVector \<Rightarrow> ParsedEvent list \<Rightarrow> goerr option" where
  "requireDispatchMatch v dispatched =
     (if length dispatched \<noteq> length (cv_Events v) then Some (NewError ''declared events'')
      else dispatchMatchLoop v 0 dispatched)"

text \<open>\<open>strings.NewReader\<close>: the whole string in one read, then the end of the file.\<close>

definition NewReader :: "string \<Rightarrow> source" where
  "NewReader s = (if s = [] then [] else [Chunk s None])"

text \<open>
  The body of the loop over the pending vectors: the corpus, the index of known names and the
  count of added vectors, or an error. An index outside the corpus would be a panic.
\<close>

type_synonym ingesting = "ConformanceVector list \<times> (string \<rightharpoonup> nat) \<times> nat"

definition ingestOne ::
    "json_codec \<Rightarrow> ingesting \<Rightarrow> ConformanceVector \<Rightarrow> (goerr + ingesting) outcome option" where
  "ingestOne J = (\<lambda>(vectors, known, added) v. case validateVector v of
     Some err \<Rightarrow> Some (Ret (Inl (Errorf ''pending vector'' err)))
   | None \<Rightarrow>
       Option.bind (ReadEvents source_Read (NewReader (cv_Wire v)) []) (\<lambda>r. Some (case r of
          Panic m \<Rightarrow> Panic m
        | Ret (Inl err) \<Rightarrow> Ret (Inl (Errorf ''wire does not parse'' err))
        | Ret (Inr dispatched) \<Rightarrow>
            (case requireDispatchMatch v dispatched of
               Some err \<Rightarrow> Ret (Inl err)
             | None \<Rightarrow>
                 (case known (cv_Name v) of
                    Some idx \<Rightarrow>
                      (if idx < length vectors then
                         (case (Marshal J (vectors ! idx), Marshal J v) of
                            (Inr existingRaw, Inr pendingRaw) \<Rightarrow>
                              (if existingRaw = pendingRaw then Ret (Inr (vectors, known, added))
                               else Ret (Inl (NewError ''duplicates corpus vector'')))
                          | _ \<Rightarrow> Ret (Inl (NewError ''duplicates corpus vector'')))
                       else Panic ''index out of range'')
                  | None \<Rightarrow> Ret (Inr (vectors @ [v], known(cv_Name v \<mapsto> length vectors), added + 1)))))))"

fun ingestLoop ::
    "json_codec \<Rightarrow> ingesting \<Rightarrow> ConformanceVector list \<Rightarrow>
     (ConformanceVector list \<times> nat \<times> goerr option) outcome option" where
  "ingestLoop J (vectors, known, added) [] = Some (Ret (vectors, added, None))"
| "ingestLoop J (vectors, known, added) (v # pend) =
     Option.bind (ingestOne J (vectors, known, added) v) (\<lambda>r. case r of
        Panic m \<Rightarrow> Some (Panic m)
      | Ret (Inl err) \<Rightarrow> Some (Ret (vectors, added, Some err))
      | Ret (Inr s) \<Rightarrow> ingestLoop J s pend)"

subsection \<open>Files\<close>

text \<open>
  The files by path, and what the environment does to the calls: errors of reading and of
  \<open>os.Stat\<close> on existing files, and the result of \<open>os.WriteFile\<close>, which truncates the file before it
  writes.
\<close>

type_synonym files = "string \<rightharpoonup> string"

datatype write_result = Written | OpenFailed goerr | WriteFailed nat goerr

record os_env =
  read_error :: "string \<Rightarrow> goerr option"
  stat_error :: "string \<Rightarrow> goerr option"
  write_result :: write_result

definition ReadFile :: "os_env \<Rightarrow> files \<Rightarrow> string \<Rightarrow> goerr + string" where
  "ReadFile env fs path =
     (case fs path of
        None \<Rightarrow> Inl ErrNotExist
      | Some content \<Rightarrow> (case read_error env path of Some err \<Rightarrow> Inl err | None \<Rightarrow> Inr content))"

definition Stat :: "os_env \<Rightarrow> files \<Rightarrow> string \<Rightarrow> goerr option" where
  "Stat env fs path = (if fs path = None then Some ErrNotExist else stat_error env path)"

definition WriteFile :: "os_env \<Rightarrow> files \<Rightarrow> string \<Rightarrow> string \<Rightarrow> goerr option \<times> files" where
  "WriteFile env fs path content =
     (case write_result env of
        Written \<Rightarrow> (None, fs(path \<mapsto> content))
      | OpenFailed err \<Rightarrow> (Some err, fs)
      | WriteFailed n err \<Rightarrow> (Some err, fs(path \<mapsto> take n content)))"

subsection \<open>The generator\<close>

definition corpusPath :: string where
  "corpusPath = ''testdata/wpt_format_corpus.json''"

definition pendingPath :: string where
  "pendingPath = ''testdata/corpus_pending.json''"

definition ingest ::
    "json_codec \<Rightarrow> os_env \<Rightarrow> files \<Rightarrow> ConformanceVector list \<Rightarrow> (string \<rightharpoonup> nat) \<Rightarrow>
     (ConformanceVector list \<times> nat \<times> goerr option) outcome option" where
  "ingest J env fs vectors known =
     (case ReadFile env fs pendingPath of
        Inl err \<Rightarrow> Some (Ret (vectors, 0, Some (Errorf ''read pending'' err)))
      | Inr pendingRaw \<Rightarrow>
          (case decode J pendingRaw of
             Inl err \<Rightarrow> Some (Ret (vectors, 0, Some (Errorf ''decode pending'' err)))
           | Inr pend \<Rightarrow> ingestLoop J (vectors, known, 0) pend))"

text \<open>The loop that validates the corpus and indexes its names.\<close>

fun indexVectors :: "nat \<Rightarrow> (string \<rightharpoonup> nat) \<Rightarrow> ConformanceVector list \<Rightarrow> goerr + (string \<rightharpoonup> nat)" where
  "indexVectors i known [] = Inr known"
| "indexVectors i known (v # vectors) =
     (case validateVector v of
        Some err \<Rightarrow> Inl (Errorf ''corpus vector'' err)
      | None \<Rightarrow> indexVectors (i + 1) (known(cv_Name v \<mapsto> i)) vectors)"

definition run :: "json_codec \<Rightarrow> os_env \<Rightarrow> files \<Rightarrow> (goerr option outcome \<times> files) option" where
  "run J env fs =
     (case ReadFile env fs corpusPath of
        Inl err \<Rightarrow> Some (Ret (Some (Errorf ''read corpus'' err)), fs)
      | Inr raw \<Rightarrow>
     (case decode J raw of
        Inl err \<Rightarrow> Some (Ret (Some err), fs)
      | Inr vectors \<Rightarrow>
     (case indexVectors 0 Map.empty vectors of
        Inl err \<Rightarrow> Some (Ret (Some err), fs)
      | Inr known \<Rightarrow>
     Option.bind (if Stat env fs pendingPath = None then ingest J env fs vectors known
                  else Some (Ret (vectors, 0, None)))
       (\<lambda>r. Some (case r of
          Panic m \<Rightarrow> (Panic m, fs)
        | Ret (vectors, added, Some err) \<Rightarrow> (Ret (Some err), fs)
        | Ret (vectors, added, None) \<Rightarrow>
            (case canonical J vectors of
               Inl err \<Rightarrow> (Ret (Some err), fs)
             | Inr canon \<Rightarrow>
                 (if raw = canon then (Ret None, fs)
                  else (case WriteFile env fs corpusPath canon of
                     (Some writeErr, fs) \<Rightarrow> (Ret (Some (Errorf ''write corpus'' writeErr)), fs)
                   | (None, fs) \<Rightarrow> (Ret None, fs)))))))))"

text \<open>The exit status of the program.\<close>

definition main_gen :: "json_codec \<Rightarrow> os_env \<Rightarrow> files \<Rightarrow> (nat outcome \<times> files) option" where
  "main_gen J env fs =
     Option.bind (run J env fs) (\<lambda>(r, fs). Some (case r of
        Panic m \<Rightarrow> (Panic m, fs)
      | Ret None \<Rightarrow> (Ret 0, fs)
      | Ret (Some err) \<Rightarrow> (Ret 1, fs)))"

subsection \<open>Vectors that conform\<close>

definition expected_of :: "ParsedEvent \<Rightarrow> ExpectedEvent" where
  "expected_of e = \<lparr>ee_Type = pe_Type e, ee_Data = Data e, ee_ID = pe_ID e, ee_Retry = pe_Retry e\<rparr>"

lemma dispatchMatchLoop_None:
  "i + length es = length (cv_Events v) \<Longrightarrow>
   dispatchMatchLoop v i es = None \<longleftrightarrow> drop i (cv_Events v) = map expected_of es"
proof (induction es arbitrary: i)
  case (Cons e es)
  then have "drop i (cv_Events v) = cv_Events v ! i # drop (i + 1) (cv_Events v)"
    by (simp add: Cons_nth_drop_Suc)
  moreover have "want = expected_of e \<longleftrightarrow>
      pe_Type e = ee_Type want \<and> Data e = ee_Data want \<and> pe_ID e = ee_ID want \<and> pe_Retry e = ee_Retry want" for want
    by (cases want) (auto simp: expected_of_def)
  ultimately show ?case using Cons.IH [of "i + 1"] Cons.prems by (auto simp: Let_def)
qed simp

lemma requireDispatchMatch_None:
  "requireDispatchMatch v es = None \<longleftrightarrow> cv_Events v = map expected_of es"
  using dispatchMatchLoop_None [of 0 es v] by (auto simp: requireDispatchMatch_def dest: arg_cong [of _ _ length])

text \<open>A vector is valid and declares the events the reader dispatches for its bytes.\<close>

definition conforming :: "ConformanceVector \<Rightarrow> bool" where
  "conforming v \<longleftrightarrow> validateVector v = None \<and> cv_Events v = map expected_of (source_events (NewReader (cv_Wire v)))"

definition wire_fits :: "ConformanceVector \<Rightarrow> bool" where
  "wire_fits v \<longleftrightarrow> lines_fit (line_limit []) (strip_bom (cv_Wire v))"

lemma ReadEvents_NewReader:
  assumes "lines_fit (line_limit []) (strip_bom s)"
  shows "ReadEvents source_Read (NewReader s) [] = Some (Ret (Inr (source_events (NewReader s))))"
  using ReadEvents_result [of "NewReader s" "[]" EOF] assms
  by (cases "s = []") (simp_all add: readable_def NewReader_def limit_ok_default)

definition same_json :: "json_codec \<Rightarrow> ConformanceVector \<Rightarrow> ConformanceVector \<Rightarrow> bool" where
  "same_json J u v \<longleftrightarrow> (\<exists>raw. Marshal J u = Inr raw \<and> Marshal J v = Inr raw)"

subsection \<open>The index of names\<close>

definition names_of :: "ConformanceVector list \<Rightarrow> string set" where
  "names_of vs = cv_Name ` set vs"

fun names_at :: "nat \<Rightarrow> (string \<rightharpoonup> nat) \<Rightarrow> ConformanceVector list \<Rightarrow> string \<rightharpoonup> nat" where
  "names_at i known [] = known"
| "names_at i known (v # vs) = names_at (i + 1) (known(cv_Name v \<mapsto> i)) vs"

abbreviation index_of :: "ConformanceVector list \<Rightarrow> string \<rightharpoonup> nat" where
  "index_of vs \<equiv> names_at 0 Map.empty vs"

lemma names_at_snoc: "names_at i known (vs @ [v]) = (names_at i known vs)(cv_Name v \<mapsto> i + length vs)"
  by (induction vs arbitrary: i known) simp_all

lemma indexVectors_Inr:
  "indexVectors i known vs = Inr known' \<longleftrightarrow> list_all (\<lambda>v. validateVector v = None) vs \<and> known' = names_at i known vs"
  by (induction vs arbitrary: i known) (auto simp del: fun_upd_apply split: option.split)

lemma index_of_Some: "index_of vs n = Some i \<Longrightarrow> i < length vs \<and> cv_Name (vs ! i) = n"
  by (induction vs arbitrary: i rule: rev_induct)
    (auto simp: names_at_snoc nth_append less_Suc_eq split: if_splits)

lemma index_of_None: "index_of vs n = None \<longleftrightarrow> n \<notin> names_of vs"
  by (induction vs rule: rev_induct) (auto simp: names_at_snoc names_of_def)

subsection \<open>Ingesting one vector\<close>

lemma ingestOne_cases:
  assumes "wire_fits v"
  obtains (rejected) err where "\<not> conforming v"
      "ingestOne J (vs, index_of vs, n) v = Some (Ret (Inl err))"
  | (clash) err u where "conforming v" "u \<in> set vs" "cv_Name u = cv_Name v" "\<not> same_json J u v"
      "ingestOne J (vs, index_of vs, n) v = Some (Ret (Inl err))"
  | (present) u where "conforming v" "u \<in> set vs" "cv_Name u = cv_Name v" "same_json J u v"
      "ingestOne J (vs, index_of vs, n) v = Some (Ret (Inr (vs, index_of vs, n)))"
  | (taken) "conforming v" "cv_Name v \<notin> names_of vs"
      "ingestOne J (vs, index_of vs, n) v = Some (Ret (Inr (vs @ [v], index_of (vs @ [v]), n + 1)))"
proof (cases "conforming v")
  case False
  then have "\<exists>err. ingestOne J (vs, index_of vs, n) v = Some (Ret (Inl err))"
    using ReadEvents_NewReader [of "cv_Wire v"] assms
      requireDispatchMatch_None [of v "source_events (NewReader (cv_Wire v))"]
    by (auto simp: ingestOne_def conforming_def wire_fits_def split: option.splits)
  then show thesis using rejected [OF False] by (elim exE)
next
  case True
  then have v: "validateVector v = None" "ReadEvents source_Read (NewReader (cv_Wire v)) [] =
      Some (Ret (Inr (source_events (NewReader (cv_Wire v)))))"
      "requireDispatchMatch v (source_events (NewReader (cv_Wire v))) = None"
    using ReadEvents_NewReader assms by (simp_all add: conforming_def wire_fits_def requireDispatchMatch_None)
  show thesis
  proof (cases "index_of vs (cv_Name v)")
    case None
    then show thesis using taken [OF True] index_of_None [THEN iffD1, OF None] v by (simp add: ingestOne_def names_at_snoc)
  next
    case (Some i)
    then have i: "i < length vs" "vs ! i \<in> set vs" "cv_Name (vs ! i) = cv_Name v"
      using index_of_Some [of vs "cv_Name v" i] by simp_all
    show thesis
    proof (cases "same_json J (vs ! i) v")
      case same: True
      then show thesis using present [OF True i(2,3) same] v Some i(1) by (auto simp: ingestOne_def same_json_def)
    next
      case False
      then have "\<exists>err. ingestOne J (vs, index_of vs, n) v = Some (Ret (Inl err))"
        using v Some i(1) by (auto simp: ingestOne_def same_json_def split: sum.splits)
      then show thesis using clash [OF True i(2,3) False] by (elim exE)
    qed
  qed
qed

subsection \<open>Ingesting the pending vectors\<close>

text \<open>
  The pending vectors were handled up to the first that does not conform or that clashes with a
  vector of the same name; \<open>new\<close> are the ones taken in.
\<close>

definition ingested_upto ::
    "json_codec \<Rightarrow> ConformanceVector list \<Rightarrow> ConformanceVector list \<Rightarrow> ConformanceVector list \<Rightarrow>
     ConformanceVector list \<Rightarrow> goerr option \<Rightarrow> bool" where
  "ingested_upto J vs dn rest new err \<longleftrightarrow>
     subseq new dn \<and> distinct (map cv_Name new) \<and> names_of new \<inter> names_of vs = {} \<and>
     (\<forall>v \<in> set dn. conforming v \<and> (v \<in> set new \<or> (\<exists>u \<in> set (vs @ new). cv_Name u = cv_Name v \<and> same_json J u v))) \<and>
     (case rest of
        [] \<Rightarrow> err = None
      | v # _ \<Rightarrow> err \<noteq> None \<and>
          (conforming v \<longrightarrow> (\<exists>u \<in> set (vs @ new). cv_Name u = cv_Name v \<and> \<not> same_json J u v)))"

definition ingested ::
    "json_codec \<Rightarrow> ConformanceVector list \<Rightarrow> ConformanceVector list \<Rightarrow> ConformanceVector list \<Rightarrow> goerr option \<Rightarrow> bool" where
  "ingested J vs pend new err \<longleftrightarrow> (\<exists>dn rest. pend = dn @ rest \<and> ingested_upto J vs dn rest new err)"

lemma ingestedI: "ingested_upto J vs dn rest new err \<Longrightarrow> pend = dn @ rest \<Longrightarrow> ingested J vs pend new err"
  by (auto simp: ingested_def)

lemma ingested_present:
  assumes "ingested J vs pend new err" "conforming v" "u \<in> set vs" "cv_Name u = cv_Name v" "same_json J u v"
  shows "ingested J vs (v # pend) new err"
proof -
  obtain dn rest where *: "pend = dn @ rest" "ingested_upto J vs dn rest new err"
    using assms(1) by (auto simp: ingested_def)
  have "\<exists>u \<in> set (vs @ new). cv_Name u = cv_Name v \<and> same_json J u v" using assms(3-5) by auto
  then have "ingested_upto J vs (v # dn) rest new err"
    using *(2) assms(2) by (simp add: ingested_upto_def list_emb_Cons)
  then show ?thesis by (rule ingestedI) (simp add: *(1))
qed

lemma ingested_taken:
  assumes "ingested J (vs @ [v]) pend new err" "conforming v" "cv_Name v \<notin> names_of vs"
  shows "ingested J vs (v # pend) (v # new) err"
proof -
  obtain dn rest where *: "pend = dn @ rest" "ingested_upto J (vs @ [v]) dn rest new err"
    using assms(1) by (auto simp: ingested_def)
  have "names_of (v # new) \<inter> names_of vs = {}" "distinct (map cv_Name (v # new))"
    using *(2) assms(3) by (auto simp: ingested_upto_def names_of_def)
  then have "ingested_upto J vs (v # dn) rest (v # new) err"
    using *(2) assms(2) by (auto simp: ingested_upto_def split: list.splits)
  then show ?thesis by (rule ingestedI) (simp add: *(1))
qed

lemma ingestLoop_ingested:
  assumes "list_all wire_fits pend"
  shows "\<exists>new err. ingestLoop J (vs, index_of vs, n) pend = Some (Ret (vs @ new, n + length new, err)) \<and>
    ingested J vs pend new err"
  using assms
proof (induction pend arbitrary: vs n)
  case Nil
  then show ?case by (auto simp: ingested_def ingested_upto_def names_of_def)
next
  case (Cons v pend)
  have stop: "ingested J vs (v # pend) [] (Some err)"
    if "conforming v \<longrightarrow> (\<exists>u \<in> set vs. cv_Name u = cv_Name v \<and> \<not> same_json J u v)" for err
    by (rule ingestedI [of _ _ "[]" "v # pend"]) (use that in \<open>simp_all add: ingested_upto_def names_of_def\<close>)
  have "wire_fits v" "list_all wire_fits pend" using Cons.prems by simp_all
  from this(1) show ?case
  proof (cases rule: ingestOne_cases [where J = J and vs = vs and n = n])
    case (rejected err)
    then show ?thesis using stop [of err] by (intro exI [of _ "[]"] exI [of _ "Some err"]) simp
  next
    case (clash err u)
    then show ?thesis using stop [of err] by (intro exI [of _ "[]"] exI [of _ "Some err"]) auto
  next
    case (present u)
    then show ?thesis
      using Cons.IH [OF \<open>list_all wire_fits pend\<close>, of vs n] ingested_present [OF _ present(1-4)] by auto
  next
    case taken
    obtain new err where "ingestLoop J (vs @ [v], index_of (vs @ [v]), n + 1) pend =
        Some (Ret ((vs @ [v]) @ new, n + 1 + length new, err))" "ingested J (vs @ [v]) pend new err"
      using Cons.IH [OF \<open>list_all wire_fits pend\<close>, of "vs @ [v]" "n + 1"] by blast
    then show ?thesis
      using taken ingested_taken [of J vs v pend new err]
      by (intro exI [of _ "v # new"] exI [of _ err]) simp
  qed
qed

text \<open>
  C13. The generator takes in exactly the pending vectors that hold up: it handles them in order,
  stops with an error at the first that is invalid, that declares other events than the reader
  dispatches for its bytes, or that differs (as JSON) from a vector with its name, and appends
  to the corpus the others whose name is new. So names it adds are fresh and distinct, and no
  expectation enters the corpus that the reader does not meet.
\<close>

theorem ingest_takes_conforming:
  assumes "indexVectors 0 Map.empty vectors = Inr known" "ReadFile env fs pendingPath = Inr raw"
    and "decode J raw = Inr pend" "list_all wire_fits pend"
  shows "\<exists>new err. ingest J env fs vectors known = Some (Ret (vectors @ new, length new, err)) \<and>
    ingested J vectors pend new err"
  using ingestLoop_ingested [OF assms(4), of J vectors 0] assms(1-3)
  by (simp add: ingest_def indexVectors_Inr)

subsection \<open>Running the generator again\<close>

text \<open>
  What \<open>encoding/json\<close> promises for these types: decoded vectors (\<open>ok\<close>: their strings are valid
  UTF-8) can be encoded, and encoding them with a line feed at the end decodes to the same vectors.
\<close>

definition json_ok :: "(ConformanceVector \<Rightarrow> bool) \<Rightarrow> json_codec \<Rightarrow> bool" where
  "json_ok ok J \<longleftrightarrow>
     (\<forall>raw vs. Unmarshal J raw = Inr vs \<longrightarrow> list_all ok vs) \<and>
     (\<forall>v. ok v \<longrightarrow> (\<exists>raw. Marshal J v = Inr raw)) \<and>
     (\<forall>vs. list_all ok vs \<longrightarrow> (\<exists>raw. MarshalIndent J vs = Inr raw \<and> Unmarshal J (raw @ [LF]) = Inr vs))"

lemma decode_Inr: "decode J raw = Inr vs \<longleftrightarrow> Unmarshal J raw = Inr vs"
  by (auto simp: decode_def split: sum.splits)

lemma canonical_decode:
  assumes "json_ok ok J" "list_all ok vs" "canonical J vs = Inr canon"
  shows "decode J canon = Inr vs"
  using assms by (auto simp: json_ok_def canonical_def decode_Inr split: sum.splits)

text \<open>What a successful step tells, in every later state of the corpus.\<close>

definition settled :: "json_codec \<Rightarrow> ConformanceVector list \<Rightarrow> ConformanceVector \<Rightarrow> bool" where
  "settled J vs v \<longleftrightarrow> (\<forall>n. ingestOne J (vs, index_of vs, n) v = Some (Ret (Inr (vs, index_of vs, n))))"

definition extends :: "ConformanceVector list \<Rightarrow> ConformanceVector list \<Rightarrow> bool" where
  "extends vs vs' \<longleftrightarrow> (\<exists>more. vs' = vs @ more) \<and> index_of vs \<subseteq>\<^sub>m index_of vs'"

lemma extends_trans: "extends a b \<Longrightarrow> extends b c \<Longrightarrow> extends a c"
  by (auto simp: extends_def intro: map_le_trans)

lemma extends_nth:
  assumes "extends vs vs'" "index_of vs n = Some i"
  shows "index_of vs' n = Some i" "i < length vs'" "vs' ! i = vs ! i"
proof -
  have "i < length vs" using index_of_Some [OF assms(2)] by simp
  then show "i < length vs'" "vs' ! i = vs ! i" using assms(1) by (auto simp: extends_def nth_append)
  show "index_of vs' n = Some i"
    using assms by (auto simp: extends_def map_le_def dom_def)
qed

lemma extends_snoc: "cv_Name v \<notin> names_of vs \<Longrightarrow> extends vs (vs @ [v])"
  using index_of_None [of vs "cv_Name v"]
  by (auto simp: extends_def names_at_snoc map_le_def dom_def)

lemma ingestOne_Inr:
  assumes "ingestOne J (vs, index_of vs, n) v = Some (Ret (Inr (vs', known', n')))"
  shows "validateVector v = None"
    and "\<exists>es. ReadEvents source_Read (NewReader (cv_Wire v)) [] = Some (Ret (Inr es)) \<and> requireDispatchMatch v es = None"
    and "(case index_of vs (cv_Name v) of
       None \<Rightarrow> vs' = vs @ [v] \<and> known' = index_of (vs @ [v]) \<and> n' = n + 1
     | Some i \<Rightarrow> i < length vs \<and> same_json J (vs ! i) v \<and> vs' = vs \<and> known' = index_of vs \<and> n' = n)"
proof -
  show v: "validateVector v = None"
    using assms by (cases "validateVector v") (simp_all add: ingestOne_def)
  obtain r where r: "ReadEvents source_Read (NewReader (cv_Wire v)) [] = Some r"
    using assms v by (cases "ReadEvents source_Read (NewReader (cv_Wire v)) []") (simp_all add: ingestOne_def)
  obtain res where res: "r = Ret res" using assms v r by (cases r) (simp_all add: ingestOne_def)
  obtain es where es: "res = Inr es" using assms v r res by (cases res) (simp_all add: ingestOne_def)
  have m: "requireDispatchMatch v es = None"
    using assms v r res es by (cases "requireDispatchMatch v es") (simp_all add: ingestOne_def)
  then show "\<exists>es. ReadEvents source_Read (NewReader (cv_Wire v)) [] = Some (Ret (Inr es)) \<and> requireDispatchMatch v es = None"
    using r res es by simp
  show "(case index_of vs (cv_Name v) of
       None \<Rightarrow> vs' = vs @ [v] \<and> known' = index_of (vs @ [v]) \<and> n' = n + 1
     | Some i \<Rightarrow> i < length vs \<and> same_json J (vs ! i) v \<and> vs' = vs \<and> known' = index_of vs \<and> n' = n)"
    using assms v r res es m
    by (auto simp: ingestOne_def names_at_snoc same_json_def split: option.splits sum.splits if_splits)
qed

lemma settledI:
  assumes "validateVector v = None"
    and "\<exists>es. ReadEvents source_Read (NewReader (cv_Wire v)) [] = Some (Ret (Inr es)) \<and> requireDispatchMatch v es = None"
    and "index_of vs (cv_Name v) = Some i" "i < length vs" "same_json J (vs ! i) v"
  shows "settled J vs v"
  using assms by (auto simp: settled_def ingestOne_def same_json_def)

lemma ingestOne_settles:
  assumes "ingestOne J (vs, index_of vs, n) v = Some (Ret (Inr (vs1, known1, n1)))"
    and "Marshal J v = Inr raw" "extends vs1 vs'"
  shows "known1 = index_of vs1" "extends vs vs1" "settled J vs' v" "set vs1 \<subseteq> insert v (set vs)"
proof -
  note one = ingestOne_Inr [OF assms(1)]
  have "known1 = index_of vs1 \<and> extends vs vs1 \<and> settled J vs' v \<and> set vs1 \<subseteq> insert v (set vs)"
  proof (cases "index_of vs (cv_Name v)")
    case None
    then have vs1: "vs1 = vs @ [v]" "known1 = index_of vs1" using one(3) by simp_all
    have "index_of vs1 (cv_Name v) = Some (length vs)" "vs1 ! length vs = v"
      using vs1(1) by (simp_all add: names_at_snoc)
    moreover have "same_json J v v" using assms(2) by (simp add: same_json_def)
    ultimately have "settled J vs' v"
      using settledI [OF one(1,2)] extends_nth [OF assms(3)] by metis
    then show ?thesis using vs1 extends_snoc index_of_None None by auto
  next
    case (Some i)
    then have vs1: "vs1 = vs" "known1 = index_of vs" "same_json J (vs ! i) v" using one(3) by simp_all
    then have "settled J vs' v"
      using settledI [OF one(1,2)] extends_nth [OF assms(3), of "cv_Name v" i] Some by simp
    then show ?thesis using vs1 by (auto simp: extends_def)
  qed
  then show "known1 = index_of vs1" "extends vs vs1" "settled J vs' v" "set vs1 \<subseteq> insert v (set vs)" by simp_all
qed

lemma ingestLoop_settles:
  assumes "ingestLoop J (vs, index_of vs, n) pend = Some (Ret (vs', n', None))"
    and "\<forall>v \<in> set pend. \<exists>raw. Marshal J v = Inr raw"
  shows "extends vs vs' \<and> list_all (settled J vs') pend \<and> set vs' \<subseteq> set vs \<union> set pend"
  using assms
proof (induction pend arbitrary: vs n)
  case Nil
  then show ?case by (simp add: extends_def)
next
  case (Cons v pend)
  obtain r where r: "ingestOne J (vs, index_of vs, n) v = Some r"
    using Cons.prems(1) by (cases "ingestOne J (vs, index_of vs, n) v") simp_all
  obtain res where res: "r = Ret res" using Cons.prems(1) r by (cases r) simp_all
  obtain s where s: "res = Inr s" using Cons.prems(1) r res by (cases res) simp_all
  obtain vs1 known1 n1 where s1: "s = (vs1, known1, n1)" by (cases s)
  have one: "ingestOne J (vs, index_of vs, n) v = Some (Ret (Inr (vs1, known1, n1)))"
      "ingestLoop J (vs1, known1, n1) pend = Some (Ret (vs', n', None))"
    using Cons.prems(1) r res s s1 by simp_all
  obtain raw where raw: "Marshal J v = Inr raw" using Cons.prems(2) by auto
  have "extends vs1 vs1" by (simp add: extends_def)
  note first = ingestOne_settles [OF one(1) raw this]
  have IH: "extends vs1 vs'" "list_all (settled J vs') pend" "set vs' \<subseteq> set vs1 \<union> set pend"
    using Cons.IH [of vs1 n1] one(2) first(1) Cons.prems(2) by simp_all
  show ?case
    using ingestOne_settles(3) [OF one(1) raw IH(1)] IH first(4) extends_trans [OF first(2) IH(1)] by auto
qed

lemma ingestLoop_settled:
  "list_all (settled J vs) pend \<Longrightarrow> ingestLoop J (vs, index_of vs, n) pend = Some (Ret (vs, n, None))"
  by (induction pend) (simp_all add: settled_def)

text \<open>The part of \<open>run\<close> that takes in pending vectors, if there are any.\<close>

definition ingest_step ::
    "json_codec \<Rightarrow> os_env \<Rightarrow> files \<Rightarrow> ConformanceVector list \<Rightarrow> (ConformanceVector list \<times> nat \<times> goerr option) outcome option" where
  "ingest_step J env fs vs = (if Stat env fs pendingPath = None then ingest J env fs vs (index_of vs)
     else Some (Ret (vs, 0, None)))"

lemma ReadFile_Inr: "ReadFile env fs path = Inr raw \<longleftrightarrow> fs path = Some raw \<and> read_error env path = None"
  by (auto simp: ReadFile_def split: option.splits)

lemma run_nil_cases:
  assumes "run J env fs = Some (Ret None, fs')"
  obtains raw vs vs' n canon where "ReadFile env fs corpusPath = Inr raw" "decode J raw = Inr vs"
    "list_all (\<lambda>v. validateVector v = None) vs" "ingest_step J env fs vs = Some (Ret (vs', n, None))"
    "canonical J vs' = Inr canon" "fs' = fs(corpusPath \<mapsto> canon)"
proof -
  obtain raw where raw: "ReadFile env fs corpusPath = Inr raw"
    using assms by (cases "ReadFile env fs corpusPath") (simp_all add: run_def)
  obtain vs where vs: "decode J raw = Inr vs"
    using assms raw by (cases "decode J raw") (simp_all add: run_def)
  obtain known where known: "indexVectors 0 Map.empty vs = Inr known"
    using assms raw vs by (cases "indexVectors 0 Map.empty vs") (simp_all add: run_def)
  then have k: "list_all (\<lambda>v. validateVector v = None) vs" "known = index_of vs" by (simp_all add: indexVectors_Inr)
  obtain r where r: "ingest_step J env fs vs = Some r"
    using assms raw vs known k(2) by (cases "ingest_step J env fs vs") (simp_all add: run_def ingest_step_def)
  obtain s where s: "r = Ret s" using assms raw vs known k(2) r by (cases r) (simp_all add: run_def ingest_step_def)
  obtain vs' n e where e: "s = (vs', n, e)" by (cases s)
  have "e = None" using assms raw vs known k(2) r s e by (cases e) (simp_all add: run_def ingest_step_def)
  moreover obtain canon where "canonical J vs' = Inr canon"
    using assms raw vs known k(2) r s e \<open>e = None\<close> by (cases "canonical J vs'") (simp_all add: run_def ingest_step_def)
  moreover have "fs' = fs(corpusPath \<mapsto> canon)"
    using assms raw vs known k(2) r s e calculation ReadFile_Inr [of env fs corpusPath raw]
    by (cases "raw = canon"; cases "write_result env")
      (auto simp: run_def ingest_step_def WriteFile_def fun_upd_idem)
  ultimately show thesis using that raw vs k(1) r s e by simp
qed

lemma run_canonical:
  assumes "ReadFile env fs corpusPath = Inr canon" "decode J canon = Inr vs"
    "list_all (\<lambda>v. validateVector v = None) vs" "ingest_step J env fs vs = Some (Ret (vs, n, None))"
    "canonical J vs = Inr canon"
  shows "run J env fs = Some (Ret None, fs)"
proof -
  have "indexVectors 0 Map.empty vs = Inr (index_of vs)" using assms(3) by (simp add: indexVectors_Inr)
  then show ?thesis using assms by (simp add: run_def ingest_step_def)
qed

lemma ingest_step_settles:
  assumes "json_ok ok J" "ingest_step J env fs vs = Some (Ret (vs', n, None))" "list_all ok vs"
    and "list_all (\<lambda>v. validateVector v = None) vs"
  shows "\<exists>new. vs' = vs @ new" "list_all ok vs'" "list_all (\<lambda>v. validateVector v = None) vs'"
    "ingest_step J env (fs(corpusPath \<mapsto> canon)) vs' = Some (Ret (vs', 0, None))"
proof -
  have st: "Stat env (fs(corpusPath \<mapsto> canon)) pendingPath = Stat env fs pendingPath"
    "ReadFile env (fs(corpusPath \<mapsto> canon)) pendingPath = ReadFile env fs pendingPath"
    by (simp_all add: Stat_def ReadFile_def corpusPath_def pendingPath_def)
  have "(\<exists>new. vs' = vs @ new) \<and> list_all ok vs' \<and> list_all (\<lambda>v. validateVector v = None) vs' \<and>
    ingest_step J env (fs(corpusPath \<mapsto> canon)) vs' = Some (Ret (vs', 0, None))"
  proof (cases "Stat env fs pendingPath = None")
    case False
    then show ?thesis using assms(2-4) st by (auto simp: ingest_step_def)
  next
    case True
    obtain raw where raw: "ReadFile env fs pendingPath = Inr raw"
      using assms(2) True by (cases "ReadFile env fs pendingPath") (simp_all add: ingest_step_def ingest_def)
    obtain pend where pend: "decode J raw = Inr pend"
      using assms(2) True raw by (cases "decode J raw") (simp_all add: ingest_step_def ingest_def)
    have ok: "list_all ok pend" using assms(1) pend by (simp add: json_ok_def decode_Inr)
    have m: "\<forall>v \<in> set pend. \<exists>raw. Marshal J v = Inr raw"
      using ok assms(1) by (simp add: json_ok_def list_all_iff)
    have loop: "ingestLoop J (vs, index_of vs, 0) pend = Some (Ret (vs', n, None))"
      using assms(2) True raw pend by (simp add: ingest_step_def ingest_def)
    note s = ingestLoop_settles [OF loop m]
    then have "list_all (\<lambda>v. validateVector v = None) pend"
      using ingestOne_Inr(1) by (fastforce simp: settled_def list_all_iff)
    then show ?thesis
      using s ok assms(3,4) ingestLoop_settled [of J vs' pend 0] True raw pend st
      by (auto simp: extends_def ingest_step_def ingest_def list_all_iff)
  qed
  then show "\<exists>new. vs' = vs @ new" "list_all ok vs'" "list_all (\<lambda>v. validateVector v = None) vs'"
    "ingest_step J env (fs(corpusPath \<mapsto> canon)) vs' = Some (Ret (vs', 0, None))" by simp_all
qed


text \<open>
  Names already in the corpus file are not checked for being unique: a corpus with the same
  vector twice passes, and stays as it is.
\<close>

lemma run_accepts_duplicate_names:
  assumes "json_ok ok J" "ok v" "validateVector v = None" "canonical J [v, v] = Inr canon"
    and "fs = [corpusPath \<mapsto> canon]" "read_error env corpusPath = None"
  shows "run J env fs = Some (Ret None, fs)"
proof -
  have "decode J canon = Inr [v, v]" using canonical_decode [OF assms(1) _ assms(4)] assms(2) by simp
  then show ?thesis
    using assms(3-6)
    by (intro run_canonical [of _ _ canon _ "[v, v]" 0])
      (simp_all add: ReadFile_Inr ingest_step_def Stat_def corpusPath_def pendingPath_def)
qed

subsection \<open>Witnesses\<close>

text \<open>Two vectors, and a codec that writes them as the digits of their numbers.\<close>

definition sample_vector :: "char \<Rightarrow> ConformanceVector" where
  "sample_vector c = \<lparr>cv_Name = [c], cv_URL = ''wpt:x'', cv_Notes = [], cv_Wire = ''data: a'' @ [LF, LF],
     cv_Events = [\<lparr>ee_Type = [], ee_Data = ''a'', ee_ID = [], ee_Retry = 0\<rparr>]\<rparr>"

definition sample_ok :: "ConformanceVector \<Rightarrow> bool" where
  "sample_ok v \<longleftrightarrow> v = sample_vector CHR ''1'' \<or> v = sample_vector CHR ''2''"

definition sample_codec :: json_codec where
  "sample_codec =
     \<lparr>Unmarshal = (\<lambda>raw. let raw = (if raw \<noteq> [] \<and> last raw = LF then butlast raw else raw)
        in if set raw \<subseteq> {CHR ''1'', CHR ''2''} then Inr (map sample_vector raw) else Inl ErrSyntax),
      Marshal = (\<lambda>v. Inr (cv_Name v)),
      MarshalIndent = (\<lambda>vs. Inr (concat (map cv_Name vs)))\<rparr>"

definition sample_env :: os_env where
  "sample_env = \<lparr>read_error = (\<lambda>_. None), stat_error = (\<lambda>_. None), write_result = Written\<rparr>"

definition sample_files :: files where
  "sample_files = [corpusPath \<mapsto> ''1'', pendingPath \<mapsto> ''12'']"

lemma sample_round_trip:
  "list_all sample_ok vs \<Longrightarrow> set (concat (map cv_Name vs)) \<subseteq> {CHR ''1'', CHR ''2''} \<and>
   map sample_vector (concat (map cv_Name vs)) = vs"
  by (induction vs) (auto simp: sample_ok_def sample_vector_def)

lemma sample_codec_ok: "json_ok sample_ok sample_codec"
  unfolding json_ok_def
proof (intro conjI allI impI)
  fix raw vs assume "Unmarshal sample_codec raw = Inr vs"
  then obtain s where s: "set s \<subseteq> {CHR ''1'', CHR ''2''}" "vs = map sample_vector s"
    unfolding sample_codec_def by (simp add: Let_def split: if_split_asm)
  have "sample_ok (sample_vector c)" if "c \<in> {CHR ''1'', CHR ''2''}" for c
    using that unfolding sample_ok_def by (elim insertE) simp_all
  then show "list_all sample_ok vs" using s unfolding list_all_iff s(2) by (simp add: subset_iff)
next
  fix v show "\<exists>raw. Marshal sample_codec v = Inr raw" by (simp add: sample_codec_def)
next
  fix vs assume "list_all sample_ok vs"
  then show "\<exists>raw. MarshalIndent sample_codec vs = Inr raw \<and> Unmarshal sample_codec (raw @ [LF]) = Inr vs"
    using sample_round_trip [of vs] unfolding sample_codec_def by simp
qed

lemma sample_conforming: "conforming (sample_vector c)" "wire_fits (sample_vector c)"
proof -
  have l: "line_limit [] = 1048576"
    by (simp add: line_limit_def applyReadOptions_def DefaultMaxLineBytes_def)
  show "wire_fits (sample_vector c)"
    by (simp add: wire_fits_def l sample_vector_def strip_bom_def utf8BOM_def TrimPrefix_def)
  have "source_lines (NewReader (''data: a'' @ [LF, LF])) = [''data: a'', []]" by code_simp
  then have "source_events (NewReader (''data: a'' @ [LF, LF])) =
      [\<lparr>pe_Type = [], pe_DataLines = [''a''], pe_ID = [], pe_Retry = 0\<rparr>]"
    by (simp add: source_events_def stream_events_def dispatch_points_def event_after_def
        values_of_def current_frame_def field_name_def field_value_def last_or_def upt_rec)
  then show "conforming (sample_vector c)"
    by (simp add: conforming_def validateVector_def sample_vector_def expected_of_def Data_def)
qed

lemma sample_reads:
  "ReadEvents source_Read (NewReader (cv_Wire (sample_vector c))) [] =
     Some (Ret (Inr (source_events (NewReader (cv_Wire (sample_vector c))))))"
  "requireDispatchMatch (sample_vector c) (source_events (NewReader (cv_Wire (sample_vector c)))) = None"
  "validateVector (sample_vector c) = None" "cv_Name (sample_vector c) = [c]"
  using ReadEvents_NewReader sample_conforming
  by (simp_all add: wire_fits_def conforming_def requireDispatchMatch_None) (simp add: sample_vector_def)

lemma sample_ingestOne:
  "ingestOne sample_codec (vs, known, n) (sample_vector c) = Some (case known [c] of
     Some i \<Rightarrow> (if i < length vs then if cv_Name (vs ! i) = [c] then Ret (Inr (vs, known, n))
        else Ret (Inl (NewError ''duplicates corpus vector'')) else Panic ''index out of range'')
   | None \<Rightarrow> Ret (Inr (vs @ [sample_vector c], known([c] \<mapsto> length vs), n + 1)))"
  using sample_reads [of c] by (simp add: ingestOne_def sample_codec_def split: option.split)

lemma sample_run:
  "run sample_codec sample_env sample_files = Some (Ret None, sample_files(corpusPath \<mapsto> ''12'' @ [LF]))"
proof -
  have f: "corpusPath \<noteq> pendingPath" by (simp add: corpusPath_def pendingPath_def)
  have files: "ReadFile sample_env sample_files corpusPath = Inr ''1''"
      "ReadFile sample_env sample_files pendingPath = Inr ''12''" "Stat sample_env sample_files pendingPath = None"
    using f by (simp_all add: ReadFile_def Stat_def sample_files_def sample_env_def)
  have dec: "decode sample_codec ''1'' = Inr [sample_vector CHR ''1'']"
      "decode sample_codec ''12'' = Inr [sample_vector CHR ''1'', sample_vector CHR ''2'']"
      "canonical sample_codec [sample_vector CHR ''1'', sample_vector CHR ''2''] = Inr (''12'' @ [LF])"
    using sample_reads(4) by (simp_all add: decode_def canonical_def sample_codec_def)
  have "ingest sample_codec sample_env sample_files [sample_vector CHR ''1''] [''1'' \<mapsto> 0] =
      Some (Ret ([sample_vector CHR ''1'', sample_vector CHR ''2''], 1, None))"
    by (simp add: ingest_def files dec sample_ingestOne sample_reads)
  then show ?thesis
    using files dec sample_reads by (simp add: run_def WriteFile_def sample_env_def)
qed


theorem ingest_takes_conforming_witness:
  "\<exists>new err. ingest sample_codec sample_env sample_files [sample_vector CHR ''1''] [''1'' \<mapsto> 0] =
      Some (Ret ([sample_vector CHR ''1''] @ new, length new, err)) \<and>
    ingested sample_codec [sample_vector CHR ''1''] [sample_vector CHR ''1'', sample_vector CHR ''2''] new err"
proof (rule ingest_takes_conforming)
  show "indexVectors 0 Map.empty [sample_vector CHR ''1''] = Inr [''1'' \<mapsto> 0]"
    by (simp add: sample_reads)
  show "ReadFile sample_env sample_files pendingPath = Inr ''12''"
    by (simp add: ReadFile_def sample_files_def sample_env_def corpusPath_def pendingPath_def)
  show "decode sample_codec ''12'' = Inr [sample_vector CHR ''1'', sample_vector CHR ''2'']"
    by (simp add: decode_def sample_codec_def)
qed (simp add: sample_conforming)

end
