(* ===== verification/Conformance.thy ===== *)
theory Conformance
  imports Corpus
begin

text \<open>
  The corpus that \<open>sseparse/corpus.go\<close> embeds (\<open>testdata/wpt_format_corpus.json\<close>): the vectors of the
  web platform tests, of the examples of the HTML standard and of Chromium, byte by byte. The
  kernel runs the model of the parser on each of them.
\<close>

subsection \<open>Vectors\<close>

definition vec_format_field_data :: ConformanceVector where
  "vec_format_field_data = \<lparr>
     cv_Name = ''format-field-data'',
     cv_URL = ''wpt:eventsource/format-field-data.any.js'',
     cv_Notes = ''A data line with an empty value still dispatches; two bare \"data\" li'' @
       ''nes dispatch an event whose payload is a single newline.'',
     cv_Wire = ''data:'' @ [LF, LF] @ ''data'' @ [LF] @ ''data'' @ [LF, LF] @ ''data:test'' @ [LF, LF],
     cv_Events = [
       \<lparr>ee_Type = [], ee_Data = [], ee_ID = [], ee_Retry = 0\<rparr>,
       \<lparr>ee_Type = [], ee_Data = [LF], ee_ID = [], ee_Retry = 0\<rparr>,
       \<lparr>ee_Type = [], ee_Data = ''test'', ee_ID = [], ee_Retry = 0\<rparr>]\<rparr>"

definition vec_format_field_event :: ConformanceVector where
  "vec_format_field_event = \<lparr>
     cv_Name = ''format-field-event'',
     cv_URL = ''wpt:eventsource/format-field-event.any.js'',
     cv_Notes = [],
     cv_Wire = ''event: x'' @ [LF] @ ''data:x'' @ [LF, LF],
     cv_Events = [
       \<lparr>ee_Type = ''x'', ee_Data = ''x'', ee_ID = [], ee_Retry = 0\<rparr>]\<rparr>"

definition vec_format_field_event_empty :: ConformanceVector where
  "vec_format_field_event_empty = \<lparr>
     cv_Name = ''format-field-event-empty'',
     cv_URL = ''wpt:eventsource/format-field-event-empty.any.js'',
     cv_Notes = ''An empty event type fires onmessage, i.e. type \"\".'',
     cv_Wire = ''event: '' @ [LF] @ ''data:data'' @ [LF, LF],
     cv_Events = [
       \<lparr>ee_Type = [], ee_Data = ''data'', ee_ID = [], ee_Retry = 0\<rparr>]\<rparr>"

definition vec_format_field_id_null :: ConformanceVector where
  "vec_format_field_id_null = \<lparr>
     cv_Name = ''format-field-id-null'',
     cv_URL = ''wpt:eventsource/format-field-id-null.any.js'',
     cv_Notes = ''An id field whose value contains U+0000 NULL anywhere is ignored entir'' @ ''ely (spec '' @
       [CHR 0xC2, CHR 0xA7] @ '' 9.2.6); the last event ID stays \"\".'',
     cv_Wire = ''id:'' @ [NUL, NUL, LF] @ ''data:1'' @ [LF, LF] @ ''id:x'' @ [NUL, LF] @ ''data:2'' @ [LF, LF] @
       ''id:'' @ [NUL] @ ''x'' @ [LF] @ ''data:3'' @ [LF, LF] @ ''id:x'' @ [NUL] @ ''x'' @ [LF] @ ''data:4'' @
       [LF, LF] @ ''id: '' @ [NUL, LF] @ ''data:5'' @ [LF, LF],
     cv_Events = [
       \<lparr>ee_Type = [], ee_Data = ''1'', ee_ID = [], ee_Retry = 0\<rparr>,
       \<lparr>ee_Type = [], ee_Data = ''2'', ee_ID = [], ee_Retry = 0\<rparr>,
       \<lparr>ee_Type = [], ee_Data = ''3'', ee_ID = [], ee_Retry = 0\<rparr>,
       \<lparr>ee_Type = [], ee_Data = ''4'', ee_ID = [], ee_Retry = 0\<rparr>,
       \<lparr>ee_Type = [], ee_Data = ''5'', ee_ID = [], ee_Retry = 0\<rparr>]\<rparr>"

definition vec_format_field_parsing :: ConformanceVector where
  "vec_format_field_parsing = \<lparr>
     cv_Name = ''format-field-parsing'',
     cv_URL = ''wpt:eventsource/format-field-parsing.any.js'',
     cv_Notes = ''Field names are case-sensitive; unknown fields and no-colon lines with'' @
       '' unknown names are ignored; only the first colon separates; a single l'' @
       ''eading space after the colon is stripped (never a tab).'',
     cv_Wire = ''data:'' @ [NUL, LF] @ ''data:  2'' @ [CR] @ ''Data:1'' @ [LF] @ ''data'' @ [NUL] @ '':2'' @ [LF] @
       ''data:1'' @ [CR, NUL] @ ''data:4'' @ [LF] @ ''da-ta:3'' @ [CR] @ ''data_5'' @ [LF] @ ''data:3'' @
       [CR] @ ''data:'' @ [CR, LF] @ '' data:32'' @ [LF] @ ''data:4'' @ [LF, LF],
     cv_Events = [
       \<lparr>ee_Type = [], ee_Data = [NUL, LF] @ '' 2'' @ [LF] @ ''1'' @ [LF] @ ''3'' @ [LF, LF] @ ''4'', ee_ID = [], ee_Retry = 0\<rparr>]\<rparr>"

definition vec_format_field_retry :: ConformanceVector where
  "vec_format_field_retry = \<lparr>
     cv_Name = ''format-field-retry'',
     cv_URL = ''wpt:eventsource/format-field-retry.any.js'',
     cv_Notes = ''Leading zeros are allowed: the value is a decimal integer.'',
     cv_Wire = ''retry:03000'' @ [LF] @ ''data:x'' @ [LF, LF],
     cv_Events = [
       \<lparr>ee_Type = [], ee_Data = ''x'', ee_ID = [], ee_Retry = 3000\<rparr>]\<rparr>"

definition vec_format_field_retry_bogus :: ConformanceVector where
  "vec_format_field_retry_bogus = \<lparr>
     cv_Name = ''format-field-retry-bogus'',
     cv_URL = ''wpt:eventsource/format-field-retry-bogus.any.js'',
     cv_Notes = ''A bogus retry does not reset a previously valid one, and a retry line '' @
       ''takes effect even in a frame that never dispatches.'',
     cv_Wire = ''retry:3000'' @ [LF] @ ''retry:1000x'' @ [LF, LF] @ ''data:x'' @ [LF, LF],
     cv_Events = [
       \<lparr>ee_Type = [], ee_Data = ''x'', ee_ID = [], ee_Retry = 3000\<rparr>]\<rparr>"

definition vec_format_field_retry_empty :: ConformanceVector where
  "vec_format_field_retry_empty = \<lparr>
     cv_Name = ''format-field-retry-empty'',
     cv_URL = ''wpt:eventsource/format-field-retry-empty.any.js'',
     cv_Notes = ''Derived from the upstream file, which sends a bare \"retry\" line and '' @
       ''asserts the reconnection time is unchanged: an empty value is not all-'' @
       ''digits, so it is ignored. Pinned here with a prior valid value.'',
     cv_Wire = ''retry:2000'' @ [LF, LF] @ ''retry'' @ [LF, LF] @ ''data:x'' @ [LF, LF],
     cv_Events = [
       \<lparr>ee_Type = [], ee_Data = ''x'', ee_ID = [], ee_Retry = 2000\<rparr>]\<rparr>"

definition vec_format_field_unknown :: ConformanceVector where
  "vec_format_field_unknown = \<lparr>
     cv_Name = ''format-field-unknown'',
     cv_URL = ''wpt:eventsource/format-field-unknown.any.js'',
     cv_Notes = ''Unknown field names (with or without a colon) are ignored.'',
     cv_Wire = ''data:1'' @ [LF] @ ''foo'' @ [LF] @ ''foo: bar'' @ [LF] @ ''data:2'' @ [LF, LF],
     cv_Events = [
       \<lparr>ee_Type = [], ee_Data = ''1'' @ [LF] @ ''2'', ee_ID = [], ee_Retry = 0\<rparr>]\<rparr>"

definition vec_format_newlines :: ConformanceVector where
  "vec_format_newlines = \<lparr>
     cv_Name = ''format-newlines'',
     cv_URL = ''wpt:eventsource/format-newlines.any.js'',
     cv_Notes = ''CR, LF, and CRLF are all line terminators; a bare \"data\" line with n'' @
       ''o colon is an empty data line; \"'' @ [CHR 0x5C] @ ''r'' @ [CHR 0x5C] @
       ''r\" is two terminators, the second of which is the blank line that dis'' @ ''patches the frame.'',
     cv_Wire = ''data:test'' @ [CR, LF] @ ''data'' @ [LF] @ ''data:test'' @ [CR, CR, LF],
     cv_Events = [
       \<lparr>ee_Type = [], ee_Data = ''test'' @ [LF, LF] @ ''test'', ee_ID = [], ee_Retry = 0\<rparr>]\<rparr>"

definition vec_format_leading_space :: ConformanceVector where
  "vec_format_leading_space = \<lparr>
     cv_Name = ''format-leading-space'',
     cv_URL = ''wpt:eventsource/format-leading-space.any.js'',
     cv_Notes = ''Only one leading space is stripped: a tab survives, \"data: \" is an e'' @ ''mpty data line.'',
     cv_Wire = ''data:'' @ [CHR 0x09] @ ''test'' @ [CR] @ ''data: '' @ [LF] @ ''data:test'' @ [LF, LF],
     cv_Events = [
       \<lparr>ee_Type = [], ee_Data = [CHR 0x09] @ ''test'' @ [LF, LF] @ ''test'', ee_ID = [], ee_Retry = 0\<rparr>]\<rparr>"

definition vec_format_comments :: ConformanceVector where
  "vec_format_comments = \<lparr>
     cv_Name = ''format-comments'',
     cv_URL = ''wpt:eventsource/format-comments.any.js'',
     cv_Notes = ''Comment lines are ignored; note the \":<CR><LF>\" comment: the CRLF is'' @
       '' one terminator, not a comment line followed by a blank dispatch line.'',
     cv_Wire = ''data:1'' @ [CR] @ '':'' @ [NUL, LF] @ '':'' @ [CR, LF] @ ''data:2'' @ [LF] @ '':'' @
       replicate 2048 (CHR ''x'') @ [CR] @ ''data:3'' @ [LF] @ '':data:fail'' @ [CR] @ '':'' @
       replicate 2048 (CHR ''x'') @ [LF] @ ''data:4'' @ [LF, LF],
     cv_Events = [
       \<lparr>ee_Type = [], ee_Data = ''1'' @ [LF] @ ''2'' @ [LF] @ ''3'' @ [LF] @ ''4'', ee_ID = [], ee_Retry = 0\<rparr>]\<rparr>"

definition vec_format_null_character :: ConformanceVector where
  "vec_format_null_character = \<lparr>
     cv_Name = ''format-null-character'',
     cv_URL = ''wpt:eventsource/format-null-character.any.js'',
     cv_Notes = ''NUL is valid data; only in id values is it rejected.'',
     cv_Wire = ''data:'' @ [NUL, LF, LF],
     cv_Events = [
       \<lparr>ee_Type = [], ee_Data = [NUL], ee_ID = [], ee_Retry = 0\<rparr>]\<rparr>"

definition vec_format_bom :: ConformanceVector where
  "vec_format_bom = \<lparr>
     cv_Name = ''format-bom'',
     cv_URL = ''wpt:eventsource/format-bom.any.js'',
     cv_Notes = ''Exactly one leading UTF-8 BOM is stripped. A mid-stream BOM is NOT: it'' @
       '' poisons the field name, so that line is ignored.'',
     cv_Wire = [CHR 0xEF, CHR 0xBB, CHR 0xBF] @ ''data:1'' @ [LF, LF, CHR 0xEF, CHR 0xBB, CHR 0xBF] @ ''data:2'' @
       [LF, LF] @ ''data:3'' @ [LF, LF],
     cv_Events = [
       \<lparr>ee_Type = [], ee_Data = ''1'', ee_ID = [], ee_Retry = 0\<rparr>,
       \<lparr>ee_Type = [], ee_Data = ''3'', ee_ID = [], ee_Retry = 0\<rparr>]\<rparr>"

definition vec_format_bom_2 :: ConformanceVector where
  "vec_format_bom_2 = \<lparr>
     cv_Name = ''format-bom-2'',
     cv_URL = ''wpt:eventsource/format-bom-2.any.js'',
     cv_Notes = ''Two leading BOMs: only the first is stripped; the second poisons the f'' @
       ''irst field name, so only the later events surface.'',
     cv_Wire = [CHR 0xEF, CHR 0xBB, CHR 0xBF, CHR 0xEF, CHR 0xBB, CHR 0xBF] @ ''data:1'' @ [LF, LF] @ ''data:2'' @
       [LF, LF],
     cv_Events = [
       \<lparr>ee_Type = [], ee_Data = ''2'', ee_ID = [], ee_Retry = 0\<rparr>]\<rparr>"

definition vec_format_utf_8 :: ConformanceVector where
  "vec_format_utf_8 = \<lparr>
     cv_Name = ''format-utf-8'',
     cv_URL = ''wpt:eventsource/format-utf-8.any.js'',
     cv_Notes = ''The stream is always decoded as UTF-8 regardless of any charset parame'' @
       ''ter; non-ASCII payloads pass through unchanged.'',
     cv_Wire = ''data:d'' @ [CHR 0xC3, CHR 0xB6] @ ''m'' @ [LF, LF],
     cv_Events = [
       \<lparr>ee_Type = [], ee_Data = ''d'' @ [CHR 0xC3, CHR 0xB6] @ ''m'', ee_ID = [], ee_Retry = 0\<rparr>]\<rparr>"

definition vec_format_data_before_final_empty_line :: ConformanceVector where
  "vec_format_data_before_final_empty_line = \<lparr>
     cv_Name = ''format-data-before-final-empty-line'',
     cv_URL = ''wpt:eventsource/format-data-before-final-empty-line.any.js'',
     cv_Notes = ''newline=none: the final frame never gets its blank line, so it is disc'' @ ''arded at EOF '' @
       [CHR 0xE2, CHR 0x80, CHR 0x94] @
       '' and its id:test must not leak into the last event ID of any dispatche'' @ ''d event.'',
     cv_Wire = ''retry:1000'' @ [LF] @ ''data:test1'' @ [LF, LF] @ ''id:test'' @ [LF] @ ''data:test2'' @ [LF],
     cv_Events = [
       \<lparr>ee_Type = [], ee_Data = ''test1'', ee_ID = [], ee_Retry = 1000\<rparr>]\<rparr>"

definition vec_spec_example_test_stream :: ConformanceVector where
  "vec_spec_example_test_stream = \<lparr>
     cv_Name = ''spec-example-test-stream'',
     cv_URL = ''spec:'' @ [CHR 0xC2, CHR 0xA7] @ ''9.2.6 example 1'',
     cv_Notes = [],
     cv_Wire = '': test stream'' @ [LF, LF] @ ''data: first event'' @ [LF] @ ''id: 1'' @ [LF, LF] @
       ''data:second event'' @ [LF] @ ''id: 2'' @ [LF, LF] @ ''event: custom event'' @ [LF] @
       ''data: third event'' @ [LF] @ ''id: 3'' @ [LF, LF] @ '': this is a test stream'' @ [LF],
     cv_Events = [
       \<lparr>ee_Type = [], ee_Data = ''first event'', ee_ID = ''1'', ee_Retry = 0\<rparr>,
       \<lparr>ee_Type = [], ee_Data = ''second event'', ee_ID = ''2'', ee_Retry = 0\<rparr>,
       \<lparr>ee_Type = ''custom event'', ee_Data = ''third event'', ee_ID = ''3'', ee_Retry = 0\<rparr>]\<rparr>"

definition vec_spec_example_two_identical_events :: ConformanceVector where
  "vec_spec_example_two_identical_events = \<lparr>
     cv_Name = ''spec-example-two-identical-events'',
     cv_URL = ''spec:'' @ [CHR 0xC2, CHR 0xA7] @ ''9.2.6 examples (data: test '' @ [CHR 0xE2, CHR 0x89, CHR 0xA1] @
       '' data:test)'',
     cv_Notes = ''The spec pairs \"data: test\" with \"data:test\" to show that the sing'' @
       ''le space after the colon is optional: both fire the same event.'',
     cv_Wire = ''data:test'' @ [LF, LF] @ ''data: test'' @ [LF, LF],
     cv_Events = [
       \<lparr>ee_Type = [], ee_Data = ''test'', ee_ID = [], ee_Retry = 0\<rparr>,
       \<lparr>ee_Type = [], ee_Data = ''test'', ee_ID = [], ee_Retry = 0\<rparr>]\<rparr>"

definition vec_spec_example_stock_ticker :: ConformanceVector where
  "vec_spec_example_stock_ticker = \<lparr>
     cv_Name = ''spec-example-stock-ticker'',
     cv_URL = ''spec:'' @ [CHR 0xC2, CHR 0xA7] @ ''9.2.6 examples (stock ticker)'',
     cv_Notes = [],
     cv_Wire = ''data: YHOO'' @ [LF] @ ''data: +2'' @ [LF] @ ''data: 10'' @ [LF, LF],
     cv_Events = [
       \<lparr>ee_Type = [], ee_Data = ''YHOO'' @ [LF] @ ''+2'' @ [LF] @ ''10'', ee_ID = [], ee_Retry = 0\<rparr>]\<rparr>"

definition vec_spec_example_connected_users :: ConformanceVector where
  "vec_spec_example_connected_users = \<lparr>
     cv_Name = ''spec-example-connected-users'',
     cv_URL = ''spec:'' @ [CHR 0xC2, CHR 0xA7] @ ''9.2.6 examples (connected users)'',
     cv_Notes = [],
     cv_Wire = ''event: userconnect'' @ [LF] @ ''data: {\"username\": \"bobby\", \"time\": \"02:33:48\"}'' @
       [LF, LF] @ ''event: userdisconnect'' @ [LF] @
       ''data: {\"username\": \"bobby\", \"time\": \"02:34:23\"}'' @ [LF, LF],
     cv_Events = [
       \<lparr>ee_Type = ''userconnect'', ee_Data = ''{\"username\": \"bobby\", \"time\": \"02:33:48\"}'', ee_ID = [], ee_Retry = 0\<rparr>,
       \<lparr>ee_Type = ''userdisconnect'', ee_Data = ''{\"username\": \"bobby\", \"time\": \"02:34:23\"}'', ee_ID = [], ee_Retry = 0\<rparr>]\<rparr>"

definition vec_LastEventIdShouldNotBeReset :: ConformanceVector where
  "vec_LastEventIdShouldNotBeReset = \<lparr>
     cv_Name = ''LastEventIdShouldNotBeReset'',
     cv_URL = ''chromium:event_source_parser_test.cc LastEventIdShouldNotBeReset'',
     cv_Notes = ''The last event ID persists across frames until the next id field: the '' @
       ''third event reports \"2\", and its frame never restated the id.'',
     cv_Wire = ''data:1'' @ [LF] @ ''id:1'' @ [LF, LF] @ ''id:2'' @ [LF] @ ''data:2'' @ [LF, LF] @ ''data:3'' @
       [LF, LF],
     cv_Events = [
       \<lparr>ee_Type = [], ee_Data = ''1'', ee_ID = ''1'', ee_Retry = 0\<rparr>,
       \<lparr>ee_Type = [], ee_Data = ''2'', ee_ID = ''2'', ee_Retry = 0\<rparr>,
       \<lparr>ee_Type = [], ee_Data = ''3'', ee_ID = ''2'', ee_Retry = 0\<rparr>]\<rparr>"

definition vec_LastEventIdCanBeUpdatedEvenWhenDataIsEmpty :: ConformanceVector where
  "vec_LastEventIdCanBeUpdatedEvenWhenDataIsEmpty = \<lparr>
     cv_Name = ''LastEventIdCanBeUpdatedEvenWhenDataIsEmpty'',
     cv_URL = ''chromium:event_source_parser_test.cc LastEventIdCanBeUpdatedEvenWhenDa'' @ ''taIsEmpty'',
     cv_Notes = ''An id line updates the buffer in a frame that never dispatches, and an'' @
       '' empty id value resets the buffer to \"\".'',
     cv_Wire = ''id:9'' @ [LF, LF] @ ''data:x'' @ [LF, LF] @ ''id:'' @ [LF, LF] @ ''data:y'' @ [LF, LF],
     cv_Events = [
       \<lparr>ee_Type = [], ee_Data = ''x'', ee_ID = ''9'', ee_Retry = 0\<rparr>,
       \<lparr>ee_Type = [], ee_Data = ''y'', ee_ID = [], ee_Retry = 0\<rparr>]\<rparr>"

definition vec_RetryTakesEffectEvenWhenNotDispatching :: ConformanceVector where
  "vec_RetryTakesEffectEvenWhenNotDispatching = \<lparr>
     cv_Name = ''RetryTakesEffectEvenWhenNotDispatching'',
     cv_URL = ''chromium:event_source_parser_test.cc RetryTakesEffectEvenWhenNotDispat'' @ ''ching'',
     cv_Notes = ''A retry line in a dataless frame still updates the reconnection time; '' @
       ''the next dispatched event reports it.'',
     cv_Wire = ''retry:2500'' @ [LF, LF] @ ''data:x'' @ [LF, LF],
     cv_Events = [
       \<lparr>ee_Type = [], ee_Data = ''x'', ee_ID = [], ee_Retry = 2500\<rparr>]\<rparr>"

definition vec_NonDigitRetryShouldBeIgnored :: ConformanceVector where
  "vec_NonDigitRetryShouldBeIgnored = \<lparr>
     cv_Name = ''NonDigitRetryShouldBeIgnored'',
     cv_URL = ''chromium:event_source_parser_test.cc NonDigitRetryShouldBeIgnored'',
     cv_Notes = ''Values (after the spec'' @ [CHR 0x27] @
       ''s single-space strip) that are not pure ASCII digits are ignored and d'' @
       ''o not reset a previously set value. \" 1234\" survives the strip as \"'' @
       ''1234\" and therefore counts '' @ [CHR 0xE2, CHR 0x80, CHR 0x94] @
       '' a single space after the colon is stripped per spec '' @ [CHR 0xC2, CHR 0xA7] @
       '' 9.2.6. The final \"retry: 1234\" line: single space stripped, valid, '' @ ''retry 1234.'',
     cv_Wire = ''retry:2000'' @ [LF] @ ''retry:a0'' @ [LF] @ ''retry:1234x'' @ [LF] @ ''retry:0x10'' @ [LF] @
       ''retry:1.5'' @ [LF] @ ''retry:+1'' @ [LF] @ ''retry:1_000'' @ [LF] @ ''retry: 1234'' @ [LF, LF] @
       ''data:x'' @ [LF, LF],
     cv_Events = [
       \<lparr>ee_Type = [], ee_Data = ''x'', ee_ID = [], ee_Retry = 1234\<rparr>]\<rparr>"

definition vec_UnrecognizedFieldShouldBeIgnored :: ConformanceVector where
  "vec_UnrecognizedFieldShouldBeIgnored = \<lparr>
     cv_Name = ''UnrecognizedFieldShouldBeIgnored'',
     cv_URL = ''chromium:event_source_parser_test.cc UnrecognizedFieldShouldBeIgnored'',
     cv_Notes = [],
     cv_Wire = ''data:1'' @ [LF] @ ''unknown: x'' @ [LF] @ ''data:2'' @ [LF, LF],
     cv_Events = [
       \<lparr>ee_Type = [], ee_Data = ''1'' @ [LF] @ ''2'', ee_ID = [], ee_Retry = 0\<rparr>]\<rparr>"

definition vec_EventTypeShouldBeReset :: ConformanceVector where
  "vec_EventTypeShouldBeReset = \<lparr>
     cv_Name = ''EventTypeShouldBeReset'',
     cv_URL = ''chromium:event_source_parser_test.cc EventTypeShouldBeReset'',
     cv_Notes = [],
     cv_Wire = ''event: x'' @ [LF] @ ''data:1'' @ [LF, LF] @ ''data:2'' @ [LF, LF],
     cv_Events = [
       \<lparr>ee_Type = ''x'', ee_Data = ''1'', ee_ID = [], ee_Retry = 0\<rparr>,
       \<lparr>ee_Type = [], ee_Data = ''2'', ee_ID = [], ee_Retry = 0\<rparr>]\<rparr>"

definition vec_DataShouldBeReset :: ConformanceVector where
  "vec_DataShouldBeReset = \<lparr>
     cv_Name = ''DataShouldBeReset'',
     cv_URL = ''chromium:event_source_parser_test.cc DataShouldBeReset'',
     cv_Notes = [],
     cv_Wire = ''data:1'' @ [LF, LF] @ ''data:2'' @ [LF, LF],
     cv_Events = [
       \<lparr>ee_Type = [], ee_Data = ''1'', ee_ID = [], ee_Retry = 0\<rparr>,
       \<lparr>ee_Type = [], ee_Data = ''2'', ee_ID = [], ee_Retry = 0\<rparr>]\<rparr>"

definition vec_TrailingCREndsLineAtEOF :: ConformanceVector where
  "vec_TrailingCREndsLineAtEOF = \<lparr>
     cv_Name = ''TrailingCREndsLineAtEOF'',
     cv_URL = ''derived:'' @ [CHR 0xC2, CHR 0xA7] @ ''9.2.5 end-of-line = cr lf / cr / lf'',
     cv_Notes = ''A lone CR terminates the line even when EOF follows immediately, so th'' @ ''is frame'' @
       [CHR 0x27] @ ''s data line is complete '' @ [CHR 0xE2, CHR 0x80, CHR 0x94] @
       '' but the blank line required to dispatch it never arrives, and the fra'' @
       ''me is discarded at EOF.'',
     cv_Wire = ''data: x'' @ [CR],
     cv_Events = []\<rparr>"

definition shippedCorpus :: "ConformanceVector list" where
  "shippedCorpus =
     [vec_format_field_data,
      vec_format_field_event,
      vec_format_field_event_empty,
      vec_format_field_id_null,
      vec_format_field_parsing,
      vec_format_field_retry,
      vec_format_field_retry_bogus,
      vec_format_field_retry_empty,
      vec_format_field_unknown,
      vec_format_newlines,
      vec_format_leading_space,
      vec_format_comments,
      vec_format_null_character,
      vec_format_bom,
      vec_format_bom_2,
      vec_format_utf_8,
      vec_format_data_before_final_empty_line,
      vec_spec_example_test_stream,
      vec_spec_example_two_identical_events,
      vec_spec_example_stock_ticker,
      vec_spec_example_connected_users,
      vec_LastEventIdShouldNotBeReset,
      vec_LastEventIdCanBeUpdatedEvenWhenDataIsEmpty,
      vec_RetryTakesEffectEvenWhenNotDispatching,
      vec_NonDigitRetryShouldBeIgnored,
      vec_UnrecognizedFieldShouldBeIgnored,
      vec_EventTypeShouldBeReset,
      vec_DataShouldBeReset,
      vec_TrailingCREndsLineAtEOF]"

subsection \<open>Running the parser\<close>

definition dispatched :: "string \<Rightarrow> ExpectedEvent list" where
  "dispatched wire = map expected_of (sp_events (acceptLines zeroParser (lines_at_eof (strip_bom wire))))"

definition passes :: "ConformanceVector \<Rightarrow> bool" where
  "passes v \<longleftrightarrow> validateVector v = None \<and> dispatched (cv_Wire v) = cv_Events v"

lemma vec_format_field_data_passes: "passes vec_format_field_data"
  unfolding passes_def vec_format_field_data_def dispatched_def by code_simp

lemma vec_format_field_event_passes: "passes vec_format_field_event"
  unfolding passes_def vec_format_field_event_def dispatched_def by code_simp

lemma vec_format_field_event_empty_passes: "passes vec_format_field_event_empty"
  unfolding passes_def vec_format_field_event_empty_def dispatched_def by code_simp

lemma vec_format_field_id_null_passes: "passes vec_format_field_id_null"
  unfolding passes_def vec_format_field_id_null_def dispatched_def by code_simp

lemma vec_format_field_parsing_passes: "passes vec_format_field_parsing"
  unfolding passes_def vec_format_field_parsing_def dispatched_def by code_simp

lemma vec_format_field_retry_passes: "passes vec_format_field_retry"
  unfolding passes_def vec_format_field_retry_def dispatched_def by code_simp

lemma vec_format_field_retry_bogus_passes: "passes vec_format_field_retry_bogus"
  unfolding passes_def vec_format_field_retry_bogus_def dispatched_def by code_simp

lemma vec_format_field_retry_empty_passes: "passes vec_format_field_retry_empty"
  unfolding passes_def vec_format_field_retry_empty_def dispatched_def by code_simp

lemma vec_format_field_unknown_passes: "passes vec_format_field_unknown"
  unfolding passes_def vec_format_field_unknown_def dispatched_def by code_simp

lemma vec_format_newlines_passes: "passes vec_format_newlines"
  unfolding passes_def vec_format_newlines_def dispatched_def by code_simp

lemma vec_format_leading_space_passes: "passes vec_format_leading_space"
  unfolding passes_def vec_format_leading_space_def dispatched_def by code_simp

text \<open>The vector with two comments of two kilobytes: what the comments say plays no role.\<close>

lemma comment_lines:
  assumes "no_eol c"
  shows "lines_at_eof (''data:1'' @ [CR] @ '':'' @ [NUL, LF] @ '':'' @ [CR, LF] @ ''data:2'' @ [LF] @ '':'' @
      c @ [CR] @ ''data:3'' @ [LF] @ '':data:fail'' @ [CR] @ '':'' @ c @ [LF] @ ''data:4'' @ [LF, LF]) =
    [''data:1'', '':'' @ [NUL], '':'', ''data:2'', '':'' @ c, ''data:3'', '':data:fail'', '':'' @ c, ''data:4'', []]"
proof -
  have c: "no_eol ('':'' @ c)" using assms by (simp add: no_eol_def)
  have a: "lines_at_eof (''data:4'' @ LF # LF # []) = [''data:4'', []]" by code_simp
  have b: "lines_at_eof (''data:3'' @ LF # '':data:fail'' @ CR # CHR '':'' # r) =
      ''data:3'' # '':data:fail'' # lines_at_eof (CHR '':'' # r)" for r
    using lines_at_eof_LF [of "''data:3''"] lines_at_eof_CR [of "'':data:fail''" "CHR '':'' # r"]
    by (simp add: no_eol_def)
  have d: "lines_at_eof (''data:1'' @ CR # '':'' @ NUL # LF # '':'' @ CR # LF # ''data:2'' @ LF # r) =
      ''data:1'' # ('':'' @ [NUL]) # '':'' # ''data:2'' # lines_at_eof r" for r
    using lines_at_eof_CR [of "''data:1''" "'':'' @ NUL # LF # '':'' @ CR # LF # ''data:2'' @ LF # r"]
      lines_at_eof_LF [of "'':'' @ [NUL]"] lines_at_eof_CR [of "'':''" "LF # ''data:2'' @ LF # r"]
      lines_at_eof_LF [of "''data:2''" r]
    by (simp add: no_eol_def)
  have e: "lines_at_eof (('':'' @ c) @ CR # ''data:3'' @ r) = ('':'' @ c) # lines_at_eof (''data:3'' @ r)" for r
    using lines_at_eof_CR [OF c, of "''data:3'' @ r"] by simp
  have f: "lines_at_eof (('':'' @ c) @ LF # r) = ('':'' @ c) # lines_at_eof r" for r
    using lines_at_eof_LF [OF c] by simp
  show ?thesis
    using d [of "('':'' @ c) @ CR # ''data:3'' @ LF # '':data:fail'' @ CR # ('':'' @ c) @ LF # ''data:4'' @ LF # LF # []"]
      e [of "LF # '':data:fail'' @ CR # ('':'' @ c) @ LF # ''data:4'' @ LF # LF # []"]
      b [of "c @ LF # ''data:4'' @ LF # LF # []"] f [of "''data:4'' @ LF # LF # []"] a
    by simp
qed

lemma vec_format_comments_passes: "passes vec_format_comments"
proof -
  have c: "no_eol (replicate 2048 (CHR ''x''))" by (simp add: no_eol_def)
  have skip: "acceptLine p (CHR '':'' # l) = p" for p l
    by (simp add: acceptLine_def applyField_def HasPrefix_iff)
  have bom: "strip_bom (''data:1'' @ r) = ''data:1'' @ r" for r
    by (simp add: strip_bom_def TrimPrefix_def utf8BOM_def)
  have "map expected_of (sp_events (acceptLines zeroParser
      [''data:1'', ''data:2'', ''data:3'', ''data:4'', []])) = cv_Events vec_format_comments"
    unfolding vec_format_comments_def by code_simp
  then have "dispatched (cv_Wire vec_format_comments) = cv_Events vec_format_comments"
    unfolding dispatched_def vec_format_comments_def ConformanceVector.simps bom comment_lines [OF c]
    by (simp add: skip)
  moreover have "validateVector vec_format_comments = None"
    by (simp add: validateVector_def vec_format_comments_def)
  ultimately show ?thesis by (simp add: passes_def)
qed

lemma vec_format_null_character_passes: "passes vec_format_null_character"
  unfolding passes_def vec_format_null_character_def dispatched_def by code_simp

lemma vec_format_bom_passes: "passes vec_format_bom"
  unfolding passes_def vec_format_bom_def dispatched_def by code_simp

lemma vec_format_bom_2_passes: "passes vec_format_bom_2"
  unfolding passes_def vec_format_bom_2_def dispatched_def by code_simp

lemma vec_format_utf_8_passes: "passes vec_format_utf_8"
  unfolding passes_def vec_format_utf_8_def dispatched_def by code_simp

lemma vec_format_data_before_final_empty_line_passes: "passes vec_format_data_before_final_empty_line"
  unfolding passes_def vec_format_data_before_final_empty_line_def dispatched_def by code_simp

lemma vec_spec_example_test_stream_passes: "passes vec_spec_example_test_stream"
  unfolding passes_def vec_spec_example_test_stream_def dispatched_def by code_simp

lemma vec_spec_example_two_identical_events_passes: "passes vec_spec_example_two_identical_events"
  unfolding passes_def vec_spec_example_two_identical_events_def dispatched_def by code_simp

lemma vec_spec_example_stock_ticker_passes: "passes vec_spec_example_stock_ticker"
  unfolding passes_def vec_spec_example_stock_ticker_def dispatched_def by code_simp

lemma vec_spec_example_connected_users_passes: "passes vec_spec_example_connected_users"
  unfolding passes_def vec_spec_example_connected_users_def dispatched_def by code_simp

lemma vec_LastEventIdShouldNotBeReset_passes: "passes vec_LastEventIdShouldNotBeReset"
  unfolding passes_def vec_LastEventIdShouldNotBeReset_def dispatched_def by code_simp

lemma vec_LastEventIdCanBeUpdatedEvenWhenDataIsEmpty_passes: "passes vec_LastEventIdCanBeUpdatedEvenWhenDataIsEmpty"
  unfolding passes_def vec_LastEventIdCanBeUpdatedEvenWhenDataIsEmpty_def dispatched_def by code_simp

lemma vec_RetryTakesEffectEvenWhenNotDispatching_passes: "passes vec_RetryTakesEffectEvenWhenNotDispatching"
  unfolding passes_def vec_RetryTakesEffectEvenWhenNotDispatching_def dispatched_def by code_simp

lemma vec_NonDigitRetryShouldBeIgnored_passes: "passes vec_NonDigitRetryShouldBeIgnored"
  unfolding passes_def vec_NonDigitRetryShouldBeIgnored_def dispatched_def by code_simp

lemma vec_UnrecognizedFieldShouldBeIgnored_passes: "passes vec_UnrecognizedFieldShouldBeIgnored"
  unfolding passes_def vec_UnrecognizedFieldShouldBeIgnored_def dispatched_def by code_simp

lemma vec_EventTypeShouldBeReset_passes: "passes vec_EventTypeShouldBeReset"
  unfolding passes_def vec_EventTypeShouldBeReset_def dispatched_def by code_simp

lemma vec_DataShouldBeReset_passes: "passes vec_DataShouldBeReset"
  unfolding passes_def vec_DataShouldBeReset_def dispatched_def by code_simp

lemma vec_TrailingCREndsLineAtEOF_passes: "passes vec_TrailingCREndsLineAtEOF"
  unfolding passes_def vec_TrailingCREndsLineAtEOF_def dispatched_def by code_simp

subsection \<open>The whole corpus\<close>

lemmas corpus_vectors =
  vec_format_field_data_def vec_format_field_event_def vec_format_field_event_empty_def
  vec_format_field_id_null_def vec_format_field_parsing_def vec_format_field_retry_def
  vec_format_field_retry_bogus_def vec_format_field_retry_empty_def vec_format_field_unknown_def
  vec_format_newlines_def vec_format_leading_space_def vec_format_comments_def
  vec_format_null_character_def vec_format_bom_def vec_format_bom_2_def vec_format_utf_8_def
  vec_format_data_before_final_empty_line_def vec_spec_example_test_stream_def
  vec_spec_example_two_identical_events_def vec_spec_example_stock_ticker_def
  vec_spec_example_connected_users_def vec_LastEventIdShouldNotBeReset_def
  vec_LastEventIdCanBeUpdatedEvenWhenDataIsEmpty_def vec_RetryTakesEffectEvenWhenNotDispatching_def
  vec_NonDigitRetryShouldBeIgnored_def vec_UnrecognizedFieldShouldBeIgnored_def
  vec_EventTypeShouldBeReset_def vec_DataShouldBeReset_def vec_TrailingCREndsLineAtEOF_def

lemmas corpus_passes =
  vec_format_field_data_passes vec_format_field_event_passes vec_format_field_event_empty_passes
  vec_format_field_id_null_passes vec_format_field_parsing_passes vec_format_field_retry_passes
  vec_format_field_retry_bogus_passes vec_format_field_retry_empty_passes
  vec_format_field_unknown_passes vec_format_newlines_passes vec_format_leading_space_passes
  vec_format_comments_passes vec_format_null_character_passes vec_format_bom_passes
  vec_format_bom_2_passes vec_format_utf_8_passes vec_format_data_before_final_empty_line_passes
  vec_spec_example_test_stream_passes vec_spec_example_two_identical_events_passes
  vec_spec_example_stock_ticker_passes vec_spec_example_connected_users_passes
  vec_LastEventIdShouldNotBeReset_passes vec_LastEventIdCanBeUpdatedEvenWhenDataIsEmpty_passes
  vec_RetryTakesEffectEvenWhenNotDispatching_passes vec_NonDigitRetryShouldBeIgnored_passes
  vec_UnrecognizedFieldShouldBeIgnored_passes vec_EventTypeShouldBeReset_passes
  vec_DataShouldBeReset_passes vec_TrailingCREndsLineAtEOF_passes

lemma shippedCorpus_passes: "v \<in> set shippedCorpus \<Longrightarrow> passes v"
  using corpus_passes by (auto simp: shippedCorpus_def)

lemma shippedCorpus_size: "v \<in> set shippedCorpus \<Longrightarrow> length (cv_Wire v) < 5000"
  by (auto simp: shippedCorpus_def corpus_vectors)

lemma shippedCorpus_names: "distinct (map cv_Name shippedCorpus)"
  unfolding shippedCorpus_def list.map corpus_vectors ConformanceVector.simps by simp

text \<open>A stream shorter than the limit has no line beyond it.\<close>

lemma short_fits: "n + length s + 1 < m \<Longrightarrow> fits_from m n s"
proof (induction m n s rule: fits_from.induct)
  case (2 m n c s)
  then show ?case using length_skip_LF [of s] by auto
qed simp

lemma short_readable:
  assumes "source_ready src" "source_ending src = Ends EOF" "length (source_stream src) < 5000"
  shows "readable src []"
proof -
  have "length (strip_bom (source_stream src)) \<le> length (source_stream src)"
    by (simp add: strip_bom_def TrimPrefix_def)
  then have "0 + length (strip_bom (source_stream src)) + 1 < line_limit []"
    using assms(3) by (simp add: line_limit_def applyReadOptions_def DefaultMaxLineBytes_def)
  then show ?thesis using assms(1,2) by (simp add: readable_def limit_ok_default short_fits)
qed

lemma dispatched_events:
  "source_ending src = Ends x \<Longrightarrow> dispatched (source_stream src) = map expected_of (source_events src)"
  by (simp add: dispatched_def source_events_def source_lines_def acceptLines_spec parser_after_def)

text \<open>
  C14. The parser meets its conformance corpus. Every vector of the file the package ships is
  valid; however its bytes are cut into reads, \<open>ReadEvents\<close> returns, and the events are those the
  vector declares: the generator's own check \<open>requireDispatchMatch\<close> finds no difference. The names of the
  vectors are distinct, which the generator itself does not check.
\<close>

theorem corpus_conforms:
  assumes "v \<in> set shippedCorpus" "source_stream src = cv_Wire v" "source_ready src" "source_ending src = Ends EOF"
  shows "validateVector v = None \<and> distinct (map cv_Name shippedCorpus) \<and>
    (\<exists>es. ReadEvents source_Read src [] = Some (Ret (Inr es)) \<and> map expected_of es = cv_Events v \<and>
      requireDispatchMatch v es = None)"
proof -
  have v: "validateVector v = None" "map expected_of (source_events src) = cv_Events v"
    using shippedCorpus_passes [OF assms(1)] dispatched_events [OF assms(4)] assms(2)
    by (simp_all add: passes_def)
  have "ReadEvents source_Read src [] = Some (Ret (Inr (source_events src)))"
    using ReadEvents_result [OF short_readable [OF assms(3,4)] assms(4)] shippedCorpus_size [OF assms(1)] assms(2)
    by simp
  then show ?thesis using v shippedCorpus_names by (auto simp: requireDispatchMatch_None)
qed

definition sample_reads_of_newlines :: source where
  "sample_reads_of_newlines = [Chunk ''data:test'' None, Chunk [CR] None, Chunk (LF # ''data'' @ [LF]) None,
     Chunk (''data:test'' @ [CR, CR]) None, Chunk [LF] (Some EOF)]"

theorem corpus_conforms_witness:
  "\<exists>es. ReadEvents source_Read sample_reads_of_newlines [] = Some (Ret (Inr es)) \<and>
     map expected_of es = [\<lparr>ee_Type = [], ee_Data = ''test'' @ LF # LF # ''test'', ee_ID = [], ee_Retry = 0\<rparr>]"
proof -
  have v: "vec_format_newlines \<in> set shippedCorpus" by (simp add: shippedCorpus_def)
  have src: "source_stream sample_reads_of_newlines = cv_Wire vec_format_newlines"
      "source_ready sample_reads_of_newlines" "source_ending sample_reads_of_newlines = Ends EOF"
    by (simp_all add: vec_format_newlines_def sample_reads_of_newlines_def)
  have evts: "cv_Events vec_format_newlines =
      [\<lparr>ee_Type = [], ee_Data = ''test'' @ LF # LF # ''test'', ee_ID = [], ee_Retry = 0\<rparr>]"
    by (simp add: vec_format_newlines_def)
  show ?thesis unfolding evts [symmetric] using corpus_conforms [OF v src] by (elim conjE exE) (rule exI, rule conjI)
qed

end
