(* ===== verification/WellFormed.thy ===== *)
theory WellFormed
  imports RoundTrip
begin

text \<open>
  What every event that comes out of the reader is like, whatever the bytes: the type invariant
  of \<open>sseparse.Event\<close>, and the range of its retry time.
\<close>

subsection \<open>Events of a stream\<close>

definition well_formed :: "ParsedEvent \<Rightarrow> bool" where
  "well_formed e \<longleftrightarrow> no_eol (pe_Type e) \<and> pe_DataLines e \<noteq> [] \<and> list_all no_eol (pe_DataLines e) \<and>
     no_eol (pe_ID e) \<and> NUL \<notin> set (pe_ID e)"

lemma field_value_subset: "set (field_value l) \<subseteq> set l"
proof -
  let ?rest = "drop 1 (dropWhile (\<lambda>c. c \<noteq> COLON) l)"
  have "set (field_value l) \<subseteq> set ?rest"
    by (cases ?rest) (auto simp: field_value_def)
  also have "set ?rest \<subseteq> set l" by (meson in_set_dropD set_dropWhileD subsetI)
  finally show ?thesis .
qed

lemma field_value_no_eol: "no_eol l \<Longrightarrow> no_eol (field_value l)"
  using field_value_subset [of l] by (auto simp: no_eol_def)

lemma values_of_no_eol: "list_all no_eol ls \<Longrightarrow> list_all no_eol (values_of n ls)"
  by (auto simp: values_of_def list_all_iff field_value_no_eol)

lemma current_frame_subset: "set (current_frame ls) \<subseteq> set ls"
  by (auto simp: current_frame_def dest: set_takeWhileD)

lemma last_or_in: "last_or d xs = d \<or> last_or d xs \<in> set xs"
  by (simp add: last_or_def)

lemma event_after_well_formed:
  assumes "list_all no_eol ls" "pe_DataLines (event_after ls) \<noteq> []"
  shows "well_formed (event_after ls)"
proof -
  have "list_all no_eol (current_frame ls)"
    using assms(1) current_frame_subset [of ls] by (auto simp: list_all_iff)
  note frame = values_of_no_eol [OF this]
  have "no_eol (last_or [] (values_of ''event'' (current_frame ls)))"
    using frame [of "''event''"] last_or_in [of "[]" "values_of ''event'' (current_frame ls)"]
    by (auto simp: list_all_iff no_eol_def)
  moreover have "no_eol (last_or [] (filter valid_id (values_of ''id'' ls))) \<and>
      NUL \<notin> set (last_or [] (filter valid_id (values_of ''id'' ls)))"
    using values_of_no_eol [OF assms(1), of "''id''"] last_or_in [of "[]" "filter valid_id (values_of ''id'' ls)"]
    by (auto simp: list_all_iff no_eol_def valid_id_def)
  ultimately show ?thesis
    using assms(2) frame [of "''data''"] by (simp add: well_formed_def event_after_def)
qed

lemma stream_events_well_formed:
  assumes "list_all no_eol ls"
  shows "list_all well_formed (stream_events ls)"
proof -
  have "list_all no_eol (take i ls)" for i using assms by (auto simp: list_all_iff dest: in_set_takeD)
  then show ?thesis
    using event_after_well_formed by (auto simp: stream_events_def dispatch_points_def list_all_iff)
qed

lemma stream_lines_no_eol: "list_all no_eol (stream_lines e s)"
  using eol_split_no_eol [of "hold_CR s"]
  by (cases e) (auto simp: list_all_iff dest: lines_at_eof_no_eol_each)

lemma source_events_well_formed: "list_all well_formed (source_events r)"
  unfolding source_events_def source_lines_def
  by (rule stream_events_well_formed) (rule stream_lines_no_eol)

text \<open>Sending a parsed event on.\<close>

definition resend :: "'i brandid \<Rightarrow> ParsedEvent \<Rightarrow> 'i Event" where
  "resend B e = \<lparr>ev_Event = pe_Type e, ev_Data = Data e, ev_ID = NewID B (pe_ID e), ev_Retry = pe_Retry e\<rparr>"

text \<open>
  C16. Whatever bytes a finite source delivers and whatever cuts them, \<open>ReadEvents\<close> returns only
  well-formed events: at least one data line, no line end in the type, in a data line or in the
  identifier, no NUL in the identifier. So every event read can be given to \<open>Send\<close> again without
  breaking the framing of the stream it is sent on.
\<close>

theorem ReadEvents_well_formed:
  assumes "readable r opts" "source_ending r = Ends EOF" "brandid_ok B"
  shows "\<exists>es. ReadEvents source_Read r opts = Some (Ret (Inr es)) \<and>
    list_all (\<lambda>e. well_formed e \<and> sendable B (OutEvent (resend B e))) es"
  using ReadEvents_result [OF assms(1,2)] source_events_well_formed [of r]
  by (auto simp: list_all_iff well_formed_def resend_def brandid_okD [OF assms(3)])

theorem ReadEvents_well_formed_witness:
  "\<exists>es. ReadEvents source_Read sample_source [WithMaxLineBytes 64] = Some (Ret (Inr es)) \<and>
    list_all (\<lambda>e. well_formed e \<and> sendable string_id (OutEvent (resend string_id e))) es"
  by (rule ReadEvents_well_formed [OF sample_source_readable string_id_ok])

subsection \<open>The retry time\<close>

text \<open>
  C29. A retry field never wraps around: its value is taken exactly when it is a nonempty string
  of digits whose number is below \<open>2 ^ 64\<close>, and then as that number; anything else, too large
  numbers included, leaves the parser as it was.
\<close>

theorem retry_field_bounds:
  "\<exists>ms. applyField p (''retry: '' @ v) = p\<lparr>sp_retry := ms\<rparr> \<and>
     (if v \<noteq> [] \<and> list_all isDigit v \<and> decimal v < 2 ^ 64 then unat ms = decimal v else ms = sp_retry p)"
proof -
  have line: "parseSSEField (''retry: '' @ v) = (''retry'', v)"
    by (simp add: parseSSEField_spec field_name_def field_value_def)
  have field: "applyField p (''retry: '' @ v) = (case ParseUint v of Inr ms \<Rightarrow> p\<lparr>sp_retry := ms\<rparr> | Inl err \<Rightarrow> p)"
    unfolding applyField_def line by simp
  show ?thesis
  proof (cases "ParseUint v")
    case (Inl err)
    then have "\<not> valid_retry v" using ParseUint_valid [of v] by auto
    then show ?thesis using field Inl by (intro exI [of _ "sp_retry p"]) (auto simp: valid_retry_def)
  next
    case (Inr ms)
    then show ?thesis using field ParseUint_Inr [of v ms] by (intro exI [of _ ms]) auto
  qed
qed

end
