(* ===== verification/Spec2Isabelle.thy ===== *)
theory Spec2Isabelle
  imports Programs Templates Drain Sessions Collect Conformance WellFormed
begin

text \<open>
  Verification of go-sse, a Go library for server-sent events.

  \<^bold>\<open>The program.\<close> Package \<open>sse\<close> is the server side. \<open>event.go\<close> writes events in the wire format
  of the HTML standard; \<open>stream.go\<close> is one connection to one client, with a heartbeat goroutine
  beside the handler; \<open>fanout.go\<close> and \<open>broadcaster.go\<close> distribute messages to bounded
  subscriber channels without blocking; \<open>replay.go\<close> sends a reconnecting client the events it
  missed, from any event store. Package \<open>sseparse\<close> is the reading side: \<open>reader.go\<close> turns any
  byte stream into events, \<open>event.go\<close> and \<open>search.go\<close> print and search them, \<open>assert.go\<close> asserts
  on them, \<open>corpus.go\<close> and \<open>gen_corpus.go\<close> keep a corpus of conformance vectors. Package
  \<open>ssetest\<close> collects the events of a handler over HTTP. The examples put the parts together:
  \<open>example/server.go\<close> is a fan-out server, \<open>example/datastar\<close> an activity feed with a producer, a
  ring buffer of events, replay and filtered subscriptions, \<open>example/htmx\<close> a progress bar.

  \<^bold>\<open>Theories and what they model.\<close>
  \<^item> \<open>Prelude\<close>: bytes and strings (a Go string is a \<^typ>\<open>string\<close> of bytes), package \<open>strings\<close> as
    far as it is used, error values with their wrapping, \<open>outcome\<close> (a result or a panic).
  \<^item> \<open>Lines\<close>: \<open>forEachLine\<close>, \<open>splitLines\<close>, \<open>JoinLines\<close>, \<open>KeyedLines\<close> of \<open>event.go\<close>, and the
    standard's end-of-line rule \<^const>\<open>eol_split\<close>, the reference for writer and reader alike.
  \<^item> \<open>Strconv\<close>: decimal formatting and parsing at 64 bits.
  \<^item> \<open>Events\<close>: \<open>EventID\<close>, \<open>Event\<close>, \<open>WriteEvent\<close>, \<open>WriteHeartbeat\<close>, \<open>WriteRetry\<close>,
    \<open>WriteKeyedLines\<close> of \<open>event.go\<close>, on a writer scripted to fail or to write short.
  \<^item> \<open>Readers\<close>: \<open>io.Reader\<close> as the locale \<open>io_reader\<close>, a source that delivers its bytes in any
    portions and ends in any way, \<open>io.ReadFull\<close> and \<open>bomStripReader\<close> of \<open>sseparse/reader.go\<close>.
  \<^item> \<open>Scanner\<close>: \<open>bufio.Scanner\<close> and \<open>splitSSELines\<close>. The locale \<open>split_func\<close> is the contract of
    a split function, \<open>scanning\<close> combines it with \<open>io_reader\<close>, and what \<open>Scan\<close> does is proved
    there once for every reader and interpreted for \<open>splitSSELines\<close> above \<open>bomStripReader\<close>.
  \<^item> \<open>Parser\<close>: \<open>streamParser\<close> of \<open>reader.go\<close>, and \<open>sseparse/event.go\<close>, \<open>sseparse/search.go\<close>.
  \<^item> \<open>Reading\<close>: \<open>ReadEvents\<close>, \<open>ReadNEvents\<close>, \<open>StreamReader\<close> and their options and variants.
  \<^item> \<open>RoundTrip\<close>: the two packages on the two ends of one byte stream.
  \<^item> \<open>WellFormed\<close>: the invariant of every event read, and the range of retry times.
  \<^item> \<open>Streams\<close>: \<open>stream.go\<close> on a response writer; using a finished response is a panic.
  \<^item> \<open>Connection\<close>: handler and heartbeat interleaved, and the client.
  \<^item> \<open>Channels\<close>: buffered channels with the panics of the language, as instance of the locale
    \<open>bounded_queue\<close>.
  \<^item> \<open>FanOut\<close>: every method of \<open>fanout.go\<close> and \<open>broadcaster.go\<close> on a \<open>world\<close>: the hub, a heap
    of channels, the log of callbacks. Theorems on broadcasting.
  \<^item> \<open>Lifecycle\<close>: subscribing, unsubscribing, closing, shutting down; the invariant \<^const>\<open>world_ok\<close>.
  \<^item> \<open>HubMachine\<close>: the hub as a labelled step relation \<^const>\<open>hub_act\<close> of goroutines at the grain of
    single sends (labels: an operation under the write lock, a receive, taking the read lock, one
    send, releasing it, a step of a shutdown, a cancellation), with the invariant by the locale \<open>machine\<close>.
  \<^item> \<open>Ordering\<close>: runs of the labelled relation, and per channel and per goroutine what was sent, taken
    and received, in order.
  \<^item> \<open>Drain\<close>: which steps help a shutdown to its end, and that they can always be taken.
  \<^item> \<open>Topics\<close>: an abstract publish/subscribe service \<^const>\<open>pubsub_step\<close> (members, mailboxes, room,
    phase), the abstraction \<^const>\<open>abs_world\<close>, and the refinement of every hub step.
  \<^item> \<open>Replay\<close>: \<open>replay.go\<close> for every store; the locale \<open>event_store\<close> is what a resumable store
    promises, and \<open>memStore\<close> of \<open>example/datastar/store.go\<close> its instance.
  \<^item> \<open>Reconnect\<close>: the request header, the replay and the client's reader put together.
  \<^item> \<open>Sessions\<close>: a client over any number of connections, each cut after any byte, as an inductive
    relation over the growing feed.
  \<^item> \<open>Forwarding\<close>: the loop of the example handlers that forwards a subscription to a stream
    while others use the hub and the heartbeat ticks.
  \<^item> \<open>Server\<close>: the handlers of \<open>example/server.go\<close>.
  \<^item> \<open>Producer\<close>: \<open>example/datastar/producer.go\<close>: items, events, the numbered feed.
  \<^item> \<open>Activity\<close>: \<open>example/datastar/handlers.go\<close>: the callbacks that announce the number of clients,
    the alert filter, the event handler from replay to forwarding.
  \<^item> \<open>Progress\<close>: the handlers of \<open>example/htmx/main.go\<close>.
  \<^item> \<open>Templates\<close>: the generated code of the two \<open>index_templ.go\<close>: text segments byte by byte, escaped
    expressions, nested components and the error after each write.
  \<^item> \<open>Programs\<close>: the \<open>main\<close> functions of the three examples: the routes with the pattern matching of
    \<open>http.ServeMux\<close>, the server configuration, and the graceful shutdown of \<open>example/datastar/main.go\<close>.
  \<^item> \<open>Testing\<close>: \<open>sseparse/assert.go\<close> on a test that logs failures, and \<open>ssetest/compat.go\<close>.
  \<^item> \<open>Collect\<close>: \<open>ssetest/options.go\<close> and \<open>ssetest/collect.go\<close>: request headers with Go's canonical
    names, the request sent, and the collectors on its response.
  \<^item> \<open>Corpus\<close>: \<open>sseparse/corpus.go\<close> and the generator \<open>sseparse/gen_corpus.go\<close> on files.
  \<^item> \<open>Conformance\<close>: the embedded corpus \<open>sseparse/testdata/wpt_format_corpus.json\<close>, every vector with its
    bytes, and the parser run on each.
  \<^item> this theory: what a client has received after many connections, and the producer's feed.

  \<^bold>\<open>What is shown.\<close> Both sides are proved against the standard: the writer's line splitting and
  the reader's scanner compute \<^const>\<open>eol_split\<close>, and the incremental parser computes a declarative
  reading of the standard's dispatch rule. Composing them, what \<open>WriteEvent\<close> writes is what
  \<open>ReadEvents\<close> reads, for arbitrary payloads and arbitrary read sizes, through a \<open>Stream\<close> with a
  heartbeat beside it, through the hub and the example servers, and through replay after a
  reconnection. The hub's operations are characterised on every branch, no interleaving makes
  it panic, and every interleaving refines the abstract service, in which a channel ends exactly
  when its subscriber is no longer a member. The activity server's feed is numbered without
  gaps, its store holds the latest events, and what a client gets is exactly the replayed
  events, the announcements and the broadcasts that fit its buffer. In every run a channel hands
  out what it took in order and a subscriber sees the messages of one goroutine in the order of
  their broadcast; from every reachable state a shutdown under way can be completed. A client
  that is cut off after any byte and comes back, any number of times, sees no event twice
  and misses none the ring buffer still had. The client of the progress bar reads the rendered
  fragments. Every request of the examples reaches the handler its route names, and the
  shutdown of the datastar program is shown to run into its deadline while a client stays
  connected: the HTTP server waits for the handlers, which nothing tells to stop. The test client
  sends the header that makes a server replay, the shipped conformance corpus passes vector
  by vector, and the generator admits only vectors the reader meets and settles after one run. Loops that wait for other goroutines (\<open>Scan\<close>, \<open>ReadFull\<close>,
  \<open>waitForDrain\<close>, \<open>Heartbeat\<close>, the handlers' and the producer's loop) are partial functions whose
  value \<open>None\<close> is a loop that never returns; that they return, and with what, is proved, so no
  fuel is involved.

  \<^bold>\<open>How the environment is modelled.\<close> Bytes arrive as a list of portions, errors and blocking
  reads. Other goroutines are a script: for each wait of a loop, the calls they make meanwhile
  and whether the context is cancelled then; theorems hold for every script that satisfies
  their hypotheses. Operations under one mutex are atomic. Go's map iteration order is a
  permutation given as an argument. Callbacks and predicates of the application may panic;
  the model keeps which of them ran. In the function \<open>Shutdown\<close> one poll of the buffers is
  atomic; \<open>HubMachine\<close> polls one buffer at a time. A callback runs in the step of the
  operation that calls it. Random draws, the clock, environment variables, files with their
  errors, and the HTTP transport between test client and handler are inputs. \<open>http.Server.Shutdown\<close> is the
  loop it runs, with one poll of the open connections as the unit of time: which clients have gone
  and whether the deadline has passed at a poll is an input. Texts of error
  and log messages are kept as far as they tell the branch, without their arguments.

  \<^bold>\<open>Parameters and bounds.\<close> The identifier type of go-branded-id is the parameter \<open>B\<close> with the
  hypothesis \<^const>\<open>brandid_ok\<close> (what \<open>NewID\<close> stores \<open>Get\<close> returns, \<open>IsZero\<close> recognises the empty
  identifier); \<open>json.Marshal\<close> is an argument of \<open>SendJSON\<close>, the JSON coding of corpus files a record
  of functions with the hypothesis \<^const>\<open>json_ok\<close>. The runtime of templ is a
  record of functions with the hypothesis \<^const>\<open>templ_ok\<close> (its buffer passes on what is written, its
  escaping leaves text without special characters alone and adds no line end); of \<open>net/http\<close> and \<open>bufio\<close> what the code uses is modelled.
  \<open>uint\<close> and \<open>int64\<close> have 64 bits. \<^const>\<open>limit_ok\<close>
  bounds a configured line limit by half of the largest \<open>int\<close>, as \<open>bufio.Scanner\<close> doubles its
  buffer. Theorems on event delivery ask that names and identifiers have no line end
  (\<^const>\<open>sendable\<close>: \<open>WriteEvent\<close> does not check them) and that the lines fit the client's limit.

  \<^bold>\<open>Not modelled.\<close> The listener and the accept loop below \<open>ListenAndServe\<close>; log lines; real time
  (intervals and timeouts are scripts of ticks and deadlines); percent-escapes in the paths of
  requests; the embedded static files; package documentation (\<open>doc.go\<close>).

  \<^bold>\<open>Planned extensions\<close>, in this order: the activity server's handlers as goroutines of \<open>HubMachine\<close>,
  the order of events a client sees across replay and live forwarding, fairness of the
  drain loop.
\<close>

section \<open>A client over many connections\<close>



text \<open>
  The activity feed of the datastar example is such a feed, as long as its lines fit the client's
  limit: the producer numbers its events from one.
\<close>

lemma producer_feed_ok:
  assumes "brandid_ok B" "list_all (fits_reader B opts) (feed B r 1 nows)" "int (1 + length nows) \<le> 2 ^ 63"
  shows "feed_ok B opts (feed B r 1 nows)"
proof -
  have "sorted_wrt (<) (map int [k..<m])" for k m by (simp add: sorted_wrt_map)
  then have "sorted_wrt (<) (map (seqOf B) (feed B r 1 nows))" unfolding feed_positions [OF assms(1,3)] .
  moreover have "0 < seqOf B e" if "e \<in> set (feed B r 1 nows)" for e
  proof -
    have "seqOf B e \<in> set (map (seqOf B) (feed B r 1 nows))" using that by simp
    then show ?thesis unfolding feed_positions [OF assms(1,3)] by auto
  qed
  moreover have "list_all (\<lambda>e. Atoi (GetID B (ev_ID e)) = Inr (seqOf B e)) (feed B r 1 nows)"
    using feed_seq [OF assms(1,3)] by (simp add: list_all_iff)
  ultimately show ?thesis using assms(2) by (simp add: feed_ok_def list_all_iff)
qed

end
